(* ===== verification/Forge_Prelude.thy ===== *)
theory Forge_Prelude
  imports Main "HOL-Library.Word"
begin

text \<open>
  Shared vocabulary of the development: C strings and characters as the two programs use
  them, the C library functions they call (\<^verbatim>\<open>strlen\<close>, \<^verbatim>\<open>strdup\<close>, \<^verbatim>\<open>isspace\<close>, \<^verbatim>\<open>isalpha\<close>,
  \<^verbatim>\<open>isalnum\<close>, \<^verbatim>\<open>malloc\<close>), the faults of C (dereferencing \<^verbatim>\<open>NULL\<close>, writing past an array),
  and the list lemmas that the component theories rest on.

  Conventions.
  \<^item> A \<^verbatim>\<open>char *\<close> that may be \<^verbatim>\<open>NULL\<close> is a \<open>string option\<close>, \<open>None\<close> being \<^verbatim>\<open>NULL\<close>; the string is
    the content before the terminator.
  \<^item> A heap allocation may fail. The answers of the allocator are the argument
    \<open>allocs\<close>: one Boolean per request, in the order the code makes them, and success once
    the list is used up. Every function that allocates takes the answers and returns what is
    left of them.
  \<^item> A function in which the C code may run into undefined behaviour returns
    \<open>fault + 'a\<close>, with \<open>Inl\<close> for the fault.
\<close>

text \<open>
  Two collections of definitions that proofs unfold together: the constants of the address map, and what a timer tick
  does.
\<close>

named_theorems layout_defs
named_theorems tick_defs

section \<open>Characters and C strings\<close>

abbreviation NUL :: char where
  "NUL \<equiv> CHR 0x00"

abbreviation newline :: char where
  "newline \<equiv> CHR 0x0A"

text \<open>The string a \<^verbatim>\<open>char *\<close> denotes when it points to the start of a buffer.\<close>

definition c_str :: "string \<Rightarrow> string" where
  "c_str buf = takeWhile (\<lambda>c. c \<noteq> NUL) buf"

definition c_strlen :: "string \<Rightarrow> nat" where
  "c_strlen buf = length (c_str buf)"

text \<open>Reading \<^verbatim>\<open>s[i]\<close> of a string: the terminator follows the content.\<close>

definition char_at :: "string \<Rightarrow> nat \<Rightarrow> char" where
  "char_at s i = (if i < length s then s ! i else NUL)"

definition isspace :: "char \<Rightarrow> bool" where
  "isspace c \<longleftrightarrow> c \<in> {CHR '' '', CHR 0x09, CHR 0x0A, CHR 0x0B, CHR 0x0C, CHR 0x0D}"

definition isdigit :: "char \<Rightarrow> bool" where
  "isdigit c \<longleftrightarrow> 48 \<le> (of_char c :: nat) \<and> (of_char c :: nat) \<le> 57"

definition isalpha :: "char \<Rightarrow> bool" where
  "isalpha c \<longleftrightarrow> (65 \<le> (of_char c :: nat) \<and> (of_char c :: nat) \<le> 90) \<or>
                 (97 \<le> (of_char c :: nat) \<and> (of_char c :: nat) \<le> 122)"

definition isalnum :: "char \<Rightarrow> bool" where
  "isalnum c \<longleftrightarrow> isalpha c \<or> isdigit c"

lemma isspace_NUL [simp]: "\<not> isspace NUL"
  by (simp add: isspace_def)

lemma isalpha_NUL [simp]: "\<not> isalpha NUL"
  by (simp add: isalpha_def)

lemma isalnum_NUL [simp]: "\<not> isalnum NUL"
  by (simp add: isalnum_def isdigit_def)

lemma c_str_le: "length (c_str buf) \<le> length buf"
  by (simp add: c_str_def length_takeWhile_le)

lemma c_strlen_le [simp]: "c_strlen buf \<le> length buf"
  by (simp add: c_strlen_def c_str_le)

lemma take_c_strlen [simp]: "take (c_strlen buf) buf = c_str buf"
  by (simp add: c_strlen_def c_str_def takeWhile_eq_take [symmetric])

lemma c_str_no_NUL [simp]: "NUL \<notin> set (c_str buf)"
  by (auto simp: c_str_def dest: set_takeWhileD)

lemma c_str_id: "NUL \<notin> set s \<Longrightarrow> c_str s = s"
  by (auto simp: c_str_def takeWhile_eq_all_conv)

lemma char_at_Cons_0 [simp]: "char_at (c # s) 0 = c"
  by (simp add: char_at_def)

lemma char_at_Cons_Suc [simp]: "char_at (c # s) (Suc i) = char_at s i"
  by (simp add: char_at_def)

lemma char_at_Nil [simp]: "char_at [] i = NUL"
  by (simp add: char_at_def)

lemma char_at_beyond [simp]: "length s \<le> i \<Longrightarrow> char_at s i = NUL"
  by (simp add: char_at_def)

lemma char_at_drop: "char_at (drop k s) i = char_at s (k + i)"
  by (auto simp: char_at_def)

section \<open>Faults and the allocator\<close>

datatype fault = NullDeref | OutOfBounds | BufferOverflow

type_synonym 'a res = "fault + 'a"

type_synonym allocs = "bool list"

fun malloc_ok :: "allocs \<Rightarrow> bool \<times> allocs" where
  "malloc_ok [] = (True, [])"
| "malloc_ok (b # bs) = (b, bs)"

definition strdup :: "string \<Rightarrow> allocs \<Rightarrow> string option \<times> allocs" where
  "strdup s as = (case malloc_ok as of (ok, as') \<Rightarrow> (if ok then Some s else None, as'))"

text \<open>An allocator that never refuses.\<close>

definition plenty :: "allocs \<Rightarrow> bool" where
  "plenty as \<longleftrightarrow> (\<forall>b \<in> set as. b)"

lemma plenty_Nil [simp]: "plenty []"
  by (simp add: plenty_def)

lemma malloc_ok_plenty: "plenty as \<Longrightarrow> fst (malloc_ok as) \<and> plenty (snd (malloc_ok as))"
  by (cases as) (auto simp: plenty_def)

lemma strdup_plenty: "plenty as \<Longrightarrow> \<exists>as'. strdup s as = (Some s, as') \<and> plenty as'"
  using malloc_ok_plenty [of as] by (auto simp: strdup_def split: prod.splits)

lemma strdup_Nil [simp]: "strdup s [] = (Some s, [])"
  by (simp add: strdup_def)

lemma strdup_cases:
  "strdup s as = (r, as') \<Longrightarrow> r = None \<or> r = Some s"
  by (auto simp: strdup_def split: prod.splits if_splits)

section \<open>Scanning loops\<close>

text \<open>
  The loop \<^verbatim>\<open>while (j < n && P(s[j])) j++;\<close>, which the lexer, the expansion and the user
  shell all use with different \<open>P\<close>.
\<close>

function scan_while :: "(char \<Rightarrow> bool) \<Rightarrow> string \<Rightarrow> nat \<Rightarrow> nat \<Rightarrow> nat" where
  "scan_while P s n j = (if j < n \<and> P (s ! j) then scan_while P s n (Suc j) else j)"
  by pat_completeness auto
termination
  by (relation "measure (\<lambda>(P, s, n, j). n - j)") auto

declare scan_while.simps [simp del]

lemma scan_while_takeWhile:
  "n \<le> length s \<Longrightarrow>
   scan_while P s n j = j + length (takeWhile P (drop j (take n s)))"
proof (induction P s n j rule: scan_while.induct)
  case (1 P s n j)
  show ?case
  proof (cases "j < n")
    case True
    with "1.prems" have "drop j (take n s) = s ! j # drop (Suc j) (take n s)"
      by (simp add: Cons_nth_drop_Suc [symmetric])
    with True 1 show ?thesis
      by (simp add: scan_while.simps [of P s n j])
  next
    case False
    then show ?thesis by (simp add: scan_while.simps [of P s n j])
  qed
qed

lemma scan_while_ge: "j \<le> scan_while P s n j"
  by (induction P s n j rule: scan_while.induct)
     (subst scan_while.simps, auto simp: Suc_le_eq dest: less_imp_le)

lemma scan_while_le: "j \<le> n \<Longrightarrow> scan_while P s n j \<le> n"
proof (induction P s n j rule: scan_while.induct)
  case (1 P s n j)
  then show ?case by (subst scan_while.simps) auto
qed

lemma dropWhile_length_le: "length (dropWhile P xs) \<le> length xs"
  by (induction xs) auto

lemma drop_scan_while:
  assumes "n \<le> length s"
  shows "drop (scan_while P s n j) (take n s) = dropWhile P (drop j (take n s))"
proof -
  have "drop (scan_while P s n j) (take n s) =
        drop (length (takeWhile P (drop j (take n s)))) (drop j (take n s))"
    using assms by (simp add: scan_while_takeWhile add.commute)
  then show ?thesis by (simp add: dropWhile_eq_drop)
qed

text \<open>The characters between two positions, as \<^verbatim>\<open>memcpy(val, s + i, j - i)\<close> copies them.\<close>

definition substr :: "string \<Rightarrow> nat \<Rightarrow> nat \<Rightarrow> string" where
  "substr s i j = take (j - i) (drop i s)"

lemma substr_scan_while:
  assumes "n \<le> length s"
  shows "substr s j (scan_while P s n j) = takeWhile P (drop j (take n s))"
proof -
  let ?w = "takeWhile P (drop j (take n s))"
  have "?w = take (length ?w) (drop j (take n s))"
    by (simp add: takeWhile_eq_take [symmetric])
  moreover have "length ?w \<le> n - j"
    using length_takeWhile_le [of P "drop j (take n s)"] assms by simp
  ultimately have "?w = take (length ?w) (drop j s)"
    by (simp add: drop_take take_take min_def)
  then show ?thesis
    using assms by (simp add: substr_def scan_while_takeWhile)
qed

section \<open>Searching a table\<close>

text \<open>The loop \<^verbatim>\<open>for (i = 0; i < N; i++) if (P(t[i])) return i;\<close> over a fixed table.\<close>

primrec first_index :: "('a \<Rightarrow> bool) \<Rightarrow> 'a list \<Rightarrow> nat option" where
  "first_index P [] = None"
| "first_index P (x # xs) = (if P x then Some 0 else map_option Suc (first_index P xs))"

lemma first_index_None: "first_index P xs = None \<longleftrightarrow> (\<forall>x \<in> set xs. \<not> P x)"
  by (induction xs) auto

lemma first_index_Some:
  "first_index P xs = Some i \<longleftrightarrow> i < length xs \<and> P (xs ! i) \<and> (\<forall>j < i. \<not> P (xs ! j))"
proof (induction xs arbitrary: i)
  case Nil
  then show ?case by simp
next
  case (Cons x xs)
  then show ?case by (cases i) (auto simp: All_less_Suc2)
qed

lemma first_index_SomeD:
  "first_index P xs = Some i \<Longrightarrow> i < length xs \<and> P (xs ! i)"
  by (simp add: first_index_Some)

lemma first_index_update: "i < length xs \<Longrightarrow> P y = P (xs ! i) \<Longrightarrow> first_index P (xs[i := y]) = first_index P xs"
  by (induction xs arbitrary: i) (auto split: nat.splits)

lemma first_index_unique:
  assumes "i < length xs" and "P (xs ! i)"
    and "\<And>j. j < length xs \<Longrightarrow> P (xs ! j) \<Longrightarrow> j = i"
  shows "first_index P xs = Some i"
  unfolding first_index_Some using assms less_trans by blast

section \<open>Arrays: what holds of a prefix and of a suffix\<close>

lemma list_all_take_nth:
  "list_all P (take n xs) \<longleftrightarrow> (\<forall>i < length xs. i < n \<longrightarrow> P (xs ! i))"
  by (auto simp: list_all_length)

lemma list_all_drop_nth:
  "list_all P (drop n xs) \<longleftrightarrow> (\<forall>i < length xs. n \<le> i \<longrightarrow> P (xs ! i))"
proof
  assume l: "list_all P (drop n xs)"
  show "\<forall>i < length xs. n \<le> i \<longrightarrow> P (xs ! i)"
  proof (intro allI impI)
    fix i assume "i < length xs" "n \<le> i"
    then have "drop n xs ! (i - n) = xs ! i" "i - n < length (drop n xs)" by auto
    with l show "P (xs ! i)" by (metis list_all_length)
  qed
qed (auto simp: list_all_length)

lemma set_tlD: "x \<in> set (tl xs) \<Longrightarrow> x \<in> set xs"
  by (cases xs) auto

lemmas list_all_nth = list_all_take_nth list_all_drop_nth list_all_length

text \<open>Keys of a table in which some entries do not count: overwriting one with a fresh key.\<close>

lemma nth_update_if: "j < length xs \<Longrightarrow> xs[i := x] ! j = (if i = j then x else xs ! j)"
  by (cases "i < length xs") auto

lemma distinct_filter_nth:
  assumes "distinct (filter P xs)" "i < length xs" "j < length xs" "xs ! i = xs ! j" "P (xs ! i)"
  shows "i = j"
proof -
  have "False" if "a < b" "b < length xs" "xs ! a = xs ! b" "P (xs ! a)" for a b
  proof -
    have "xs ! b \<in> set (take b xs)" using that by (auto simp: in_set_conv_nth intro!: exI [of _ a])
    moreover have "xs = take b xs @ xs ! b # drop (Suc b) xs" using that(2) by (rule id_take_nth_drop)
    then have "distinct (filter P (take b xs @ xs ! b # drop (Suc b) xs))" using assms(1) by simp
    ultimately show False using that(3,4) by auto
  qed
  from this [of i j] this [of j i] show ?thesis using assms by (metis linorder_neqE_nat)
qed

lemma distinct_filter_update:
  assumes "distinct (filter P xs)" and "P x \<Longrightarrow> x \<notin> set xs"
  shows "distinct (filter P (xs[i := x]))"
proof (cases "i < length xs")
  case True
  from assms(1) have "distinct (filter P (take i xs @ xs ! i # drop (Suc i) xs))"
    using id_take_nth_drop [OF True] by simp
  moreover have "set (take i xs) \<subseteq> set xs" "set (drop (Suc i) xs) \<subseteq> set xs"
    by (simp_all add: set_take_subset set_drop_subset)
  ultimately show ?thesis
    using assms(2) True by (auto simp: upd_conv_take_nth_drop split: if_splits)
qed (use assms in \<open>simp add: list_update_beyond\<close>)

section \<open>Decimal numbers\<close>

text \<open>What \<^verbatim>\<open>%d\<close> prints.\<close>

definition digit_char :: "nat \<Rightarrow> char" where
  "digit_char d = char_of (48 + d)"

fun dec_nat :: "nat \<Rightarrow> string" where
  "dec_nat n = (if n < 10 then [digit_char n] else dec_nat (n div 10) @ [digit_char (n mod 10)])"

declare dec_nat.simps [simp del]

definition dec_int :: "int \<Rightarrow> string" where
  "dec_int i = (if i < 0 then CHR ''-'' # dec_nat (nat (- i)) else dec_nat (nat i))"

end
