(* ===== verification/Tokens.thy ===== *)
theory Tokens
  imports Forge_Prelude
begin

text \<open>
  The tokens of the ShellForge shell: \<^verbatim>\<open>include/token.h\<close> and \<^verbatim>\<open>src/token.c\<close>. A token owns a copy of
  its text, so creating one asks the allocator; the text is \<^verbatim>\<open>NULL\<close> when that fails.
\<close>

datatype TokenType =
    TOKEN_WORD
  | TOKEN_PIPE
  | TOKEN_REDIRECT_IN
  | TOKEN_REDIRECT_OUT
  | TOKEN_REDIRECT_APPEND
  | TOKEN_AMPERSAND
  | TOKEN_END
  | TOKEN_ERROR

record Token =
  tok_type :: TokenType
  tok_value :: "string option"

definition create_token :: "TokenType \<Rightarrow> string option \<Rightarrow> allocs \<Rightarrow> Token \<times> allocs" where
  "create_token ty value as =
     (case value of
        Some v \<Rightarrow> (case strdup v as of (copy, as') \<Rightarrow> (\<lparr>tok_type = ty, tok_value = copy\<rparr>, as'))
      | None \<Rightarrow> (\<lparr>tok_type = ty, tok_value = None\<rparr>, as))"

definition free_token :: "Token \<Rightarrow> Token" where
  "free_token t = (if tok_value t \<noteq> None then t\<lparr>tok_value := None\<rparr> else t)"

fun token_type_to_string :: "TokenType \<Rightarrow> string" where
  "token_type_to_string TOKEN_WORD = ''WORD''"
| "token_type_to_string TOKEN_PIPE = ''PIPE''"
| "token_type_to_string TOKEN_REDIRECT_IN = ''REDIRECT_IN''"
| "token_type_to_string TOKEN_REDIRECT_OUT = ''REDIRECT_OUT''"
| "token_type_to_string TOKEN_REDIRECT_APPEND = ''REDIRECT_APPEND''"
| "token_type_to_string TOKEN_AMPERSAND = ''AMPERSAND''"
| "token_type_to_string TOKEN_END = ''END''"
| "token_type_to_string TOKEN_ERROR = ''ERROR''"

text \<open>
  What a caller may rely on after \<^verbatim>\<open>create_token\<close>: the type is the one asked for, and the
  value is the text or, if the allocator refused, missing.
\<close>

definition token_of :: "TokenType \<Rightarrow> string \<Rightarrow> allocs \<Rightarrow> Token \<times> allocs \<Rightarrow> bool" where
  "token_of ty v as r \<longleftrightarrow>
     tok_type (fst r) = ty \<and> tok_value (fst r) \<in> {None, Some v} \<and>
     (plenty as \<longrightarrow> tok_value (fst r) = Some v \<and> plenty (snd r))"

text \<open>The type and text of a token, as the specifications read it.\<close>

definition token_text :: "Token \<Rightarrow> TokenType \<times> string" where
  "token_text t = (tok_type t, case tok_value t of Some v \<Rightarrow> v | None \<Rightarrow> [])"

lemma create_token_of: "token_of ty v as (create_token ty (Some v) as)"
proof -
  obtain c as' where c: "strdup v as = (c, as')" by force
  moreover from c have "c = None \<or> c = Some v" by (rule strdup_cases)
  moreover from c have "plenty as \<Longrightarrow> c = Some v \<and> plenty as'"
    using strdup_plenty [of as v] by auto
  ultimately show ?thesis by (auto simp: token_of_def create_token_def)
qed

lemma create_token_NULL [simp]: "create_token ty None as = (\<lparr>tok_type = ty, tok_value = None\<rparr>, as)"
  by (simp add: create_token_def)

lemma token_type_to_string_inj: "token_type_to_string a = token_type_to_string b \<longleftrightarrow> a = b"
  by (cases a; cases b; simp)

lemma free_token_value [simp]: "tok_value (free_token t) = None"
  by (simp add: free_token_def)

end
