(* ===== verification/Lexing.thy ===== *)
theory Lexing
  imports Tokens
begin

text \<open>
  The lexer of ShellForge: \<^verbatim>\<open>include/lexer.h\<close> and \<^verbatim>\<open>src/lexer.c\<close>. The lexer state is the input
  buffer, a position and the length; the operations move the position. The second half of the
  theory relates \<^verbatim>\<open>lexer_next_token\<close> to a specification on the unread suffix of the line and
  states the contract of a token source, which the reading loop of the shell uses.
\<close>

section \<open>The lexer as written\<close>

record Lexer =
  lx_input :: "string option"
  lx_pos :: nat
  lx_length :: nat

definition lexer_init :: "string option \<Rightarrow> Lexer" where
  "lexer_init inp = \<lparr>lx_input = inp, lx_pos = 0,
     lx_length = (case inp of Some s \<Rightarrow> c_strlen s | None \<Rightarrow> 0)\<rparr>"

text \<open>The bytes at \<^verbatim>\<open>lexer->input\<close>; they are read only at positions below the length.\<close>

definition lx_chars :: "Lexer \<Rightarrow> string" where
  "lx_chars lx = (case lx_input lx of Some s \<Rightarrow> s | None \<Rightarrow> [])"

definition lexer_peek :: "Lexer \<Rightarrow> char" where
  "lexer_peek lx = (if lx_pos lx \<ge> lx_length lx then NUL else lx_chars lx ! lx_pos lx)"

definition lexer_advance :: "Lexer \<Rightarrow> char \<times> Lexer" where
  "lexer_advance lx =
     (let c = lexer_peek lx
      in (c, if c \<noteq> NUL then lx\<lparr>lx_pos := Suc (lx_pos lx)\<rparr> else lx))"

definition lexer_skip_whitespace :: "Lexer \<Rightarrow> Lexer" where
  "lexer_skip_whitespace lx =
     lx\<lparr>lx_pos := scan_while isspace (lx_chars lx) (lx_length lx) (lx_pos lx)\<rparr>"

text \<open>
  The end of both word branches: \<^verbatim>\<open>malloc\<close> a buffer for the characters between two positions,
  copy them, make the token (from \<^verbatim>\<open>NULL\<close> when the \<^verbatim>\<open>malloc\<close> failed) and free the buffer.
\<close>

definition lexer_word :: "Lexer \<Rightarrow> nat \<Rightarrow> nat \<Rightarrow> allocs \<Rightarrow> Token \<times> allocs" where
  "lexer_word lx start stop as =
     (case malloc_ok as of (ok, as') \<Rightarrow>
        create_token TOKEN_WORD (if ok then Some (substr (lx_chars lx) start stop) else None) as')"

definition is_word_break :: "char \<Rightarrow> bool" where
  "is_word_break c \<longleftrightarrow> isspace c \<or> c = CHR ''|'' \<or> c = CHR ''&'' \<or> c = CHR ''<'' \<or>
     c = CHR ''>'' \<or> c = CHR 0x22 \<or> c = CHR 0x27"

definition with_lexer :: "Lexer \<Rightarrow> Token \<times> allocs \<Rightarrow> Token \<times> Lexer \<times> allocs" where
  "with_lexer lx r = (fst r, lx, snd r)"

definition lexer_next_token :: "Lexer \<Rightarrow> allocs \<Rightarrow> Token \<times> Lexer \<times> allocs" where
  "lexer_next_token lx0 as =
     (let lx = lexer_skip_whitespace lx0; c = lexer_peek lx in
      if c = NUL then with_lexer lx (create_token TOKEN_END (Some ''END'') as)
      else if c = CHR ''|'' then
        with_lexer (snd (lexer_advance lx)) (create_token TOKEN_PIPE (Some ''|'') as)
      else if c = CHR ''&'' then
        with_lexer (snd (lexer_advance lx)) (create_token TOKEN_AMPERSAND (Some ''&'') as)
      else if c = CHR ''<'' then
        with_lexer (snd (lexer_advance lx)) (create_token TOKEN_REDIRECT_IN (Some ''<'') as)
      else if c = CHR ''>'' then
        (let lx1 = snd (lexer_advance lx) in
         if lexer_peek lx1 = CHR ''>'' then
           with_lexer (snd (lexer_advance lx1)) (create_token TOKEN_REDIRECT_APPEND (Some ''>>'') as)
         else with_lexer lx1 (create_token TOKEN_REDIRECT_OUT (Some ''>'') as))
      else if c = CHR 0x22 \<or> c = CHR 0x27 then
        (let lx1 = snd (lexer_advance lx);
             start = lx_pos lx1;
             stop = scan_while (\<lambda>d. d \<noteq> c) (lx_chars lx1) (lx_length lx1) start;
             lx2 = lx1\<lparr>lx_pos := stop\<rparr>;
             lx3 = (if lexer_peek lx2 = c then snd (lexer_advance lx2) else lx2)
         in with_lexer lx3 (lexer_word lx start stop as))
      else
        (let start = lx_pos lx;
             stop = scan_while (\<lambda>d. \<not> is_word_break d) (lx_chars lx) (lx_length lx) start
         in with_lexer (lx\<lparr>lx_pos := stop\<rparr>) (lexer_word lx start stop as)))"

section \<open>Specification on the unread suffix\<close>

definition rest :: "Lexer \<Rightarrow> string" where
  "rest lx = drop (lx_pos lx) (take (lx_length lx) (lx_chars lx))"

definition lexer_wf :: "Lexer \<Rightarrow> bool" where
  "lexer_wf lx \<longleftrightarrow> lx_pos lx \<le> lx_length lx \<and> lx_length lx \<le> length (lx_chars lx) \<and>
     NUL \<notin> set (take (lx_length lx) (lx_chars lx))"

definition operator_or_word :: "char \<Rightarrow> string \<Rightarrow> (TokenType \<times> string) \<times> string" where
  "operator_or_word c r =
     (if c = CHR ''|'' then ((TOKEN_PIPE, ''|''), r)
      else if c = CHR ''&'' then ((TOKEN_AMPERSAND, ''&''), r)
      else if c = CHR ''<'' then ((TOKEN_REDIRECT_IN, ''<''), r)
      else if c = CHR ''>'' then
        (if r \<noteq> [] \<and> hd r = CHR ''>'' then ((TOKEN_REDIRECT_APPEND, ''>>''), tl r)
         else ((TOKEN_REDIRECT_OUT, ''>''), r))
      else if c = CHR 0x22 \<or> c = CHR 0x27 then
        ((TOKEN_WORD, takeWhile (\<lambda>d. d \<noteq> c) r), drop 1 (dropWhile (\<lambda>d. d \<noteq> c) r))
      else ((TOKEN_WORD, takeWhile (\<lambda>d. \<not> is_word_break d) (c # r)),
            dropWhile (\<lambda>d. \<not> is_word_break d) (c # r)))"

definition lex1 :: "string \<Rightarrow> (TokenType \<times> string) \<times> string" where
  "lex1 s = (case dropWhile isspace s of
       [] \<Rightarrow> ((TOKEN_END, ''END''), [])
     | c # r \<Rightarrow> operator_or_word c r)"

section \<open>The lexer implements its specification\<close>

lemma lexer_init_wf [simp]: "lexer_wf (lexer_init inp)"
  by (cases inp) (simp_all add: lexer_wf_def lexer_init_def lx_chars_def)

lemma rest_init [simp]: "rest (lexer_init (Some s)) = c_str s"
  by (simp add: rest_def lexer_init_def lx_chars_def)

lemma rest_init_NULL [simp]: "rest (lexer_init None) = []"
  by (simp add: rest_def lexer_init_def lx_chars_def)

lemma rest_no_NUL: "lexer_wf lx \<Longrightarrow> NUL \<notin> set (rest lx)"
  by (auto simp: lexer_wf_def rest_def dest: in_set_dropD)

lemma lexer_peek_rest: "lexer_wf lx \<Longrightarrow> lexer_peek lx = char_at (rest lx) 0"
  by (auto simp: lexer_wf_def lexer_peek_def rest_def char_at_def)

lemma rest_set_pos:
  assumes "lexer_wf lx"
  shows "rest (lx\<lparr>lx_pos := scan_while P (lx_chars lx) (lx_length lx) (lx_pos lx)\<rparr>) =
         dropWhile P (rest lx)"
  using assms by (simp add: rest_def lexer_wf_def lx_chars_def drop_scan_while)

lemma wf_set_pos:
  assumes "lexer_wf lx"
  shows "lexer_wf (lx\<lparr>lx_pos := scan_while P (lx_chars lx) (lx_length lx) (lx_pos lx)\<rparr>)"
  using assms by (simp add: lexer_wf_def lx_chars_def scan_while_le)

lemma substr_rest:
  assumes "lexer_wf lx"
  shows "substr (lx_chars lx) (lx_pos lx)
           (scan_while P (lx_chars lx) (lx_length lx) (lx_pos lx)) = takeWhile P (rest lx)"
  using assms by (simp add: rest_def lexer_wf_def substr_scan_while)

lemma lexer_advance_rest:
  assumes wf: "lexer_wf lx" and r: "rest lx = c # r"
  shows "rest (snd (lexer_advance lx)) = r" "lexer_wf (snd (lexer_advance lx))"
proof -
  from wf r have "c \<noteq> NUL" using rest_no_NUL [OF wf] by auto
  then have adv: "snd (lexer_advance lx) = lx\<lparr>lx_pos := Suc (lx_pos lx)\<rparr>"
    using wf r by (simp add: lexer_advance_def lexer_peek_rest)
  have lt: "lx_pos lx < lx_length lx"
    using r by (auto simp: rest_def intro: ccontr)
  then have "drop (Suc (lx_pos lx)) (take (lx_length lx) (lx_chars lx)) = tl (rest lx)"
    by (simp add: rest_def drop_Suc drop_tl)
  then show "rest (snd (lexer_advance lx)) = r"
    using r by (simp add: adv rest_def lx_chars_def)
  show "lexer_wf (snd (lexer_advance lx))"
    using wf lt by (simp add: adv lexer_wf_def lx_chars_def)
qed

lemma lexer_skip_rest:
  assumes "lexer_wf lx"
  shows "rest (lexer_skip_whitespace lx) = dropWhile isspace (rest lx)"
    and "lexer_wf (lexer_skip_whitespace lx)"
  using assms by (simp_all add: lexer_skip_whitespace_def rest_set_pos wf_set_pos)

lemma lexer_word_of:
  "token_of TOKEN_WORD (substr (lx_chars lx) i j) as (lexer_word lx i j as)"
proof (cases as)
  case Nil
  then show ?thesis
    using create_token_of [of TOKEN_WORD _ "[]"] by (simp add: lexer_word_def)
next
  case (Cons b bs)
  then show ?thesis
    using create_token_of [of TOKEN_WORD "substr (lx_chars lx) i j" bs]
    by (cases b) (auto simp: lexer_word_def token_of_def plenty_def)
qed

text \<open>What one call promises: the token and the suffix are those of the specification.\<close>

definition lexes_as ::
  "string \<Rightarrow> allocs \<Rightarrow> Token \<times> Lexer \<times> allocs \<Rightarrow> bool" where
  "lexes_as s as r \<longleftrightarrow> (case r of (t, lx', as') \<Rightarrow> case lex1 s of ((ty, v), s') \<Rightarrow>
     token_of ty v as (t, as') \<and> rest lx' = s' \<and> lexer_wf lx')"

lemma lexes_as_with:
  "lex1 s = ((ty, v), s') \<Longrightarrow> token_of ty v as r \<Longrightarrow> rest lx = s' \<Longrightarrow> lexer_wf lx \<Longrightarrow>
   lexes_as s as (with_lexer lx r)"
  by (simp add: lexes_as_def with_lexer_def)

lemma lexer_quoted:
  assumes wf: "lexer_wf lx" and r: "rest lx = c # r" and q: "c = CHR 0x22 \<or> c = CHR 0x27"
  defines "lx1 \<equiv> snd (lexer_advance lx)"
  defines "stop \<equiv> scan_while (\<lambda>d. d \<noteq> c) (lx_chars lx1) (lx_length lx1) (lx_pos lx1)"
  defines "lx2 \<equiv> lx1\<lparr>lx_pos := stop\<rparr>"
  defines "lx3 \<equiv> (if lexer_peek lx2 = c then snd (lexer_advance lx2) else lx2)"
  shows "substr (lx_chars lx) (lx_pos lx1) stop = takeWhile (\<lambda>d. d \<noteq> c) r"
    and "rest lx3 = drop 1 (dropWhile (\<lambda>d. d \<noteq> c) r)" and "lexer_wf lx3"
proof -
  have wf1: "lexer_wf lx1" and r1: "rest lx1 = r"
    using lexer_advance_rest [OF wf r] by (simp_all add: lx1_def)
  have chars: "lx_chars lx1 = lx_chars lx"
    by (simp add: lx1_def lexer_advance_def Let_def lx_chars_def)
  show "substr (lx_chars lx) (lx_pos lx1) stop = takeWhile (\<lambda>d. d \<noteq> c) r"
    using substr_rest [OF wf1] by (simp add: stop_def chars [symmetric] r1)
  have wf2: "lexer_wf lx2" and r2: "rest lx2 = dropWhile (\<lambda>d. d \<noteq> c) r"
    using wf_set_pos [OF wf1] rest_set_pos [OF wf1] by (simp_all add: lx2_def stop_def r1)
  have "rest lx3 = drop 1 (dropWhile (\<lambda>d. d \<noteq> c) r) \<and> lexer_wf lx3"
  proof (cases "rest lx2")
    case Nil
    with q have "lexer_peek lx2 \<noteq> c" by (auto simp: lexer_peek_rest [OF wf2])
    with Nil wf2 show ?thesis by (simp add: lx3_def r2 [symmetric])
  next
    case (Cons d r')
    then have "dropWhile (\<lambda>d. d \<noteq> c) r = d # r'" using r2 by simp
    from iffD1 [OF dropWhile_eq_Cons_conv this] have "d = c" by simp
    with Cons lexer_advance_rest [OF wf2 Cons] show ?thesis
      by (simp add: lx3_def lexer_peek_rest [OF wf2] r2 [symmetric])
  qed
  then show "rest lx3 = drop 1 (dropWhile (\<lambda>d. d \<noteq> c) r)" and "lexer_wf lx3" by auto
qed

lemma lexer_append_or_out:
  assumes wf: "lexer_wf lx" and r: "rest lx = CHR ''>'' # r"
  defines "lx1 \<equiv> snd (lexer_advance lx)"
  shows "lexer_peek lx1 = CHR ''>'' \<longleftrightarrow> r \<noteq> [] \<and> hd r = CHR ''>''"
    and "rest lx1 = r" and "lexer_wf lx1"
    and "lexer_peek lx1 = CHR ''>'' \<Longrightarrow> rest (snd (lexer_advance lx1)) = tl r"
    and "lexer_peek lx1 = CHR ''>'' \<Longrightarrow> lexer_wf (snd (lexer_advance lx1))"
proof -
  show wf1: "lexer_wf lx1" and r1: "rest lx1 = r"
    using lexer_advance_rest [OF wf r] by (simp_all add: lx1_def)
  show *: "lexer_peek lx1 = CHR ''>'' \<longleftrightarrow> r \<noteq> [] \<and> hd r = CHR ''>''"
    by (cases r) (simp_all add: lexer_peek_rest [OF wf1] r1)
  assume "lexer_peek lx1 = CHR ''>''"
  with * have "rest lx1 = hd r # tl r" by (cases r) (simp_all add: r1)
  from lexer_advance_rest [OF wf1 this]
  show "rest (snd (lexer_advance lx1)) = tl r" and "lexer_wf (snd (lexer_advance lx1))" by auto
qed

lemma lexer_next_quoted:
  assumes "lexer_wf lx" and "rest lx = c # r" and q: "c = CHR 0x22 \<or> c = CHR 0x27"
    and skip: "lx = lexer_skip_whitespace lx0" and "lex1 (rest lx0) = operator_or_word c r"
  shows "lexes_as (rest lx0) as (lexer_next_token lx0 as)"
proof -
  note facts = lexer_quoted [OF assms(1-3)]
  have c: "lexer_peek lx = c" using assms by (simp add: lexer_peek_rest)
  have spec: "lex1 (rest lx0) =
      ((TOKEN_WORD, takeWhile (\<lambda>d. d \<noteq> c) r), drop 1 (dropWhile (\<lambda>d. d \<noteq> c) r))"
    using assms(5) q by (auto simp: operator_or_word_def)
  show ?thesis
    unfolding lexer_next_token_def Let_def skip [symmetric] c
    using q facts lexes_as_with [OF spec _ facts(2,3)]
      lexer_word_of [of lx "lx_pos (snd (lexer_advance lx))"
        "scan_while (\<lambda>d. d \<noteq> c) (lx_chars (snd (lexer_advance lx)))
           (lx_length (snd (lexer_advance lx))) (lx_pos (snd (lexer_advance lx)))" as, unfolded facts(1)]
    by (elim disjE) simp_all
qed

lemma lexer_next_plain:
  assumes wf: "lexer_wf lx" and r: "rest lx = c # r"
    and c: "c \<notin> {CHR ''|'', CHR ''&'', CHR ''<'', CHR ''>'', CHR 0x22, CHR 0x27}"
    and skip: "lx = lexer_skip_whitespace lx0" and spec: "lex1 (rest lx0) = operator_or_word c r"
  shows "lexes_as (rest lx0) as (lexer_next_token lx0 as)"
proof -
  let ?stop = "scan_while (\<lambda>d. \<not> is_word_break d) (lx_chars lx) (lx_length lx) (lx_pos lx)"
  have "c = lexer_peek lx" "c \<noteq> NUL"
    using r rest_no_NUL [OF wf] by (auto simp: lexer_peek_rest [OF wf])
  then have "lexer_next_token lx0 as =
      with_lexer (lx\<lparr>lx_pos := ?stop\<rparr>) (lexer_word lx (lx_pos lx) ?stop as)"
    using c by (simp add: lexer_next_token_def Let_def skip [symmetric])
  moreover have "lex1 (rest lx0) =
      ((TOKEN_WORD, takeWhile (\<lambda>d. \<not> is_word_break d) (rest lx)),
       dropWhile (\<lambda>d. \<not> is_word_break d) (rest lx))"
    using c by (simp add: spec operator_or_word_def r)
  ultimately show ?thesis
    using lexes_as_with [OF _ _ rest_set_pos [OF wf] wf_set_pos [OF wf]]
      lexer_word_of [of lx "lx_pos lx" ?stop as] by (simp add: substr_rest [OF wf])
qed

lemma lexer_next_token_lexes:
  assumes wf0: "lexer_wf lx0"
  shows "lexes_as (rest lx0) as (lexer_next_token lx0 as)"
proof -
  define lx where "lx = lexer_skip_whitespace lx0"
  have wf: "lexer_wf lx" and skip: "dropWhile isspace (rest lx0) = rest lx"
    using lexer_skip_rest [OF wf0] by (simp_all add: lx_def)
  note intro = lexes_as_with create_token_of
  note defs = lexer_next_token_def Let_def lx_def [symmetric] lexer_peek_rest [OF wf]
  show ?thesis
  proof (cases "rest lx")
    case Nil
    then have "lex1 (rest lx0) = ((TOKEN_END, ''END''), [])" by (simp add: lex1_def skip)
    from lexes_as_with [OF this create_token_of Nil wf] Nil show ?thesis by (simp add: defs)
  next
    case r: (Cons c r)
    have spec: "lex1 (rest lx0) = operator_or_word c r" by (simp add: lex1_def skip r)
    consider (op) "c = CHR ''|'' \<or> c = CHR ''&'' \<or> c = CHR ''<''" | (gt) "c = CHR ''>''"
      | (quote) "c = CHR 0x22 \<or> c = CHR 0x27"
      | (word) "c \<notin> {CHR ''|'', CHR ''&'', CHR ''<'', CHR ''>'', CHR 0x22, CHR 0x27}" by auto
    then show ?thesis
    proof cases
      case op
      with lexer_advance_rest [OF wf r] r show ?thesis
        by (elim disjE) (auto simp: defs spec operator_or_word_def intro!: intro)
    next
      case gt
      with lexer_append_or_out [OF wf r [unfolded gt]] r show ?thesis
        by (cases "r \<noteq> [] \<and> hd r = CHR ''>''")
           (auto simp: defs spec operator_or_word_def intro!: intro)
    next
      case quote
      from lexer_next_quoted [OF wf r quote lx_def spec] show ?thesis .
    next
      case word
      from lexer_next_plain [OF wf r word lx_def spec] show ?thesis .
    qed
  qed
qed

section \<open>Reading a whole line\<close>

lemma operator_or_word_progress:
  assumes "\<not> isspace c"
  shows "length (snd (operator_or_word c r)) \<le> length r"
proof -
  have "length (drop 1 (dropWhile P r)) \<le> length r" for P
    using dropWhile_length_le [of P r] by simp
  moreover have "length (dropWhile (\<lambda>d. \<not> is_word_break d) (c # r)) \<le> length r"
    if "\<not> is_word_break c" using that by (simp add: dropWhile_length_le)
  moreover have "c \<in> {CHR ''|'', CHR ''&'', CHR ''<'', CHR ''>'', CHR 0x22, CHR 0x27}"
    if "is_word_break c" using that assms by (auto simp: is_word_break_def)
  ultimately show ?thesis
    by (cases "is_word_break c") (auto simp: operator_or_word_def dropWhile_length_le)
qed

lemma dropWhile_hd_not: "dropWhile P xs = y # ys \<Longrightarrow> \<not> P y"
  using iffD1 [OF dropWhile_eq_Cons_conv, of P xs y ys] by simp

lemma operator_or_word_not_end: "fst (fst (operator_or_word c r)) \<noteq> TOKEN_END"
  by (simp add: operator_or_word_def)

lemma lex1_cases:
  obtains (stop) "lex1 s = ((TOKEN_END, ''END''), [])"
  | (token) "fst (fst (lex1 s)) \<noteq> TOKEN_END" "length (snd (lex1 s)) < length s"
proof (cases "dropWhile isspace s")
  case Nil
  with that show ?thesis by (simp add: lex1_def)
next
  case (Cons c r)
  then have "\<not> isspace c" by (rule dropWhile_hd_not)
  moreover from Cons have "Suc (length r) \<le> length s"
    using dropWhile_length_le [of isspace s] by simp
  ultimately show ?thesis
    using Cons operator_or_word_progress [of c r] operator_or_word_not_end [of c r]
    by (intro that(2)) (auto simp: lex1_def)
qed

lemma lex1_progress: "fst (fst (lex1 s)) \<noteq> TOKEN_END \<Longrightarrow> length (snd (lex1 s)) < length s"
  by (cases s rule: lex1_cases) auto

lemma lex1_no_NUL:
  assumes "NUL \<notin> set s"
  shows "NUL \<notin> set (snd (fst (lex1 s))) \<and> NUL \<notin> set (snd (lex1 s))"
proof -
  have sub: "NUL \<notin> set (takeWhile P xs)" "NUL \<notin> set (dropWhile P xs)" "NUL \<notin> set (drop n xs)"
    "NUL \<notin> set (tl xs)" if "NUL \<notin> set xs" for P n and xs :: string
    using that set_takeWhileD set_dropWhileD in_set_dropD set_tlD by metis+
  show ?thesis
  proof (cases "dropWhile isspace s")
    case (Cons c r)
    then have cr: "NUL \<notin> set (c # r)" "NUL \<notin> set r" using sub(2) [OF assms, of isspace] by simp_all
    note facts = sub [OF cr(1)] sub [OF cr(2)] sub(3) [OF sub(2) [OF cr(2)]]
    have "NUL \<notin> set (snd (fst (operator_or_word c r))) \<and> NUL \<notin> set (snd (operator_or_word c r))"
      unfolding operator_or_word_def using facts cr by (cases r) (simp_all del: takeWhile.simps(2) dropWhile.simps(2))
    then show ?thesis by (simp add: lex1_def Cons)
  next
    case Nil
    then have "lex1 s = ((TOKEN_END, ''END''), [])" unfolding lex1_def by (simp only: list.case)
    then show ?thesis by simp
  qed
qed

text \<open>The specification of a whole line: its tokens up to and including the end token.\<close>

function lex_all :: "string \<Rightarrow> (TokenType \<times> string) list" where
  "lex_all s = (case lex1 s of (t, s') \<Rightarrow>
     if fst t = TOKEN_END then [t] else t # lex_all s')"
  by pat_completeness auto
termination
proof (relation "measure length")
  fix s :: string and t s'
  assume "(t, s') = lex1 s" "fst t \<noteq> TOKEN_END"
  then show "(s', s) \<in> measure length"
    using lex1_progress [of s] by (metis fst_conv in_measure snd_conv)
qed simp

declare lex_all.simps [simp del]

text \<open>
  The reading loop of \<^verbatim>\<open>main\<close> over any token source: take tokens until the end token, at most
  \<open>n\<close> of them. \<^verbatim>\<open>read_tokens\<close> is that loop on the lexer with the array bound of the shell.
\<close>

fun collect :: "('s \<Rightarrow> 'a \<Rightarrow> 't \<times> 's \<times> 'a) \<Rightarrow> ('t \<Rightarrow> bool) \<Rightarrow> nat \<Rightarrow> 's \<Rightarrow> 'a \<Rightarrow>
    't list \<times> 's \<times> 'a" where
  "collect nxt is_end 0 s a = ([], s, a)"
| "collect nxt is_end (Suc n) s a =
     (case nxt s a of (t, s', a') \<Rightarrow>
        if is_end t then ([t], s', a')
        else (case collect nxt is_end n s' a' of (ts, r) \<Rightarrow> (t # ts, r)))"

abbreviation is_end_token :: "Token \<Rightarrow> bool" where
  "is_end_token t \<equiv> tok_type t = TOKEN_END"

definition read_tokens :: "Lexer \<Rightarrow> allocs \<Rightarrow> Token list \<times> Lexer \<times> allocs" where
  "read_tokens lx as = collect lexer_next_token is_end_token 255 lx as"

text \<open>The contract of a token source, and what the loop gets from it.\<close>

locale token_source =
  fixes nxt :: "'s \<Rightarrow> 'a \<Rightarrow> 't \<times> 's \<times> 'a"
    and is_end :: "'t \<Rightarrow> bool"
    and ok :: "'s \<Rightarrow> bool"
    and left :: "'s \<Rightarrow> nat"
  assumes ok_next: "ok s \<Longrightarrow> nxt s a = (t, s', a') \<Longrightarrow> ok s'"
    and progress: "ok s \<Longrightarrow> nxt s a = (t, s', a') \<Longrightarrow> \<not> is_end t \<Longrightarrow> left s' < left s"
begin

lemma collect_bound: "length (fst (collect nxt is_end n s a)) \<le> n"
  by (induction n arbitrary: s a) (auto split: prod.splits, metis fst_conv)

lemma collect_end_last:
  "t \<in> set (butlast (fst (collect nxt is_end n s a))) \<Longrightarrow> \<not> is_end t"
proof (induction n arbitrary: s a)
  case 0
  then show ?case by simp
next
  case (Suc n)
  obtain u s' a' where u: "nxt s a = (u, s', a')" by (metis prod_cases3)
  obtain ts r where ts: "collect nxt is_end n s' a' = (ts, r)" by (metis prod.exhaust)
  show ?case
    using Suc.prems Suc.IH [of s' a'] u ts by (auto split: if_splits)
qed

lemma collect_reaches_end:
  "ok s \<Longrightarrow> left s < n \<Longrightarrow>
   fst (collect nxt is_end n s a) \<noteq> [] \<and> is_end (last (fst (collect nxt is_end n s a)))"
proof (induction n arbitrary: s a)
  case 0
  then show ?case by simp
next
  case (Suc n)
  obtain u s' a' where u: "nxt s a = (u, s', a')" by (metis prod_cases3)
  obtain ts r where ts: "collect nxt is_end n s' a' = (ts, r)" by (metis prod.exhaust)
  show ?case
  proof (cases "is_end u")
    case True
    with u show ?thesis by simp
  next
    case False
    with Suc.prems u have "ok s'" "left s' < n"
      using ok_next progress [of s a u s' a'] by auto
    from Suc.IH [OF this, of a'] False u ts show ?thesis by simp
  qed
qed

end

lemma lexer_next_step:
  assumes "lexer_wf lx" and "lexer_next_token lx as = (t, lx', as')"
  shows "token_of (fst (fst (lex1 (rest lx)))) (snd (fst (lex1 (rest lx)))) as (t, as')"
    and "rest lx' = snd (lex1 (rest lx))" and "lexer_wf lx'"
  using lexer_next_token_lexes [OF assms(1), of as] assms(2)
  by (auto simp: lexes_as_def split: prod.splits)

interpretation lexer_source: token_source lexer_next_token is_end_token lexer_wf
  "\<lambda>lx. length (rest lx)"
proof unfold_locales
  fix lx t lx' and as as' :: allocs
  assume step: "lexer_wf lx" "lexer_next_token lx as = (t, lx', as')"
  from lexer_next_step(3) [OF step] show "lexer_wf lx'" .
  assume "\<not> is_end_token t"
  then show "length (rest lx') < length (rest lx)"
    using lexer_next_step [OF step] lex1_progress [of "rest lx"] by (auto simp: token_of_def)
qed

text \<open>
  The loop on a line is the specification cut at the bound, whatever the allocator does to the
  values; with memory to spare the values agree as well.
\<close>

lemma collect_lexer_types:
  "lexer_wf lx \<Longrightarrow>
   map tok_type (fst (collect lexer_next_token is_end_token n lx as)) =
   map fst (take n (lex_all (rest lx)))"
proof (induction n arbitrary: lx as)
  case 0
  then show ?case by simp
next
  case (Suc n)
  obtain t lx' as' where step: "lexer_next_token lx as = (t, lx', as')" by (metis prod_cases3)
  note one = lexer_next_step [OF Suc.prems step]
  obtain p s' where lex: "lex1 (rest lx) = (p, s')" by (metis prod.exhaust)
  have all: "lex_all (rest lx) = (if fst p = TOKEN_END then [p] else p # lex_all (rest lx'))"
    using one(2) lex by (simp add: lex_all.simps [of "rest lx"])
  have "tok_type t = fst p" using one(1) lex by (simp add: token_of_def)
  with Suc.IH [OF one(3), of as'] all step show ?case by (auto split: prod.splits)
qed

lemma collect_lexer_texts:
  "lexer_wf lx \<Longrightarrow> plenty as \<Longrightarrow>
   map token_text (fst (collect lexer_next_token is_end_token n lx as)) =
     take n (lex_all (rest lx)) \<and>
   (\<forall>t \<in> set (fst (collect lexer_next_token is_end_token n lx as)). tok_value t \<noteq> None) \<and>
   plenty (snd (snd (collect lexer_next_token is_end_token n lx as)))"
proof (induction n arbitrary: lx as)
  case 0
  then show ?case by simp
next
  case (Suc n)
  obtain t lx' as' where step: "lexer_next_token lx as = (t, lx', as')" by (metis prod_cases3)
  note one = lexer_next_step [OF Suc.prems(1) step]
  obtain p s' where lex: "lex1 (rest lx) = (p, s')" by (metis prod.exhaust)
  have all: "lex_all (rest lx) = (if fst p = TOKEN_END then [p] else p # lex_all (rest lx'))"
    using one(2) lex by (simp add: lex_all.simps [of "rest lx"])
  have t: "tok_type t = fst p" "tok_value t = Some (snd p)" "plenty as'"
    using one(1) lex Suc.prems(2) by (auto simp: token_of_def)
  with Suc.IH [OF one(3) t(3)] all step show ?case
    by (auto simp: token_text_def prod_eq_iff split: prod.splits)
qed

section \<open>Printing tokens so that they read back\<close>

definition print_word :: "string \<Rightarrow> string" where
  "print_word v =
     (if v \<noteq> [] \<and> list_all (\<lambda>c. \<not> is_word_break c) v then v
      else if CHR 0x22 \<in> set v then CHR 0x27 # v @ [CHR 0x27]
      else CHR 0x22 # v @ [CHR 0x22])"

definition print_token :: "TokenType \<times> string \<Rightarrow> string" where
  "print_token t = (if fst t = TOKEN_WORD then print_word (snd t) else snd t)"

definition printable :: "TokenType \<times> string \<Rightarrow> bool" where
  "printable t \<longleftrightarrow>
     (fst t = TOKEN_WORD \<and> NUL \<notin> set (snd t) \<and> \<not> {CHR 0x22, CHR 0x27} \<subseteq> set (snd t)) \<or>
     t \<in> {(TOKEN_PIPE, ''|''), (TOKEN_AMPERSAND, ''&''), (TOKEN_REDIRECT_IN, ''<''),
           (TOKEN_REDIRECT_OUT, ''>''), (TOKEN_REDIRECT_APPEND, ''>>'')}"

definition print_line :: "(TokenType \<times> string) list \<Rightarrow> string" where
  "print_line ts = concat (map (\<lambda>t. print_token t @ '' '') ts)"

lemma lex1_space [simp]: "lex1 (CHR '' '' # s) = lex1 s"
  by (simp add: lex1_def isspace_def)

lemma lex1_quoted:
  assumes "q = CHR 0x22 \<or> q = CHR 0x27" and "q \<notin> set v"
  shows "lex1 (q # v @ q # s) = ((TOKEN_WORD, v), s)"
proof -
  have "\<not> isspace q" using assms(1) by (auto simp: isspace_def)
  moreover have "takeWhile (\<lambda>d. d \<noteq> q) (v @ q # s) = v" "dropWhile (\<lambda>d. d \<noteq> q) (v @ q # s) = q # s"
    using assms(2) by (auto simp: takeWhile_append dropWhile_append)
  ultimately show ?thesis
    using assms(1) by (auto simp: lex1_def operator_or_word_def)
qed

lemma lex1_plain:
  assumes "v \<noteq> []" and v: "list_all (\<lambda>c. \<not> is_word_break c) v"
  shows "lex1 (v @ CHR '' '' # s) = ((TOKEN_WORD, v), CHR '' '' # s)"
proof -
  obtain c v' where c: "v = c # v'" using assms(1) by (cases v) auto
  have "is_word_break (CHR '' '')" by (simp add: is_word_break_def isspace_def)
  then have "takeWhile (\<lambda>d. \<not> is_word_break d) (v @ CHR '' '' # s) = v"
    and "dropWhile (\<lambda>d. \<not> is_word_break d) (v @ CHR '' '' # s) = CHR '' '' # s"
    using v by (auto simp: takeWhile_append dropWhile_append list_all_iff)
  moreover have "\<not> is_word_break c" using v c by simp
  ultimately show ?thesis
    by (simp add: lex1_def operator_or_word_def c is_word_break_def)
qed

lemma lex1_print:
  assumes "printable t"
  shows "lex1 (print_token t @ CHR '' '' # s) = (t, CHR '' '' # s)"
proof (cases "fst t = TOKEN_WORD")
  case True
  moreover from this assms have "CHR 0x22 \<in> set (snd t) \<Longrightarrow> CHR 0x27 \<notin> set (snd t)"
    by (auto simp: printable_def)
  ultimately show ?thesis
    using lex1_quoted [of "CHR 0x22" "[]" "CHR '' '' # s"]
    by (cases t) (auto simp: print_token_def print_word_def lex1_quoted lex1_plain)
next
  case False
  with assms show ?thesis
    by (auto simp: printable_def print_token_def lex1_def operator_or_word_def isspace_def)
qed

lemma printable_not_end: "printable t \<Longrightarrow> fst t \<noteq> TOKEN_END"
  by (auto simp: printable_def)

lemma lex_all_print_line:
  "list_all printable ts \<Longrightarrow> lex_all (print_line ts) = ts @ [(TOKEN_END, ''END'')]"
proof (induction ts)
  case Nil
  then show ?case by (simp add: print_line_def lex_all.simps [of "[]"] lex1_def)
next
  case (Cons t ts)
  have sp: "lex_all (CHR '' '' # s) = lex_all s" for s
    by (simp add: lex_all.simps [of "CHR '' '' # s"] lex_all.simps [of s])
  have "print_line (t # ts) = print_token t @ CHR '' '' # print_line ts"
    by (simp add: print_line_def)
  moreover have "lex_all (print_token t @ CHR '' '' # print_line ts) = t # lex_all (print_line ts)"
    using Cons.prems printable_not_end [of t] lex1_print [of t "print_line ts"] sp
    by (subst lex_all.simps) simp
  ultimately show ?case using Cons by simp
qed

lemma print_line_no_NUL: "list_all printable ts \<Longrightarrow> NUL \<notin> set (print_line ts)"
  by (induction ts) (auto simp: print_line_def print_token_def print_word_def printable_def)

section \<open>Properties of the lexer\<close>

text \<open>
  With memory for the copies, the token loop of the shell on any line reads exactly the first
  255 tokens of the specification of that line: the same types and the same texts.
\<close>

theorem read_tokens_lexes_line:
  assumes "plenty as"
  shows "map token_text (fst (read_tokens (lexer_init (Some line)) as)) = take 255 (lex_all (c_str line))"
  using collect_lexer_texts [where n = 255, OF lexer_init_wf assms, of "Some line"] unfolding read_tokens_def by simp

theorem read_tokens_lexes_line_witness:
  "plenty [] \<and> map token_text (fst (read_tokens (lexer_init (Some ''ls -l|wc>out'')) [])) =
     [(TOKEN_WORD, ''ls''), (TOKEN_WORD, ''-l''), (TOKEN_PIPE, ''|''), (TOKEN_WORD, ''wc''),
      (TOKEN_REDIRECT_OUT, ''>''), (TOKEN_WORD, ''out''), (TOKEN_END, ''END'')]"
proof -
  have "lex_all (c_str ''ls -l|wc>out'') =
     [(TOKEN_WORD, ''ls''), (TOKEN_WORD, ''-l''), (TOKEN_PIPE, ''|''), (TOKEN_WORD, ''wc''),
      (TOKEN_REDIRECT_OUT, ''>''), (TOKEN_WORD, ''out''), (TOKEN_END, ''END'')]" by code_simp
  with read_tokens_lexes_line [of "[]" "''ls -l|wc>out''"] show ?thesis by simp
qed

text \<open>
  Whatever the allocator refuses, the types of the tokens are those of the specification: a
  failed copy costs the text of a token, never the structure of the line.
\<close>

theorem read_tokens_types_without_memory:
  "map tok_type (fst (read_tokens (lexer_init (Some line)) as)) = map fst (take 255 (lex_all (c_str line)))"
  using collect_lexer_types [OF lexer_init_wf, of 255 "Some line" as] unfolding read_tokens_def by simp

text \<open>
  The token loop stays inside its array of 256 tokens, only the last token it stores can be the
  end token, and a line of fewer than 255 characters is read to its end.
\<close>

theorem read_tokens_bounded:
  "length (fst (read_tokens lx as)) \<le> 255 \<and>
   (t \<in> set (butlast (fst (read_tokens lx as))) \<longrightarrow> \<not> is_end_token t) \<and>
   (lx = lexer_init (Some line) \<and> c_strlen line < 255 \<longrightarrow>
     fst (read_tokens lx as) \<noteq> [] \<and> is_end_token (last (fst (read_tokens lx as))))"
  using lexer_source.collect_bound [of 255 lx as] lexer_source.collect_end_last [of t 255 lx as]
    lexer_source.collect_reaches_end [OF lexer_init_wf, of "Some line" 255 as] 
  unfolding read_tokens_def c_strlen_def by auto

theorem read_tokens_bounded_witness:
  "c_strlen ''ls'' < 255 \<and> is_end_token (last (fst (read_tokens (lexer_init (Some ''ls'')) [])))"
  using read_tokens_bounded [of "lexer_init (Some ''ls'')" "[]" undefined "''ls''"] by (simp add: c_strlen_def c_str_def)

text \<open>
  Printing a list of tokens (words quoted where they need it) and reading the line gives the
  tokens back, followed by the end token.
\<close>

theorem lexer_round_trip:
  assumes "list_all printable ts" "length ts < 255" "plenty as"
  shows "map token_text (fst (read_tokens (lexer_init (Some (print_line ts))) as)) = ts @ [(TOKEN_END, ''END'')]"
  using collect_lexer_texts [where n = 255, OF lexer_init_wf assms(3), of "Some (print_line ts)"] assms(1,2)
    lex_all_print_line [OF assms(1)] c_str_id [OF print_line_no_NUL [OF assms(1)]]
  unfolding read_tokens_def by simp

theorem lexer_round_trip_witness:
  "map token_text (fst (read_tokens (lexer_init (Some (''echo '' @ [CHR 0x22] @ ''a b'' @ [CHR 0x22] @ '' >> log ''))) [])) =
     [(TOKEN_WORD, ''echo''), (TOKEN_WORD, ''a b''), (TOKEN_REDIRECT_APPEND, ''>>''), (TOKEN_WORD, ''log''),
      (TOKEN_END, ''END'')]"
proof -
  let ?ts = "[(TOKEN_WORD, ''echo''), (TOKEN_WORD, ''a b''), (TOKEN_REDIRECT_APPEND, ''>>''), (TOKEN_WORD, ''log'')]"
  have "list_all printable ?ts" "length ?ts < 255" "print_line ?ts = ''echo '' @ [CHR 0x22] @ ''a b'' @ [CHR 0x22] @ '' >> log ''" by code_simp+
  with lexer_round_trip [of ?ts "[]"] show ?thesis by simp
qed

end
