(* ===== verification/Parsing.thy ===== *)
theory Parsing
  imports Tokens
begin

text \<open>
  The parser of ShellForge: \<^verbatim>\<open>include/parser.h\<close> and \<^verbatim>\<open>src/parser.c\<close>. Commands and pipelines are the
  fixed-size structs of the source: \<open>argv\<close> is a list of 64 slots, a pipeline a list of 16
  commands. The theory then gives a declarative specification (a token list is a list of
  items, split at the pipes) and proves that \<^verbatim>\<open>parse_tokens\<close> implements it.
\<close>

section \<open>Commands and pipelines\<close>

abbreviation MAX_COMMANDS :: nat where
  "MAX_COMMANDS \<equiv> 16"

abbreviation MAX_ARGS :: nat where
  "MAX_ARGS \<equiv> 64"

record Command =
  cmd_argv :: "string option list"
  cmd_argc :: nat
  cmd_input :: "string option"
  cmd_output :: "string option"
  cmd_append :: int
  cmd_background :: int

record Pipeline =
  commands :: "Command list"
  command_count :: nat

definition init_command :: Command where
  "init_command = \<lparr>cmd_argv = replicate MAX_ARGS None, cmd_argc = 0, cmd_input = None,
     cmd_output = None, cmd_append = 0, cmd_background = 0\<rparr>"

definition init_pipeline :: Pipeline where
  "init_pipeline = \<lparr>commands = replicate MAX_COMMANDS init_command, command_count = 0\<rparr>"

definition add_argument :: "Command \<Rightarrow> string \<Rightarrow> allocs \<Rightarrow> int \<times> Command \<times> allocs" where
  "add_argument cmd v as =
     (if cmd_argc cmd \<ge> MAX_ARGS - 1 then (-1, cmd, as)
      else (case strdup v as of (copy, as') \<Rightarrow>
        let cmd1 = cmd\<lparr>cmd_argv := (cmd_argv cmd)[cmd_argc cmd := copy]\<rparr> in
        if copy = None then (-1, cmd1, as')
        else let n = Suc (cmd_argc cmd1) in
             (0, cmd1\<lparr>cmd_argc := n, cmd_argv := (cmd_argv cmd1)[n := None]\<rparr>, as')))"

text \<open>\<^verbatim>\<open>strdup(NULL)\<close> is undefined; here it is the fault.\<close>

definition set_string :: "string option \<Rightarrow> string option \<Rightarrow> allocs \<Rightarrow>
    (int \<times> string option \<times> allocs) res" where
  "set_string dest value as =
     (case value of
        None \<Rightarrow> Inl NullDeref
      | Some v \<Rightarrow> (case strdup v as of (copy, as') \<Rightarrow>
          if copy = None then Inr (-1, dest, as') else Inr (0, copy, as')))"

definition set_command :: "Pipeline \<Rightarrow> nat \<Rightarrow> Command \<Rightarrow> Pipeline" where
  "set_command p i cmd = p\<lparr>commands := (commands p)[i := cmd]\<rparr>"

text \<open>
  The loop of \<^verbatim>\<open>parse_tokens\<close> over the tokens still to read; \<open>ci\<close> is \<^verbatim>\<open>command_index\<close>. A
  redirection consumes the token after it.
\<close>

fun parse_loop :: "Token list \<Rightarrow> nat \<Rightarrow> Pipeline \<Rightarrow> allocs \<Rightarrow> (int \<times> Pipeline \<times> allocs) res" where
  "parse_loop [] ci p as = Inr (0, p, as)"
| "parse_loop (t # ts) ci p as =
     (let cmd = commands p ! ci in
      case tok_type t of
        TOKEN_WORD \<Rightarrow>
          (case tok_value t of
             None \<Rightarrow> Inr (-1, p, as)
           | Some v \<Rightarrow>
               (case add_argument cmd v as of (rc, cmd', as') \<Rightarrow>
                  let p' = set_command p ci cmd' in
                  if rc \<noteq> 0 then Inr (-1, p', as') else parse_loop ts ci p' as'))
      | TOKEN_REDIRECT_IN \<Rightarrow>
          (case ts of
             [] \<Rightarrow> Inr (-1, p, as)
           | u # us \<Rightarrow>
               if tok_type u \<noteq> TOKEN_WORD then Inr (-1, p, as)
               else (case set_string (cmd_input cmd) (tok_value u) as of
                   Inl f \<Rightarrow> Inl f
                 | Inr (rc, inp, as') \<Rightarrow>
                     let p' = set_command p ci (cmd\<lparr>cmd_input := inp\<rparr>) in
                     if rc \<noteq> 0 then Inr (-1, p', as') else parse_loop us ci p' as'))
      | TOKEN_REDIRECT_OUT \<Rightarrow>
          (case ts of
             [] \<Rightarrow> Inr (-1, p, as)
           | u # us \<Rightarrow>
               if tok_type u \<noteq> TOKEN_WORD then Inr (-1, p, as)
               else let cmd1 = cmd\<lparr>cmd_append := 0\<rparr> in
                 (case set_string (cmd_output cmd1) (tok_value u) as of
                   Inl f \<Rightarrow> Inl f
                 | Inr (rc, out, as') \<Rightarrow>
                     let p' = set_command p ci (cmd1\<lparr>cmd_output := out\<rparr>) in
                     if rc \<noteq> 0 then Inr (-1, p', as') else parse_loop us ci p' as'))
      | TOKEN_REDIRECT_APPEND \<Rightarrow>
          (case ts of
             [] \<Rightarrow> Inr (-1, p, as)
           | u # us \<Rightarrow>
               if tok_type u \<noteq> TOKEN_WORD then Inr (-1, p, as)
               else let cmd1 = cmd\<lparr>cmd_append := 1\<rparr> in
                 (case set_string (cmd_output cmd1) (tok_value u) as of
                   Inl f \<Rightarrow> Inl f
                 | Inr (rc, out, as') \<Rightarrow>
                     let p' = set_command p ci (cmd1\<lparr>cmd_output := out\<rparr>) in
                     if rc \<noteq> 0 then Inr (-1, p', as') else parse_loop us ci p' as'))
      | TOKEN_PIPE \<Rightarrow>
          if cmd_argc cmd = 0 \<or> ci \<ge> MAX_COMMANDS - 1 then Inr (-1, p, as)
          else parse_loop ts (Suc ci) (p\<lparr>command_count := Suc (command_count p)\<rparr>) as
      | TOKEN_AMPERSAND \<Rightarrow>
          parse_loop ts ci (set_command p ci (cmd\<lparr>cmd_background := 1\<rparr>)) as
      | TOKEN_END \<Rightarrow> Inr (0, p, as)
      | TOKEN_ERROR \<Rightarrow> Inr (-1, p, as))"

text \<open>
  \<^verbatim>\<open>parse_tokens\<close>: the result code, what the pipeline argument points to afterwards (\<open>None\<close>
  when it was \<^verbatim>\<open>NULL\<close>) and the allocator.
\<close>

definition parse_tokens :: "Token list option \<Rightarrow> int \<Rightarrow> Pipeline option \<Rightarrow> allocs \<Rightarrow>
    (int \<times> Pipeline option \<times> allocs) res" where
  "parse_tokens tokens token_count pipeline as =
     (case tokens of
        None \<Rightarrow> Inr (-1, pipeline, as)
      | Some toks \<Rightarrow>
          if pipeline = None \<or> token_count \<le> 0 then Inr (-1, pipeline, as)
          else (case parse_loop (take (nat token_count) toks) 0
                       (init_pipeline\<lparr>command_count := 1\<rparr>) as of
              Inl f \<Rightarrow> Inl f
            | Inr (rc, p, as') \<Rightarrow> Inr (rc, Some p, as')))"

definition free_command :: "Command \<Rightarrow> Command" where
  "free_command cmd = cmd\<lparr>
     cmd_argv := replicate (min (cmd_argc cmd) (length (cmd_argv cmd))) None @
       drop (cmd_argc cmd) (cmd_argv cmd),
     cmd_input := None, cmd_output := None, cmd_argc := 0, cmd_append := 0,
     cmd_background := 0\<rparr>"

definition free_pipeline :: "Pipeline option \<Rightarrow> Pipeline option" where
  "free_pipeline pipeline =
     (case pipeline of
        None \<Rightarrow> None
      | Some p \<Rightarrow> Some (p\<lparr>
          commands := map free_command (take (command_count p) (commands p)) @
            drop (command_count p) (commands p),
          command_count := 0\<rparr>))"

definition print_command :: "nat \<Rightarrow> Command \<Rightarrow> string" where
  "print_command i cmd =
     ''Command '' @ dec_nat (i + 1) @ '':'' @ [newline] @
     ''  argc      : '' @ dec_nat (cmd_argc cmd) @ [newline] @
     ''  argv      :'' @
       concat (map (\<lambda>a. '' ['' @ (case a of Some s \<Rightarrow> s | None \<Rightarrow> ''(null)'') @ '']'')
         (take (cmd_argc cmd) (cmd_argv cmd))) @ [newline] @
     ''  input     : '' @ (case cmd_input cmd of Some s \<Rightarrow> s | None \<Rightarrow> ''none'') @ [newline] @
     ''  output    : '' @ (case cmd_output cmd of Some s \<Rightarrow> s | None \<Rightarrow> ''none'') @ [newline] @
     ''  append    : '' @ dec_int (cmd_append cmd) @ [newline] @
     ''  background: '' @ dec_int (cmd_background cmd) @ [newline]"

definition pipeline_print :: "Pipeline option \<Rightarrow> string" where
  "pipeline_print pipeline =
     (case pipeline of
        None \<Rightarrow> ''''
      | Some p \<Rightarrow>
          [newline] @ ''---------------- PARSED COMMAND ----------------'' @ [newline] @
          concat (map (\<lambda>i. print_command i (commands p ! i)) [0..<command_count p]) @
          ''-----------------------------------------------'' @ [newline])"

section \<open>Well-formed pipelines\<close>

text \<open>
  The shape every operation keeps: 64 slots, of which the first \<^verbatim>\<open>argc\<close> hold strings and the
  others \<^verbatim>\<open>NULL\<close>, with \<^verbatim>\<open>argc\<close> at most 63; so \<^verbatim>\<open>argv\<close> is always terminated for \<^verbatim>\<open>execvp\<close>.
\<close>

definition command_wf :: "Command \<Rightarrow> bool" where
  "command_wf cmd \<longleftrightarrow> length (cmd_argv cmd) = MAX_ARGS \<and> cmd_argc cmd \<le> MAX_ARGS - 1 \<and>
     list_all (\<lambda>a. a \<noteq> None) (take (cmd_argc cmd) (cmd_argv cmd)) \<and>
     list_all (\<lambda>a. a = None) (drop (cmd_argc cmd) (cmd_argv cmd))"

definition pipeline_wf :: "Pipeline \<Rightarrow> bool" where
  "pipeline_wf p \<longleftrightarrow> length (commands p) = MAX_COMMANDS \<and> command_count p \<le> MAX_COMMANDS \<and>
     list_all command_wf (commands p) \<and>
     list_all (\<lambda>c. c = init_command) (drop (command_count p) (commands p))"

lemma init_command_wf [simp]: "command_wf init_command"
  by (simp add: command_wf_def init_command_def list_all_iff)

section \<open>What a token list means\<close>

text \<open>A command as the shell's user thinks of it, and the items a token list denotes.\<close>

record acommand =
  args :: "string list"
  infile :: "string option"
  outfile :: "(string \<times> bool) option"
  bg :: bool

definition empty_cmd :: acommand where
  "empty_cmd = \<lparr>args = [], infile = None, outfile = None, bg = False\<rparr>"

definition abs_command :: "Command \<Rightarrow> acommand" where
  "abs_command c = \<lparr>args = map the (take (cmd_argc c) (cmd_argv c)), infile = cmd_input c,
     outfile = map_option (\<lambda>f. (f, cmd_append c \<noteq> 0)) (cmd_output c),
     bg = (cmd_background c \<noteq> 0)\<rparr>"

definition abs_pipeline :: "Pipeline \<Rightarrow> acommand list" where
  "abs_pipeline p = map abs_command (take (command_count p) (commands p))"

datatype item = Arg string | From string | To string bool | Amp | Bar

fun items :: "(TokenType \<times> string) list \<Rightarrow> item list option" where
  "items [] = Some []"
| "items ((TOKEN_END, _) # _) = Some []"
| "items ((TOKEN_WORD, w) # ts) = map_option ((#) (Arg w)) (items ts)"
| "items ((TOKEN_REDIRECT_IN, _) # (TOKEN_WORD, f) # ts) = map_option ((#) (From f)) (items ts)"
| "items ((TOKEN_REDIRECT_OUT, _) # (TOKEN_WORD, f) # ts) =
     map_option ((#) (To f False)) (items ts)"
| "items ((TOKEN_REDIRECT_APPEND, _) # (TOKEN_WORD, f) # ts) =
     map_option ((#) (To f True)) (items ts)"
| "items ((TOKEN_PIPE, _) # ts) = map_option ((#) Bar) (items ts)"
| "items ((TOKEN_AMPERSAND, _) # ts) = map_option ((#) Amp) (items ts)"
| "items _ = None"

fun apply_item :: "item \<Rightarrow> acommand \<Rightarrow> acommand" where
  "apply_item (Arg w) c = c\<lparr>args := args c @ [w]\<rparr>"
| "apply_item (From f) c = c\<lparr>infile := Some f\<rparr>"
| "apply_item (To f app) c = c\<lparr>outfile := Some (f, app)\<rparr>"
| "apply_item Amp c = c\<lparr>bg := True\<rparr>"
| "apply_item Bar c = c"

fun segments :: "item list \<Rightarrow> item list list" where
  "segments [] = [[]]"
| "segments (Bar # xs) = [] # segments xs"
| "segments (x # xs) = (x # hd (segments xs)) # tl (segments xs)"

definition build :: "item list \<Rightarrow> acommand" where
  "build seg = fold apply_item seg empty_cmd"

fun item_words :: "item \<Rightarrow> string list" where
  "item_words (Arg w) = [w]"
| "item_words _ = []"

definition arg_words :: "item list \<Rightarrow> string list" where
  "arg_words xs = concat (map item_words xs)"

definition segments_ok :: "item list list \<Rightarrow> bool" where
  "segments_ok segs \<longleftrightarrow> length segs \<le> MAX_COMMANDS \<and>
     list_all (\<lambda>s. length (arg_words s) \<le> MAX_ARGS - 1) segs \<and>
     list_all (\<lambda>s. arg_words s \<noteq> []) (butlast segs)"

text \<open>
  The specification of the parser: read the items, split them at the pipes, refuse empty
  commands before a pipe and anything that does not fit the arrays, and build each command
  from its segment.
\<close>

definition spec_parse :: "(TokenType \<times> string) list \<Rightarrow> acommand list option" where
  "spec_parse ts = (case items ts of
       None \<Rightarrow> None
     | Some xs \<Rightarrow> if segments_ok (segments xs) then Some (map build (segments xs)) else None)"

text \<open>
  Between the two: reading the items from left to right with the finished commands \<open>d\<close> and the
  current command \<open>c\<close>.
\<close>

fun read_items :: "item list \<Rightarrow> acommand list \<Rightarrow> acommand \<Rightarrow> acommand list option" where
  "read_items [] d c = Some (d @ [c])"
| "read_items (Arg w # xs) d c =
     (if length (args c) \<ge> MAX_ARGS - 1 then None else read_items xs d (apply_item (Arg w) c))"
| "read_items (Bar # xs) d c =
     (if args c = [] \<or> length d \<ge> MAX_COMMANDS - 1 then None
      else read_items xs (d @ [c]) empty_cmd)"
| "read_items (x # xs) d c = read_items xs d (apply_item x c)"

lemma segments_not_Nil [simp]: "segments xs \<noteq> []"
  by (induction xs rule: segments.induct) auto

lemma args_apply_item: "args (apply_item x c) = args c @ item_words x"
  by (cases x) auto

lemma arg_words_simps [simp]:
  "arg_words [] = []" "arg_words (x # xs) = item_words x @ arg_words xs"
  by (simp_all add: arg_words_def)

lemma args_fold: "args (fold apply_item xs c) = args c @ arg_words xs"
  by (induction xs arbitrary: c) (auto simp: args_apply_item)

definition segments_ok_from :: "nat \<Rightarrow> acommand \<Rightarrow> item list list \<Rightarrow> bool" where
  "segments_ok_from n c segs \<longleftrightarrow> n + length segs \<le> MAX_COMMANDS \<and>
     length (args c) + length (arg_words (hd segs)) \<le> MAX_ARGS - 1 \<and>
     list_all (\<lambda>s. length (arg_words s) \<le> MAX_ARGS - 1) (tl segs) \<and>
     (tl segs \<noteq> [] \<longrightarrow> args c @ arg_words (hd segs) \<noteq> []) \<and>
     list_all (\<lambda>s. arg_words s \<noteq> []) (butlast (tl segs))"

lemma segments_ok_from_Bar:
  "segments_ok_from n c ([] # segs) \<longleftrightarrow>
     n + 1 + length segs \<le> MAX_COMMANDS \<and> length (args c) \<le> MAX_ARGS - 1 \<and>
     (segs \<noteq> [] \<longrightarrow> args c \<noteq> [] \<and> segments_ok_from (Suc n) empty_cmd segs)"
  by (cases segs) (auto simp: segments_ok_from_def empty_cmd_def)

lemma segments_ok_from_item:
  assumes "segs \<noteq> []"
  shows "segments_ok_from n (apply_item x c) segs \<longleftrightarrow>
    segments_ok_from n c ((x # hd segs) # tl segs)"
  using assms by (cases segs) (auto simp: segments_ok_from_def args_apply_item)

lemma read_items_segments:
  assumes "length (args c) \<le> MAX_ARGS - 1" and "length d \<le> MAX_COMMANDS - 1"
  shows "read_items xs d c =
    (if segments_ok_from (length d) c (segments xs)
     then Some (d @ fold apply_item (hd (segments xs)) c # map build (tl (segments xs))) else None)"
  using assms
proof (induction xs d c rule: read_items.induct)
  case (1 d c)
  then show ?case by (simp add: segments_ok_from_def)
next
  case (2 w xs d c)
  then show ?case
    by (auto simp: segments_ok_from_item [symmetric] simp del: apply_item.simps)
       (auto simp: segments_ok_from_def args_apply_item)
next
  case (3 xs d c)
  then show ?case
    by (cases "segments xs")
       (auto simp: segments_ok_from_Bar build_def segments_ok_from_def empty_cmd_def)
qed (simp_all add: segments_ok_from_item [symmetric] args_apply_item del: apply_item.simps)

section \<open>The parser implements the specification\<close>

definition read_all :: "(TokenType \<times> string) list \<Rightarrow> acommand list \<Rightarrow> acommand \<Rightarrow>
    acommand list option" where
  "read_all ts d c = Option.bind (items ts) (\<lambda>xs. read_items xs d c)"

lemma read_all_simps [simp]:
  "read_all [] d c = Some (d @ [c])"
  "read_all ((TOKEN_END, v) # ts) d c = Some (d @ [c])"
  "read_all ((TOKEN_WORD, w) # ts) d c =
     (if length (args c) \<ge> MAX_ARGS - 1 then None else read_all ts d (apply_item (Arg w) c))"
  "read_all ((TOKEN_REDIRECT_IN, v) # (TOKEN_WORD, f) # ts) d c =
     read_all ts d (apply_item (From f) c)"
  "read_all ((TOKEN_REDIRECT_OUT, v) # (TOKEN_WORD, f) # ts) d c =
     read_all ts d (apply_item (To f False) c)"
  "read_all ((TOKEN_REDIRECT_APPEND, v) # (TOKEN_WORD, f) # ts) d c =
     read_all ts d (apply_item (To f True) c)"
  "read_all ((TOKEN_PIPE, v) # ts) d c =
     (if args c = [] \<or> length d \<ge> MAX_COMMANDS - 1 then None else read_all ts (d @ [c]) empty_cmd)"
  "read_all ((TOKEN_AMPERSAND, v) # ts) d c = read_all ts d (apply_item Amp c)"
  "read_all ((TOKEN_ERROR, v) # ts) d c = None"
  by (cases "items ts"; simp add: read_all_def)+

lemma read_all_redirect_None [simp]:
  assumes "r \<in> {TOKEN_REDIRECT_IN, TOKEN_REDIRECT_OUT, TOKEN_REDIRECT_APPEND}"
  shows "read_all [(r, v)] d c = None"
    and "ty \<noteq> TOKEN_WORD \<Longrightarrow> read_all ((r, v) # (ty, w) # ts) d c = None"
  using assms by (cases ty; auto simp: read_all_def)+

lemma spec_parse_read_all: "spec_parse ts = read_all ts [] empty_cmd"
proof (cases "items ts")
  case None
  then show ?thesis by (simp add: spec_parse_def read_all_def)
next
  case (Some xs)
  obtain s ss where "segments xs = s # ss" by (cases "segments xs") auto
  moreover have "segments_ok_from 0 empty_cmd (s # ss) = segments_ok (s # ss)"
    by (auto simp: segments_ok_from_def segments_ok_def empty_cmd_def)
  ultimately show ?thesis
    using Some read_items_segments [of empty_cmd "[]" xs]
    by (simp add: spec_parse_def read_all_def empty_cmd_def [THEN arg_cong, of args] build_def)
qed

text \<open>The state of the loop: \<open>ci\<close> finished commands \<open>d\<close> and the current command \<open>c\<close>.\<close>

definition parsing :: "Pipeline \<Rightarrow> nat \<Rightarrow> acommand list \<Rightarrow> acommand \<Rightarrow> bool" where
  "parsing p ci d c \<longleftrightarrow> ci \<le> MAX_COMMANDS - 1 \<and> command_count p = Suc ci \<and> pipeline_wf p \<and>
     d = map abs_command (take ci (commands p)) \<and> c = abs_command (commands p ! ci)"

lemma parsing_facts:
  assumes "parsing p ci d c"
  shows "command_wf (commands p ! ci)" "length d = ci"
    "length (args c) = cmd_argc (commands p ! ci)" "pipeline_wf p" "abs_pipeline p = d @ [c]"
proof -
  from assms have len: "length (commands p) = MAX_COMMANDS" "ci < MAX_COMMANDS"
    by (auto simp: parsing_def pipeline_wf_def)
  then show wf: "command_wf (commands p ! ci)"
    using assms by (simp add: parsing_def pipeline_wf_def list_all_length)
  show "length d = ci" "pipeline_wf p" using assms len by (auto simp: parsing_def)
  show "length (args c) = cmd_argc (commands p ! ci)"
    using assms wf by (simp add: parsing_def abs_command_def command_wf_def)
  show "abs_pipeline p = d @ [c]"
    using assms len by (simp add: parsing_def abs_pipeline_def take_Suc_conv_app_nth)
qed

lemma parsing_set:
  assumes "parsing p ci d c" and "command_wf cmd"
  shows "parsing (set_command p ci cmd) ci d (abs_command cmd)"
  using assms
  by (auto simp: parsing_def pipeline_wf_def set_command_def list_all_length nth_list_update)

lemma parsing_pipe:
  assumes "parsing p ci d c" and "ci < MAX_COMMANDS - 1"
  shows "parsing (p\<lparr>command_count := Suc (command_count p)\<rparr>) (Suc ci) (d @ [c]) empty_cmd"
proof -
  from assms have "commands p ! Suc ci = init_command"
    by (auto simp: parsing_def pipeline_wf_def list_all_drop_nth)
  moreover have "abs_command init_command = empty_cmd"
    by (simp add: abs_command_def init_command_def empty_cmd_def)
  moreover have "list_all (\<lambda>c. c = init_command) (drop (Suc (Suc ci)) (commands p))"
    using assms by (auto simp: parsing_def pipeline_wf_def list_all_drop_nth)
  ultimately show ?thesis
    using assms by (simp add: parsing_def pipeline_wf_def take_Suc_conv_app_nth)
qed

lemma command_wf_nth:
  "command_wf cmd \<longleftrightarrow> length (cmd_argv cmd) = MAX_ARGS \<and> cmd_argc cmd \<le> MAX_ARGS - 1 \<and>
     (\<forall>i < MAX_ARGS. cmd_argv cmd ! i \<noteq> None \<longleftrightarrow> i < cmd_argc cmd)"
  by (auto simp: command_wf_def list_all_take_nth list_all_drop_nth)

lemma command_wf_terminated:
  assumes "command_wf cmd"
  shows "cmd_argv cmd ! cmd_argc cmd = None" "k < cmd_argc cmd \<Longrightarrow> cmd_argv cmd ! k \<noteq> None"
proof -
  have n: "cmd_argc cmd < MAX_ARGS" and slots: "\<forall>i < MAX_ARGS. cmd_argv cmd ! i \<noteq> None \<longleftrightarrow> i < cmd_argc cmd"
    using assms by (auto simp: command_wf_nth)
  from n slots show "cmd_argv cmd ! cmd_argc cmd = None" by (metis order_less_irrefl)
  from n slots show "k < cmd_argc cmd \<Longrightarrow> cmd_argv cmd ! k \<noteq> None" by (meson order_less_trans)
qed

lemma add_argument_fails:
  assumes "command_wf cmd"
  shows "command_wf (cmd\<lparr>cmd_argv := (cmd_argv cmd)[cmd_argc cmd := None]\<rparr>)"
  using assms by (auto simp: command_wf_nth nth_list_update)

lemma add_argument_stores:
  fixes v :: string
  assumes "command_wf cmd" and "cmd_argc cmd < MAX_ARGS - 1"
  defines "cmd' \<equiv> cmd\<lparr>cmd_argc := Suc (cmd_argc cmd),
     cmd_argv := (cmd_argv cmd)[cmd_argc cmd := Some v, Suc (cmd_argc cmd) := None]\<rparr>"
  shows "command_wf cmd'" and "abs_command cmd' = apply_item (Arg v) (abs_command cmd)"
proof -
  show "command_wf cmd'"
    using assms by (auto simp: command_wf_nth nth_list_update less_Suc_eq)
  have "take (Suc (cmd_argc cmd)) (cmd_argv cmd') = take (cmd_argc cmd) (cmd_argv cmd) @ [Some v]"
    using assms by (simp add: command_wf_nth take_Suc_conv_app_nth)
  then show "abs_command cmd' = apply_item (Arg v) (abs_command cmd)"
    by (simp add: cmd'_def abs_command_def)
qed

lemma add_argument_wf:
  assumes wf: "command_wf cmd" and add: "add_argument cmd v as = (rc, cmd', as')"
  shows "command_wf cmd'" and "rc \<in> {0, -1}"
    and "rc = 0 \<Longrightarrow> abs_command cmd' = apply_item (Arg v) (abs_command cmd)"
    and "rc = 0 \<Longrightarrow> cmd_argc cmd < MAX_ARGS - 1"
    and "plenty as \<Longrightarrow> plenty as' \<and> (cmd_argc cmd < MAX_ARGS - 1 \<longrightarrow> rc = 0)"
proof -
  obtain copy bs where dup: "strdup v as = (copy, bs)" by force
  have copy: "copy = None \<or> copy = Some v" using strdup_cases [OF dup] .
  have pl: "plenty as \<Longrightarrow> copy = Some v \<and> plenty bs" using strdup_plenty [of as v] dup by auto
  note facts = add_argument_fails [OF wf] add_argument_stores [OF wf, of v]
  show "command_wf cmd'" "rc \<in> {0, -1}"
    "rc = 0 \<Longrightarrow> abs_command cmd' = apply_item (Arg v) (abs_command cmd)"
    "rc = 0 \<Longrightarrow> cmd_argc cmd < MAX_ARGS - 1"
    "plenty as \<Longrightarrow> plenty as' \<and> (cmd_argc cmd < MAX_ARGS - 1 \<longrightarrow> rc = 0)"
    using add wf copy pl facts by (auto simp: add_argument_def dup Let_def split: if_splits)
qed

lemma set_string_result:
  assumes "tok_value u \<noteq> None"
  obtains rc s as' where "set_string dest (tok_value u) as = Inr (rc, s, as')"
    "rc = 0 \<and> s = tok_value u \<or> rc = -1 \<and> s = dest \<and> \<not> plenty as" "plenty as \<longrightarrow> plenty as'"
proof -
  obtain v where v: "tok_value u = Some v" using assms by auto
  obtain copy bs where dup: "strdup v as = (copy, bs)" by force
  have "copy = None \<or> copy = Some v" using strdup_cases [OF dup] .
  moreover have "plenty as \<Longrightarrow> copy = Some v \<and> plenty bs" using strdup_plenty [of as v] dup by auto
  ultimately show thesis using that by (cases "plenty as") (auto simp: set_string_def v dup)
qed

text \<open>What a run of the loop promises.\<close>

definition parse_result :: "Token list \<Rightarrow> acommand list \<Rightarrow> acommand \<Rightarrow> allocs \<Rightarrow>
    (int \<times> Pipeline \<times> allocs) res \<Rightarrow> bool" where
  "parse_result ts d c as r \<longleftrightarrow> (\<exists>rc p as'. r = Inr (rc, p, as') \<and> pipeline_wf p \<and>
     rc \<in> {0, -1} \<and> (plenty as \<longrightarrow> plenty as') \<and>
     (rc = 0 \<longrightarrow> read_all (map token_text ts) d c = Some (abs_pipeline p)) \<and>
     (rc = -1 \<longrightarrow> plenty as \<longrightarrow> read_all (map token_text ts) d c = None))"

lemma parse_result_stop:
  "pipeline_wf p \<Longrightarrow> read_all (map token_text ts) d c = None \<Longrightarrow> parse_result ts d c as (Inr (-1, p, as))"
  by (simp add: parse_result_def)

lemma parse_result_cong:
  "parse_result us d' c' as' r \<Longrightarrow>
   read_all (map token_text ts) d c = read_all (map token_text us) d' c' \<Longrightarrow>
   (plenty as \<longrightarrow> plenty as') \<Longrightarrow> parse_result ts d c as r"
  by (auto simp: parse_result_def)

lemma parse_loop_word:
  assumes p: "parsing p ci d c" and t: "tok_type t = TOKEN_WORD" "tok_value t = Some v"
    and IH: "\<And>p' c' as'. parsing p' ci d c' \<Longrightarrow> parse_result us d c' as' (parse_loop us ci p' as')"
  shows "parse_result (t # us) d c as (parse_loop (t # us) ci p as)"
proof -
  note pf = parsing_facts [OF p]
  have text_t: "token_text t = (TOKEN_WORD, v)" using t by (simp add: token_text_def)
  obtain rc cmd' as' where add: "add_argument (commands p ! ci) v as = (rc, cmd', as')"
    by (metis prod_cases3)
  note a = add_argument_wf [OF pf(1) add]
  note q = parsing_set [OF p a(1)]
  have loop: "parse_loop (t # us) ci p as =
      (if rc \<noteq> 0 then Inr (-1, set_command p ci cmd', as')
       else parse_loop us ci (set_command p ci cmd') as')"
    using t add by simp
  show ?thesis
  proof (cases "rc = 0")
    case True
    have "abs_command cmd' = apply_item (Arg v) c" "length (args c) < MAX_ARGS - 1"
      using a(3,4) [OF True] p pf(3) by (auto simp: parsing_def)
    with IH [OF q, of as'] a(5) True text_t show ?thesis
      unfolding loop by (auto intro: parse_result_cong)
  next
    case False
    with a(2,5) parsing_facts(4) [OF q] text_t pf(3) show ?thesis
      unfolding loop by (auto simp: parse_result_def)
  qed
qed

text \<open>The three redirections differ in the field they set; \<open>upd\<close> is that update.\<close>

lemma parse_loop_redirect:
  assumes p: "parsing p ci d c" and us: "list_all (\<lambda>t. tok_value t \<noteq> None) us"
    and loop: "parse_loop (t # us) ci p as =
      (case us of [] \<Rightarrow> Inr (-1, p, as)
       | u # vs \<Rightarrow> if tok_type u \<noteq> TOKEN_WORD then Inr (-1, p, as)
           else (case set_string dest (tok_value u) as of
               Inl f \<Rightarrow> Inl f
             | Inr (rc, s, as') \<Rightarrow>
                 let p' = set_command p ci (upd s (commands p ! ci)) in
                 if rc \<noteq> 0 then Inr (-1, p', as') else parse_loop vs ci p' as'))"
    and t: "tok_type t \<in> {TOKEN_REDIRECT_IN, TOKEN_REDIRECT_OUT, TOKEN_REDIRECT_APPEND}"
    and wf: "\<And>s cmd. command_wf cmd \<Longrightarrow> command_wf (upd s cmd)"
    and item: "\<And>f vs cmd. read_all (token_text t # (TOKEN_WORD, f) # vs) d (abs_command cmd) =
        read_all vs d (abs_command (upd (Some f) cmd))"
    and IH: "\<And>u vs p' c' as'. us = u # vs \<Longrightarrow> parsing p' ci d c' \<Longrightarrow>
        parse_result vs d c' as' (parse_loop vs ci p' as')"
  shows "parse_result (t # us) d c as (parse_loop (t # us) ci p as)"
proof (cases us)
  case Nil
  then show ?thesis
    using loop parsing_facts(4) [OF p] t by (auto simp: parse_result_def token_text_def)
next
  case (Cons u vs)
  note pf = parsing_facts [OF p]
  show ?thesis
  proof (cases "tok_type u = TOKEN_WORD")
    case False
    with Cons loop pf(4) t show ?thesis
      by (auto simp: token_text_def intro!: parse_result_stop)
  next
    case True
    from us Cons obtain f where f: "tok_value u = Some f" by auto
    obtain rc s as' where set: "set_string dest (tok_value u) as = Inr (rc, s, as')"
      and rc: "rc = 0 \<and> s = tok_value u \<or> rc = -1 \<and> s = dest \<and> \<not> plenty as"
      and pl: "plenty as \<longrightarrow> plenty as'"
      using set_string_result [of u] f by (metis option.distinct(1))
    note q = parsing_set [OF p wf [OF pf(1)], of s]
    have c: "c = abs_command (commands p ! ci)" using p by (simp add: parsing_def)
    have text_t: "token_text u = (TOKEN_WORD, f)" using True f by (simp add: token_text_def)
    show ?thesis
      using rc IH [OF Cons q, of as'] parsing_facts(4) [OF q] loop Cons True set pl f item [of f] text_t
      by (auto simp: c parse_result_def)
  qed
qed

lemma parse_loop_pipe:
  assumes p: "parsing p ci d c" and t: "tok_type t = TOKEN_PIPE"
    and IH: "\<And>p' ci' d' c' as'. parsing p' ci' d' c' \<Longrightarrow>
      parse_result us d' c' as' (parse_loop us ci' p' as')"
  shows "parse_result (t # us) d c as (parse_loop (t # us) ci p as)"
proof -
  note pf = parsing_facts [OF p]
  obtain v where text_t: "token_text t = (TOKEN_PIPE, v)" using t by (simp add: token_text_def)
  have argc: "cmd_argc (commands p ! ci) = 0 \<longleftrightarrow> args c = []" using pf(3) by auto
  show ?thesis
  proof (cases "args c = [] \<or> ci \<ge> MAX_COMMANDS - 1")
    case True
    with t text_t argc pf show ?thesis by (auto intro!: parse_result_stop)
  next
    case False
    then have "parsing (p\<lparr>command_count := Suc (command_count p)\<rparr>) (Suc ci) (d @ [c]) empty_cmd"
      using parsing_pipe [OF p] by simp
    from IH [OF this, of as] False t text_t argc pf show ?thesis
      by (auto intro: parse_result_cong)
  qed
qed

lemma parse_loop_refines:
  "parsing p ci d c \<Longrightarrow> list_all (\<lambda>t. tok_value t \<noteq> None) ts \<Longrightarrow>
   parse_result ts d c as (parse_loop ts ci p as)"
proof (induction ts arbitrary: p ci d c as rule: length_induct)
  case (1 ts)
  note pf = parsing_facts [OF "1.prems"(1)]
  show ?case
  proof (cases ts)
    case Nil
    with pf show ?thesis by (simp add: parse_result_def)
  next
    case ts: (Cons t us)
    have IH: "parse_result vs d' c' as' (parse_loop vs ci' p' as')"
      if "parsing p' ci' d' c'" "vs = us \<or> (\<exists>u. us = u # vs)" for vs p' ci' d' c' as'
      using that "1.IH" "1.prems"(2) ts by auto
    have us: "list_all (\<lambda>t. tok_value t \<noteq> None) us" using "1.prems"(2) ts by simp
    note redirect = parse_loop_redirect [OF "1.prems"(1) us]
    show ?thesis
    proof (cases "tok_type t")
      case TOKEN_WORD
      moreover obtain v where "tok_value t = Some v" using "1.prems" ts by auto
      ultimately show ?thesis
        unfolding ts using IH by (intro parse_loop_word [OF "1.prems"(1)]) auto
    next
      case TOKEN_REDIRECT_IN
      show ?thesis unfolding ts
        by (rule redirect [where upd = "\<lambda>s cmd. cmd\<lparr>cmd_input := s\<rparr>" and dest = "cmd_input (commands p ! ci)"])
           (use TOKEN_REDIRECT_IN IH in \<open>auto simp: command_wf_def abs_command_def token_text_def
              Let_def split: list.splits\<close>)
    next
      case TOKEN_REDIRECT_OUT
      show ?thesis unfolding ts
        by (rule redirect [where upd = "\<lambda>s cmd. cmd\<lparr>cmd_append := 0, cmd_output := s\<rparr>"
             and dest = "cmd_output (commands p ! ci)"])
           (use TOKEN_REDIRECT_OUT IH in \<open>auto simp: command_wf_def abs_command_def token_text_def
              Let_def split: list.splits\<close>)
    next
      case TOKEN_REDIRECT_APPEND
      show ?thesis unfolding ts
        by (rule redirect [where upd = "\<lambda>s cmd. cmd\<lparr>cmd_append := 1, cmd_output := s\<rparr>"
             and dest = "cmd_output (commands p ! ci)"])
           (use TOKEN_REDIRECT_APPEND IH in \<open>auto simp: command_wf_def abs_command_def token_text_def
              Let_def split: list.splits\<close>)
    next
      case TOKEN_PIPE
      then show ?thesis
        unfolding ts using IH by (intro parse_loop_pipe [OF "1.prems"(1)]) auto
    next
      case TOKEN_AMPERSAND
      have "command_wf ((commands p ! ci)\<lparr>cmd_background := 1\<rparr>)"
        using pf(1) by (simp add: command_wf_def)
      from IH [OF parsing_set [OF "1.prems"(1) this], of us as]
      have "parse_result us d (apply_item Amp c) as (parse_loop ts ci p as)"
        using TOKEN_AMPERSAND ts "1.prems"(1) by (simp add: abs_command_def parsing_def)
      then show ?thesis
        by (rule parse_result_cong) (simp_all add: ts token_text_def TOKEN_AMPERSAND)
    next
      case TOKEN_END
      with ts pf show ?thesis by (simp add: parse_result_def token_text_def)
    next
      case TOKEN_ERROR
      with ts pf show ?thesis by (simp add: parse_result_def token_text_def)
    qed
  qed
qed

section \<open>Contracts of the parser\<close>

lemma init_pipeline_parsing: "parsing (init_pipeline\<lparr>command_count := 1\<rparr>) 0 [] empty_cmd"
  by (auto simp: parsing_def pipeline_wf_def init_pipeline_def list_all_length abs_command_def
        init_command_def empty_cmd_def command_wf_nth)

lemma parse_tokens_refines:
  assumes "list_all (\<lambda>t. tok_value t \<noteq> None) toks" and "toks \<noteq> []"
  shows "\<exists>rc p as'. parse_tokens (Some toks) (int (length toks)) (Some q) as = Inr (rc, Some p, as') \<and>
    pipeline_wf p \<and> rc \<in> {0, -1} \<and> (plenty as \<longrightarrow> plenty as') \<and>
    (rc = 0 \<longrightarrow> spec_parse (map token_text toks) = Some (abs_pipeline p)) \<and>
    (rc = -1 \<longrightarrow> plenty as \<longrightarrow> spec_parse (map token_text toks) = None)"
proof -
  from parse_loop_refines [OF init_pipeline_parsing assms(1), of as]
  obtain rc p as' where "parse_loop toks 0 (init_pipeline\<lparr>command_count := 1\<rparr>) as = Inr (rc, p, as')"
    and "pipeline_wf p" "rc \<in> {0, -1}" "plenty as \<longrightarrow> plenty as'"
    and "rc = 0 \<longrightarrow> read_all (map token_text toks) [] empty_cmd = Some (abs_pipeline p)"
    and "rc = -1 \<longrightarrow> plenty as \<longrightarrow> read_all (map token_text toks) [] empty_cmd = None"
    by (auto simp: parse_result_def)
  then show ?thesis using assms(2) by (auto simp: parse_tokens_def spec_parse_read_all)
qed

text \<open>Printing a list of commands as tokens, and reading it back.\<close>

definition unparse_command :: "acommand \<Rightarrow> (TokenType \<times> string) list" where
  "unparse_command c =
     map (Pair TOKEN_WORD) (args c) @
     (case infile c of None \<Rightarrow> [] | Some f \<Rightarrow> [(TOKEN_REDIRECT_IN, ''<''), (TOKEN_WORD, f)]) @
     (case outfile c of None \<Rightarrow> []
      | Some (f, app) \<Rightarrow>
          [if app then (TOKEN_REDIRECT_APPEND, ''>>'') else (TOKEN_REDIRECT_OUT, ''>''), (TOKEN_WORD, f)]) @
     (if bg c then [(TOKEN_AMPERSAND, ''&'')] else [])"

fun unparse :: "acommand list \<Rightarrow> (TokenType \<times> string) list" where
  "unparse [] = []"
| "unparse [c] = unparse_command c"
| "unparse (c # cs) = unparse_command c @ (TOKEN_PIPE, ''|'') # unparse cs"

definition acommands_ok :: "acommand list \<Rightarrow> bool" where
  "acommands_ok cs \<longleftrightarrow> cs \<noteq> [] \<and> length cs \<le> MAX_COMMANDS \<and>
     list_all (\<lambda>c. length (args c) \<le> MAX_ARGS - 1) cs \<and> list_all (\<lambda>c. args c \<noteq> []) (butlast cs)"

lemma read_all_words:
  "length (args c) + length ws \<le> MAX_ARGS - 1 \<Longrightarrow>
   read_all (map (Pair TOKEN_WORD) ws @ ts) d c = read_all ts d (c\<lparr>args := args c @ ws\<rparr>)"
  by (induction ws arbitrary: c) auto

lemma read_all_unparse_command:
  assumes "length (args c) \<le> MAX_ARGS - 1"
  shows "read_all (unparse_command c @ ts) d empty_cmd = read_all ts d c"
  using assms
  by (cases c) (auto simp: unparse_command_def read_all_words empty_cmd_def split: option.splits)

lemma read_all_unparse:
  assumes "cs \<noteq> []" and "length d + length cs \<le> MAX_COMMANDS"
    and "list_all (\<lambda>c. length (args c) \<le> MAX_ARGS - 1) cs"
    and "list_all (\<lambda>c. args c \<noteq> []) (butlast cs)"
  shows "read_all (unparse cs @ [(TOKEN_END, v)]) d empty_cmd = Some (d @ cs)"
  using assms
proof (induction cs arbitrary: d rule: unparse.induct)
  case (3 c c' cs)
  then show ?case
    using "3.IH" [of "d @ [c]"] by (simp add: read_all_unparse_command)
qed (simp_all add: read_all_unparse_command)

lemma spec_parse_unparse:
  "acommands_ok cs \<Longrightarrow> spec_parse (unparse cs @ [(TOKEN_END, v)]) = Some cs"
  using read_all_unparse [of cs "[]"] by (simp add: acommands_ok_def spec_parse_read_all)

section \<open>Releasing a pipeline\<close>

text \<open>A command that holds no string: all its slots are \<^verbatim>\<open>NULL\<close>.\<close>

definition holds_nothing :: "Command \<Rightarrow> bool" where
  "holds_nothing cmd \<longleftrightarrow> list_all (\<lambda>a. a = None) (cmd_argv cmd) \<and> cmd_input cmd = None \<and>
     cmd_output cmd = None"

lemma free_command_init: "command_wf cmd \<Longrightarrow> free_command cmd = init_command"
proof -
  assume wf: "command_wf cmd"
  then have "replicate (cmd_argc cmd) None @ drop (cmd_argc cmd) (cmd_argv cmd) = replicate MAX_ARGS None"
    by (intro nth_equalityI) (auto simp: command_wf_nth nth_append)
  then show ?thesis
    using wf by (simp add: free_command_def init_command_def command_wf_def)
qed

lemma free_pipeline_init:
  assumes "pipeline_wf p"
  shows "free_pipeline (Some p) = Some init_pipeline"
proof -
  have wf: "list_all command_wf (commands p)" and len: "length (commands p) = MAX_COMMANDS"
    and rest: "list_all (\<lambda>c. c = init_command) (drop (command_count p) (commands p))"
    using assms by (simp_all add: pipeline_wf_def)
  have "map free_command (take (command_count p) (commands p)) @ drop (command_count p) (commands p)
      = replicate MAX_COMMANDS init_command"
    using rest wf [unfolded list_all_length] len
    by (intro nth_equalityI) (auto simp: nth_append free_command_init list_all_drop_nth)
  then show ?thesis
    by (simp add: free_pipeline_def init_pipeline_def)
qed

section \<open>Properties of the parser\<close>

text \<open>
  C11: On any nonempty token array whose texts are present, \<^verbatim>\<open>parse_tokens\<close> returns 0 or -1 without a
  fault. When it returns 0 the pipeline is what the specification assigns to the tokens; when it
  returns -1 with memory to spare, the specification rejects the tokens.
\<close>

theorem parse_tokens_implements_spec:
  assumes "list_all (\<lambda>t. tok_value t \<noteq> None) toks" "toks \<noteq> []"
  shows "\<exists>rc p as'. parse_tokens (Some toks) (int (length toks)) (Some q) as = Inr (rc, Some p, as') \<and>
    rc \<in> {0, -1} \<and> (rc = 0 \<longrightarrow> spec_parse (map token_text toks) = Some (abs_pipeline p)) \<and>
    (rc = -1 \<longrightarrow> plenty as \<longrightarrow> spec_parse (map token_text toks) = None)"
  using parse_tokens_refines [OF assms, of q as] by blast

theorem parse_tokens_implements_spec_witness:
  "\<exists>p as'. parse_tokens (Some [\<lparr>tok_type = TOKEN_WORD, tok_value = Some ''ls''\<rparr>,
       \<lparr>tok_type = TOKEN_AMPERSAND, tok_value = Some ''&''\<rparr>, \<lparr>tok_type = TOKEN_END, tok_value = Some ''END''\<rparr>])
       3 (Some init_pipeline) [] = Inr (0, Some p, as') \<and>
     abs_pipeline p = [\<lparr>args = [''ls''], infile = None, outfile = None, bg = True\<rparr>]"
proof -
  let ?toks = "[\<lparr>tok_type = TOKEN_WORD, tok_value = Some ''ls''\<rparr>,
       \<lparr>tok_type = TOKEN_AMPERSAND, tok_value = Some ''&''\<rparr>, \<lparr>tok_type = TOKEN_END, tok_value = Some ''END''\<rparr>]"
  have "spec_parse (map token_text ?toks) = Some [\<lparr>args = [''ls''], infile = None, outfile = None, bg = True\<rparr>]"
    by (simp add: spec_parse_def token_text_def segments_ok_def build_def empty_cmd_def)
  with parse_tokens_implements_spec [of ?toks init_pipeline "[]"] show ?thesis by auto
qed

text \<open>
  C36: Every command of a parsed pipeline is ready for \<^verbatim>\<open>execvp\<close>, also after a parse error and whatever
  the allocator does: there are at most 16 commands of at most 63 arguments, the first \<^verbatim>\<open>argc\<close> slots
  hold strings and the slot after them is \<^verbatim>\<open>NULL\<close>.
\<close>

theorem parse_tokens_argv_terminated:
  assumes "list_all (\<lambda>t. tok_value t \<noteq> None) toks" "toks \<noteq> []"
    and "parse_tokens (Some toks) (int (length toks)) (Some q) as = Inr (rc, Some p, as')"
    and "i < MAX_COMMANDS"
  shows "command_count p \<le> MAX_COMMANDS \<and> length (commands p) = MAX_COMMANDS \<and>
    cmd_argc (commands p ! i) \<le> 63 \<and> cmd_argv (commands p ! i) ! cmd_argc (commands p ! i) = None \<and>
    (\<forall>k < cmd_argc (commands p ! i). cmd_argv (commands p ! i) ! k \<noteq> None)"
proof -
  have wf: "pipeline_wf p" using parse_tokens_refines [OF assms(1,2), of q as] assms(3) by auto
  then have "command_wf (commands p ! i)" using assms(4) by (simp add: pipeline_wf_def list_all_length)
  with wf command_wf_terminated [OF this] show ?thesis by (auto simp: pipeline_wf_def command_wf_def)
qed

theorem parse_tokens_argv_terminated_witness:
  "\<exists>p as'. parse_tokens (Some [\<lparr>tok_type = TOKEN_WORD, tok_value = Some ''ls''\<rparr>]) 1 (Some init_pipeline) [] =
       Inr (0, Some p, as') \<and> cmd_argv (commands p ! 0) ! cmd_argc (commands p ! 0) = None"
proof -
  let ?toks = "[\<lparr>tok_type = TOKEN_WORD, tok_value = Some ''ls''\<rparr>]"
  obtain p as' where run: "parse_tokens (Some ?toks) 1 (Some init_pipeline) [] = Inr (0, Some p, as')"
    by (simp add: parse_tokens_def add_argument_def init_pipeline_def init_command_def)
  with parse_tokens_argv_terminated [of ?toks init_pipeline "[]" 0 p as' 0] show ?thesis by auto
qed

text \<open>
  Printing commands as tokens and parsing these tokens gives the commands back, for every list
  of commands that fits the arrays and has no empty command before a pipe.
\<close>

theorem parse_round_trip:
  assumes "acommands_ok cs" "plenty as" "list_all (\<lambda>t. tok_value t \<noteq> None) toks"
    and "map token_text toks = unparse cs @ [(TOKEN_END, ''END'')]"
  shows "\<exists>p as'. parse_tokens (Some toks) (int (length toks)) (Some q) as = Inr (0, Some p, as') \<and>
    abs_pipeline p = cs"
proof -
  have "toks \<noteq> []" using assms(4) by auto
  with parse_tokens_refines [OF assms(3) this, of q as] spec_parse_unparse [OF assms(1)] assms(2,4)
  show ?thesis by auto
qed

theorem parse_round_trip_witness:
  "\<exists>p as'. parse_tokens (Some [\<lparr>tok_type = TOKEN_WORD, tok_value = Some ''a''\<rparr>,
       \<lparr>tok_type = TOKEN_PIPE, tok_value = Some ''|''\<rparr>, \<lparr>tok_type = TOKEN_WORD, tok_value = Some ''b''\<rparr>,
       \<lparr>tok_type = TOKEN_END, tok_value = Some ''END''\<rparr>]) 4 (Some init_pipeline) [] = Inr (0, Some p, as') \<and>
     abs_pipeline p = [empty_cmd\<lparr>args := [''a'']\<rparr>, empty_cmd\<lparr>args := [''b'']\<rparr>]"
proof -
  let ?cs = "[empty_cmd\<lparr>args := [''a'']\<rparr>, empty_cmd\<lparr>args := [''b'']\<rparr>]"
  have "acommands_ok ?cs" by (simp add: acommands_ok_def empty_cmd_def)
  from parse_round_trip [OF this plenty_Nil, of "[\<lparr>tok_type = TOKEN_WORD, tok_value = Some ''a''\<rparr>,
       \<lparr>tok_type = TOKEN_PIPE, tok_value = Some ''|''\<rparr>, \<lparr>tok_type = TOKEN_WORD, tok_value = Some ''b''\<rparr>,
       \<lparr>tok_type = TOKEN_END, tok_value = Some ''END''\<rparr>]" init_pipeline]
  show ?thesis by (simp add: token_text_def unparse_command_def empty_cmd_def)
qed

text \<open>
  \<^verbatim>\<open>free_pipeline\<close> after \<^verbatim>\<open>parse_tokens\<close>, whatever the result code, releases every string: the
  pipeline is back in its initial state and no slot of any command holds a string.
\<close>

theorem free_pipeline_releases_all:
  assumes "list_all (\<lambda>t. tok_value t \<noteq> None) toks" "toks \<noteq> []"
    and "parse_tokens (Some toks) (int (length toks)) (Some q) as = Inr (rc, Some p, as')"
  shows "free_pipeline (Some p) = Some init_pipeline \<and> list_all holds_nothing (commands init_pipeline)"
proof -
  have "pipeline_wf p" using parse_tokens_refines [OF assms(1,2), of q as] assms(3) by auto
  then show ?thesis
    by (simp add: free_pipeline_init init_pipeline_def holds_nothing_def init_command_def list_all_iff)
qed

theorem free_pipeline_releases_all_witness:
  "\<exists>p as'. parse_tokens (Some [\<lparr>tok_type = TOKEN_WORD, tok_value = Some ''ls''\<rparr>]) 1 (Some init_pipeline) [] =
       Inr (0, Some p, as') \<and> free_pipeline (Some p) = Some init_pipeline"
proof -
  let ?toks = "[\<lparr>tok_type = TOKEN_WORD, tok_value = Some ''ls''\<rparr>]"
  obtain p as' where run: "parse_tokens (Some ?toks) 1 (Some init_pipeline) [] = Inr (0, Some p, as')"
    by (simp add: parse_tokens_def add_argument_def init_pipeline_def init_command_def)
  with free_pipeline_releases_all [of ?toks init_pipeline "[]" 0 p as'] show ?thesis by auto
qed

text \<open>
  A redirection whose file token lost its text (the allocator refused the copy) makes the parser
  call \<^verbatim>\<open>strdup(NULL)\<close>: a fault, although a word in any other place without its text is refused with -1.
\<close>

theorem redirect_without_text_faults:
  assumes "tok_type r \<in> {TOKEN_REDIRECT_IN, TOKEN_REDIRECT_OUT, TOKEN_REDIRECT_APPEND}"
    and "tok_type f = TOKEN_WORD" "tok_value f = None"
  shows "parse_tokens (Some (r # f # ts)) (int (length (r # f # ts))) (Some q) as = Inl NullDeref \<and>
    parse_tokens (Some (f # ts)) (int (length (f # ts))) (Some q) as = Inr (-1, Some (init_pipeline\<lparr>command_count := 1\<rparr>), as)"
  using assms by (auto simp: parse_tokens_def set_string_def nat_add_distrib)

theorem redirect_without_text_faults_witness:
  "parse_tokens (Some [\<lparr>tok_type = TOKEN_REDIRECT_IN, tok_value = Some ''<''\<rparr>,
     \<lparr>tok_type = TOKEN_WORD, tok_value = None\<rparr>]) 2 (Some init_pipeline) [] = Inl NullDeref"
  using redirect_without_text_faults [of "\<lparr>tok_type = TOKEN_REDIRECT_IN, tok_value = Some ''<''\<rparr>"
      "\<lparr>tok_type = TOKEN_WORD, tok_value = None\<rparr>" "[]" init_pipeline "[]"] by simp

text \<open>
  A pipe with nothing after it is accepted: the words before the pipe are followed by an empty
  last command, which has no program name.
\<close>

theorem trailing_pipe_accepted:
  assumes "ws \<noteq> []" "length ws \<le> 63" "plenty as" "list_all (\<lambda>t. tok_value t \<noteq> None) toks"
    and "map token_text toks = map (Pair TOKEN_WORD) ws @ [(TOKEN_PIPE, ''|''), (TOKEN_END, ''END'')]"
  shows "\<exists>p as'. parse_tokens (Some toks) (int (length toks)) (Some q) as = Inr (0, Some p, as') \<and>
    abs_pipeline p = [empty_cmd\<lparr>args := ws\<rparr>, empty_cmd]"
proof -
  have "toks \<noteq> []" using assms(5) by auto
  moreover have "spec_parse (map token_text toks) = Some [empty_cmd\<lparr>args := ws\<rparr>, empty_cmd]"
    using read_all_words [of empty_cmd ws] assms(1,2)
    by (simp add: assms(5) spec_parse_read_all empty_cmd_def)
  ultimately show ?thesis using parse_tokens_refines [OF assms(4), of q as] assms(3) by auto
qed

theorem trailing_pipe_accepted_witness:
  "\<exists>p as'. parse_tokens (Some [\<lparr>tok_type = TOKEN_WORD, tok_value = Some ''ls''\<rparr>,
       \<lparr>tok_type = TOKEN_PIPE, tok_value = Some ''|''\<rparr>, \<lparr>tok_type = TOKEN_END, tok_value = Some ''END''\<rparr>])
       3 (Some init_pipeline) [] = Inr (0, Some p, as') \<and> abs_pipeline p = [empty_cmd\<lparr>args := [''ls'']\<rparr>, empty_cmd]"
  using trailing_pipe_accepted [of "[''ls'']" "[]" "[\<lparr>tok_type = TOKEN_WORD, tok_value = Some ''ls''\<rparr>,
       \<lparr>tok_type = TOKEN_PIPE, tok_value = Some ''|''\<rparr>, \<lparr>tok_type = TOKEN_END, tok_value = Some ''END''\<rparr>]" init_pipeline]
  by (simp add: token_text_def)

end
