(* ===== verification/Expansion.thy ===== *)
theory Expansion
  imports Parsing
begin

text \<open>
  Variable expansion: \<^verbatim>\<open>include/expand.h\<close> and \<^verbatim>\<open>src/expand.c\<close>. The result is built in a heap block
  that doubles when it is full; the model keeps the block byte by byte (\<open>None\<close> is a byte
  nobody has written), so that a write outside it would be a fault. \<^verbatim>\<open>getenv\<close> is the argument
  \<open>env\<close>. The theory proves that the block is never overrun and that the result is the
  one-pass substitution \<open>expand_spec\<close>.
\<close>

section \<open>The growing buffer\<close>

record Buf =
  buf_data :: "char option list"
  buf_len :: nat
  buf_cap :: nat

definition write_byte :: "char option list \<Rightarrow> nat \<Rightarrow> char \<Rightarrow> char option list res" where
  "write_byte d i c = (if i < length d then Inr (d[i := Some c]) else Inl OutOfBounds)"

definition grow :: "Buf \<Rightarrow> allocs \<Rightarrow> bool \<times> Buf \<times> allocs" where
  "grow b as =
     (if buf_len b + 1 \<ge> buf_cap b then
        (case malloc_ok as of (ok, as') \<Rightarrow>
           if \<not> ok then (False, b, as')
           else (True, b\<lparr>buf_data := buf_data b @ replicate (buf_cap b * 2 - buf_cap b) None,
                          buf_cap := buf_cap b * 2\<rparr>, as'))
      else (True, b, as))"

definition append_char :: "Buf \<Rightarrow> char \<Rightarrow> allocs \<Rightarrow> (int \<times> Buf \<times> allocs) res" where
  "append_char b c as =
     (case grow b as of (ok, b1, as') \<Rightarrow>
        if \<not> ok then Inr (-1, b1, as')
        else (case write_byte (buf_data b1) (buf_len b1) c of
            Inl f \<Rightarrow> Inl f
          | Inr d \<Rightarrow>
              (case write_byte d (Suc (buf_len b1)) NUL of
                 Inl f \<Rightarrow> Inl f
               | Inr d' \<Rightarrow> Inr (0, b1\<lparr>buf_data := d', buf_len := Suc (buf_len b1)\<rparr>, as'))))"

text \<open>The loop of \<^verbatim>\<open>append_text\<close> over any operation that appends one character.\<close>

fun put_all :: "('b \<Rightarrow> char \<Rightarrow> allocs \<Rightarrow> (int \<times> 'b \<times> allocs) res) \<Rightarrow> 'b \<Rightarrow> string \<Rightarrow> allocs \<Rightarrow>
    (int \<times> 'b \<times> allocs) res" where
  "put_all put b [] as = Inr (0, b, as)"
| "put_all put b (c # cs) as =
     (if c = NUL then Inr (0, b, as)
      else (case put b c as of
          Inl f \<Rightarrow> Inl f
        | Inr (rc, b', as') \<Rightarrow> if rc \<noteq> 0 then Inr (-1, b', as') else put_all put b' cs as'))"

definition append_text :: "Buf \<Rightarrow> string option \<Rightarrow> allocs \<Rightarrow> (int \<times> Buf \<times> allocs) res" where
  "append_text b txt as =
     (case txt of None \<Rightarrow> Inr (0, b, as) | Some s \<Rightarrow> put_all append_char b s as)"

text \<open>The C string stored in a buffer.\<close>

definition buf_string :: "Buf \<Rightarrow> string" where
  "buf_string b = map the (takeWhile (\<lambda>x. x \<noteq> Some NUL) (buf_data b))"

section \<open>Expanding a string\<close>

type_synonym env = "string \<Rightarrow> string option"

definition is_name_start :: "char \<Rightarrow> bool" where
  "is_name_start c \<longleftrightarrow> isalpha c \<or> c = CHR ''_''"

definition is_name_char :: "char \<Rightarrow> bool" where
  "is_name_char c \<longleftrightarrow> isalnum c \<or> c = CHR ''_''"

text \<open>
  Both variable branches: copy the name into a fresh block, look it up, append the value.
  The result says whether the loop goes on.
\<close>

definition append_variable :: "env \<Rightarrow> string \<Rightarrow> Buf \<Rightarrow> allocs \<Rightarrow> (int \<times> Buf \<times> allocs) res" where
  "append_variable env name b as =
     (case malloc_ok as of (ok, as') \<Rightarrow>
        if \<not> ok then Inr (-1, b, as')
        else (case env name of
            None \<Rightarrow> Inr (0, b, as')
          | Some v \<Rightarrow> append_text b (Some v) as'))"

definition brace_end :: "string \<Rightarrow> nat \<Rightarrow> nat" where
  "brace_end inp i = scan_while (\<lambda>c. c \<noteq> NUL \<and> c \<noteq> CHR ''}'') inp (length inp) (i + 2)"

definition name_end :: "string \<Rightarrow> nat \<Rightarrow> nat" where
  "name_end inp i = scan_while is_name_char inp (length inp) (i + 1)"

lemma brace_end_ge: "i + 2 \<le> brace_end inp i"
  unfolding brace_end_def by (rule scan_while_ge)

lemma name_end_ge: "i + 1 \<le> name_end inp i"
  unfolding name_end_def by (rule scan_while_ge)

lemma scan_shrinks: "char_at s i \<noteq> NUL \<Longrightarrow> i < k \<Longrightarrow> length s - k < length s - i"
  by (rule diff_less_mono2) (auto intro: ccontr)

function expand_loop :: "env \<Rightarrow> string \<Rightarrow> nat \<Rightarrow> Buf \<Rightarrow> allocs \<Rightarrow> (Buf option \<times> allocs) res" where
  "expand_loop env inp i b as =
     (if char_at inp i = NUL then Inr (Some b, as)
      else if char_at inp i \<noteq> CHR ''$'' then
        (case append_char b (char_at inp i) as of
           Inl f \<Rightarrow> Inl f
         | Inr (rc, b', as') \<Rightarrow>
             if rc \<noteq> 0 then Inr (None, as') else expand_loop env inp (Suc i) b' as')
      else if char_at inp (i + 1) = CHR ''{'' \<and> char_at inp (brace_end inp i) = CHR ''}'' then
        (case append_variable env (substr inp (i + 2) (brace_end inp i)) b as of
           Inl f \<Rightarrow> Inl f
         | Inr (rc, b', as') \<Rightarrow>
             if rc \<noteq> 0 then Inr (None, as') else expand_loop env inp (Suc (brace_end inp i)) b' as')
      else if is_name_start (char_at inp (i + 1)) then
        (case append_variable env (substr inp (i + 1) (name_end inp i)) b as of
           Inl f \<Rightarrow> Inl f
         | Inr (rc, b', as') \<Rightarrow>
             if rc \<noteq> 0 then Inr (None, as') else expand_loop env inp (name_end inp i) b' as')
      else
        (case append_char b (CHR ''$'') as of
           Inl f \<Rightarrow> Inl f
         | Inr (rc, b', as') \<Rightarrow>
             if rc \<noteq> 0 then Inr (None, as') else expand_loop env inp (Suc i) b' as'))"
  by pat_completeness auto

termination
proof (relation "measure (\<lambda>(env, inp, i, b, as). length inp - i)", goal_cases)
  case 1
  then show ?case by simp
next
  case (3 env inp i)
  then show ?case using brace_end_ge [of i inp] by (auto intro!: scan_shrinks)
next
  case (4 env inp i)
  then show ?case using name_end_ge [of i inp] by (auto intro!: scan_shrinks)
qed (auto intro!: scan_shrinks)

declare expand_loop.simps [simp del]

definition expand_string :: "env \<Rightarrow> string option \<Rightarrow> allocs \<Rightarrow> (string option \<times> allocs) res" where
  "expand_string env inp as =
     (case inp of
        None \<Rightarrow> Inr (None, as)
      | Some s \<Rightarrow>
          (case malloc_ok as of (ok, as1) \<Rightarrow>
             if \<not> ok then Inr (None, as1)
             else (case expand_loop env s 0
                 \<lparr>buf_data = Some NUL # replicate 63 None, buf_len = 0, buf_cap = 64\<rparr> as1 of
                 Inl f \<Rightarrow> Inl f
               | Inr (r, as') \<Rightarrow> Inr (map_option buf_string r, as'))))"

section \<open>Expanding commands and pipelines\<close>

function expand_args :: "env \<Rightarrow> nat \<Rightarrow> Command \<Rightarrow> allocs \<Rightarrow> (int \<times> Command \<times> allocs) res" where
  "expand_args env i cmd as =
     (if i < cmd_argc cmd then
        (case expand_string env (cmd_argv cmd ! i) as of
           Inl f \<Rightarrow> Inl f
         | Inr (None, as') \<Rightarrow> Inr (-1, cmd, as')
         | Inr (Some s, as') \<Rightarrow>
             expand_args env (Suc i) (cmd\<lparr>cmd_argv := (cmd_argv cmd)[i := Some s]\<rparr>) as')
      else Inr (0, cmd, as))"
  by pat_completeness auto
termination
  by (relation "measure (\<lambda>(env, i, cmd, as). cmd_argc cmd - i)") auto

declare expand_args.simps [simp del]

text \<open>Expanding a file name in place, when there is one.\<close>

definition expand_file :: "env \<Rightarrow> string option \<Rightarrow> allocs \<Rightarrow> (int \<times> string option \<times> allocs) res" where
  "expand_file env f as =
     (case f of
        None \<Rightarrow> Inr (0, None, as)
      | Some _ \<Rightarrow>
          (case expand_string env f as of
             Inl e \<Rightarrow> Inl e
           | Inr (None, as') \<Rightarrow> Inr (-1, f, as')
           | Inr (Some s, as') \<Rightarrow> Inr (0, Some s, as')))"

definition expand_command :: "env \<Rightarrow> Command option \<Rightarrow> allocs \<Rightarrow> (int \<times> Command option \<times> allocs) res" where
  "expand_command env c as =
     (case c of
        None \<Rightarrow> Inr (-1, None, as)
      | Some cmd \<Rightarrow>
          (case expand_args env 0 cmd as of
             Inl e \<Rightarrow> Inl e
           | Inr (rc, cmd1, as1) \<Rightarrow>
               if rc \<noteq> 0 then Inr (-1, Some cmd1, as1)
               else (case expand_file env (cmd_input cmd1) as1 of
                   Inl e \<Rightarrow> Inl e
                 | Inr (rc, f, as2) \<Rightarrow>
                     let cmd2 = cmd1\<lparr>cmd_input := f\<rparr> in
                     if rc \<noteq> 0 then Inr (-1, Some cmd2, as2)
                     else (case expand_file env (cmd_output cmd2) as2 of
                         Inl e \<Rightarrow> Inl e
                       | Inr (rc, g, as3) \<Rightarrow>
                           let cmd3 = cmd2\<lparr>cmd_output := g\<rparr> in
                           if rc \<noteq> 0 then Inr (-1, Some cmd3, as3)
                           else Inr (0, Some cmd3, as3)))))"

function expand_commands :: "env \<Rightarrow> nat \<Rightarrow> Pipeline \<Rightarrow> allocs \<Rightarrow> (int \<times> Pipeline \<times> allocs) res" where
  "expand_commands env i p as =
     (if i < command_count p then
        (case expand_command env (Some (commands p ! i)) as of
           Inl e \<Rightarrow> Inl e
         | Inr (rc, c, as') \<Rightarrow>
             let p' = (case c of None \<Rightarrow> p | Some cmd \<Rightarrow> set_command p i cmd) in
             if rc \<noteq> 0 then Inr (-1, p', as')
             else expand_commands env (Suc i) p' as')
      else Inr (0, p, as))"
  by pat_completeness auto
termination
  by (relation "measure (\<lambda>(env, i, p, as). command_count p - i)")
     (auto simp: set_command_def split: option.splits)

declare expand_commands.simps [simp del]

definition expand_pipeline :: "env \<Rightarrow> Pipeline option \<Rightarrow> allocs \<Rightarrow>
    (int \<times> Pipeline option \<times> allocs) res" where
  "expand_pipeline env pipeline as =
     (case pipeline of
        None \<Rightarrow> Inr (-1, None, as)
      | Some p \<Rightarrow>
          (case expand_commands env 0 p as of
             Inl e \<Rightarrow> Inl e
           | Inr (rc, p', as') \<Rightarrow> Inr (rc, Some p', as')))"

section \<open>Specification: one-pass substitution\<close>

definition value_of :: "env \<Rightarrow> string \<Rightarrow> string" where
  "value_of env name = (case env name of Some v \<Rightarrow> v | None \<Rightarrow> [])"

function expand_spec :: "env \<Rightarrow> string \<Rightarrow> string" where
  "expand_spec env [] = []"
| "expand_spec env (c # cs) =
     (if c \<noteq> CHR ''$'' then c # expand_spec env cs
      else if cs \<noteq> [] \<and> hd cs = CHR ''{'' \<and> CHR ''}'' \<in> set (tl cs) then
        value_of env (takeWhile (\<lambda>d. d \<noteq> CHR ''}'') (tl cs)) @
        expand_spec env (tl (dropWhile (\<lambda>d. d \<noteq> CHR ''}'') (tl cs)))
      else if cs \<noteq> [] \<and> is_name_start (hd cs) then
        value_of env (takeWhile is_name_char cs) @ expand_spec env (dropWhile is_name_char cs)
      else CHR ''$'' # expand_spec env cs)"
  by pat_completeness auto
termination
proof (relation "measure (\<lambda>(env, s). length s)", goal_cases)
  case (3 env c cs)
  then show ?case
    using dropWhile_length_le [of "\<lambda>d. d \<noteq> CHR ''}''" "tl cs"] by (auto simp: le_imp_less_Suc)
next
  case (4 env c cs)
  then show ?case using dropWhile_length_le [of is_name_char cs] by (simp add: le_imp_less_Suc)
qed auto

lemma expand_spec_plain: "CHR ''$'' \<notin> set s \<Longrightarrow> expand_spec env s = s"
  by (induction s) auto

section \<open>The buffer never overruns\<close>

definition buf_inv :: "Buf \<Rightarrow> string \<Rightarrow> bool" where
  "buf_inv b s \<longleftrightarrow> length (buf_data b) = buf_cap b \<and> buf_len b = length s \<and> buf_len b < buf_cap b \<and>
     take (Suc (buf_len b)) (buf_data b) = map Some (s @ [NUL])"

text \<open>What appending promises, for one character and for a text.\<close>

definition appended :: "('b \<Rightarrow> string \<Rightarrow> bool) \<Rightarrow> string \<Rightarrow> allocs \<Rightarrow> (int \<times> 'b \<times> allocs) res \<Rightarrow> bool" where
  "appended holds s as r \<longleftrightarrow> (\<exists>rc b as'. r = Inr (rc, b, as') \<and> rc \<in> {0, -1} \<and>
     (rc = 0 \<longrightarrow> holds b s) \<and> (plenty as \<longrightarrow> rc = 0 \<and> plenty as'))"

locale char_sink =
  fixes put :: "'b \<Rightarrow> char \<Rightarrow> allocs \<Rightarrow> (int \<times> 'b \<times> allocs) res"
    and holds :: "'b \<Rightarrow> string \<Rightarrow> bool"
  assumes put: "holds b s \<Longrightarrow> appended holds (s @ [c]) as (put b c as)"
begin

lemma put_all_appended:
  "holds b s \<Longrightarrow> NUL \<notin> set t \<Longrightarrow> appended holds (s @ t) as (put_all put b t as)"
proof (induction t arbitrary: b s as)
  case Nil
  then show ?case by (simp add: appended_def)
next
  case (Cons c t)
  from put [OF Cons.prems(1), of c as] obtain rc b' as' where
    r: "put b c as = Inr (rc, b', as')" "rc \<in> {0, -1}" "rc = 0 \<longrightarrow> holds b' (s @ [c])"
      "plenty as \<longrightarrow> rc = 0 \<and> plenty as'" by (auto simp: appended_def)
  show ?case
  proof (cases "rc = 0")
    case True
    with r Cons.IH [of b' "s @ [c]" as'] Cons.prems
    have "appended holds (s @ c # t) as' (put_all put b' t as')" by simp
    with True r Cons.prems show ?thesis by (auto simp: appended_def)
  next
    case False
    with r Cons.prems show ?thesis by (auto simp: appended_def)
  qed
qed

end

lemma grow_cases:
  assumes "buf_inv b s"
  obtains (refused) as' where "grow b as = (False, b, as')" "\<not> plenty as"
  | (ok) b' as' where "grow b as = (True, b', as')" "buf_inv b' s" "Suc (buf_len b') < buf_cap b'"
      "plenty as \<longrightarrow> plenty as'"
proof (cases "buf_len b + 1 \<ge> buf_cap b")
  case False
  with assms that(2) [of b as] show ?thesis by (simp add: grow_def)
next
  case True
  obtain got as' where m: "malloc_ok as = (got, as')" by force
  show ?thesis
  proof (cases got)
    case False
    with True m malloc_ok_plenty [of as] that(1) [of as'] show ?thesis by (auto simp: grow_def)
  next
    case True': True
    let ?b = "b\<lparr>buf_data := buf_data b @ replicate (buf_cap b * 2 - buf_cap b) None,
      buf_cap := buf_cap b * 2\<rparr>"
    have "buf_inv ?b s" "Suc (buf_len ?b) < buf_cap ?b"
      using assms True by (auto simp: buf_inv_def)
    with True True' m malloc_ok_plenty [of as] that(2) [of ?b as'] show ?thesis
      by (simp add: grow_def)
  qed
qed

lemma append_char_appended:
  assumes "buf_inv b s"
  shows "appended buf_inv (s @ [c]) as (append_char b c as)"
  using assms
proof (cases rule: grow_cases [where as = as])
  case (refused as')
  then show ?thesis by (simp add: append_char_def appended_def)
next
  case (ok b' as')
  let ?d = "(buf_data b')[buf_len b' := Some c, Suc (buf_len b') := Some NUL]"
  have len: "buf_len b' = length s" "length (buf_data b') = buf_cap b'"
    and pre: "take (length s) (buf_data b') = map Some s"
    using ok(2) by (auto simp: buf_inv_def take_Suc_conv_app_nth)
  then have "take (Suc (Suc (length s))) ?d = map Some (s @ [c, NUL])"
    using ok(3) by (simp add: take_Suc_conv_app_nth)
  with ok len show ?thesis
    by (auto simp: append_char_def appended_def write_byte_def buf_inv_def)
qed

interpretation expand_buffer: char_sink append_char buf_inv
  by unfold_locales (rule append_char_appended)

lemma buf_string_inv:
  assumes "buf_inv b s" and "NUL \<notin> set s"
  shows "buf_string b = s"
proof -
  have "take (Suc (buf_len b)) (buf_data b) = map Some s @ [Some NUL]"
    using assms(1) unfolding buf_inv_def by (metis list.simps(8) list.simps(9) map_append)
  then have "buf_data b = (map Some s @ [Some NUL]) @ drop (Suc (buf_len b)) (buf_data b)"
    by (metis append_take_drop_id)
  then obtain xs where "buf_data b = map Some s @ Some NUL # xs" by simp
  moreover have "takeWhile (\<lambda>x. x \<noteq> Some NUL) (map Some s @ Some NUL # xs) = map Some s"
    using assms(2) by (auto simp: takeWhile_append)
  ultimately show ?thesis by (simp add: buf_string_def comp_def)
qed

section \<open>Expansion implements the specification\<close>

definition env_ok :: "env \<Rightarrow> bool" where
  "env_ok env \<longleftrightarrow> (\<forall>n v. env n = Some v \<longrightarrow> NUL \<notin> set v)"

lemma append_variable_appended:
  assumes "buf_inv b s" and "env_ok env"
  shows "appended buf_inv (s @ value_of env name) as (append_variable env name b as)"
proof -
  obtain got as' where m: "malloc_ok as = (got, as')" by force
  have pl: "plenty as \<Longrightarrow> got \<and> plenty as'" using malloc_ok_plenty [of as] m by simp
  show ?thesis
  proof (cases "got \<and> env name \<noteq> None")
    case True
    then obtain v where v: "env name = Some v" by auto
    with assms(2) have "NUL \<notin> set v" by (auto simp: env_ok_def)
    from expand_buffer.put_all_appended [OF assms(1) this, of as'] True v m pl show ?thesis
      by (auto simp: append_variable_def append_text_def value_of_def appended_def)
  next
    case False
    with m pl assms(1) show ?thesis
      by (auto simp: append_variable_def value_of_def appended_def)
  qed
qed

text \<open>Both positions the loop jumps to, in terms of the suffix.\<close>

lemma takeWhile_no_NUL:
  assumes "NUL \<notin> set xs"
  shows "takeWhile (\<lambda>c. c \<noteq> NUL \<and> P c) xs = takeWhile P xs"
    and "dropWhile (\<lambda>c. c \<noteq> NUL \<and> P c) xs = dropWhile P xs"
  using assms by (induction xs) auto

lemma brace_suffix:
  assumes "NUL \<notin> set inp" and "i + 2 \<le> length inp"
  shows "substr inp (i + 2) (brace_end inp i) = takeWhile (\<lambda>d. d \<noteq> CHR ''}'') (drop (i + 2) inp)"
    and "drop (brace_end inp i) inp = dropWhile (\<lambda>d. d \<noteq> CHR ''}'') (drop (i + 2) inp)"
    and "char_at inp (brace_end inp i) = CHR ''}'' \<longleftrightarrow> CHR ''}'' \<in> set (drop (i + 2) inp)"
proof -
  have no: "NUL \<notin> set (drop (i + 2) inp)" using assms(1) by (auto dest: in_set_dropD)
  show "substr inp (i + 2) (brace_end inp i) = takeWhile (\<lambda>d. d \<noteq> CHR ''}'') (drop (i + 2) inp)"
    using substr_scan_while [of "length inp" inp "i + 2"] takeWhile_no_NUL(1) [OF no]
    by (simp add: brace_end_def)
  show d: "drop (brace_end inp i) inp = dropWhile (\<lambda>d. d \<noteq> CHR ''}'') (drop (i + 2) inp)"
    using drop_scan_while [of "length inp" inp _ "i + 2"] takeWhile_no_NUL(2) [OF no]
    by (simp add: brace_end_def)
  have "char_at inp (brace_end inp i) = char_at (drop (brace_end inp i) inp) 0"
    by (simp add: char_at_drop)
  then have "char_at inp (brace_end inp i) =
      char_at (dropWhile (\<lambda>d. d \<noteq> CHR ''}'') (drop (i + 2) inp)) 0" by (simp only: d)
  moreover have "char_at (dropWhile (\<lambda>d. d \<noteq> CHR ''}'') xs) 0 = CHR ''}'' \<longleftrightarrow> CHR ''}'' \<in> set xs" for xs
    by (induction xs) auto
  ultimately show "char_at inp (brace_end inp i) = CHR ''}'' \<longleftrightarrow> CHR ''}'' \<in> set (drop (i + 2) inp)"
    by simp
qed

lemma name_suffix:
  assumes "i + 1 \<le> length inp"
  shows "substr inp (i + 1) (name_end inp i) = takeWhile is_name_char (drop (i + 1) inp)"
    and "drop (name_end inp i) inp = dropWhile is_name_char (drop (i + 1) inp)"
  using substr_scan_while [of "length inp" inp "i + 1"] drop_scan_while [of "length inp" inp _ "i + 1"]
  by (simp_all add: name_end_def)

text \<open>What the loop promises from a state where the buffer holds \<open>s\<close>.\<close>

definition expanded :: "string \<Rightarrow> allocs \<Rightarrow> (Buf option \<times> allocs) res \<Rightarrow> bool" where
  "expanded s as r \<longleftrightarrow> (\<exists>o_b as'. r = Inr (o_b, as') \<and> (\<forall>b. o_b = Some b \<longrightarrow> buf_inv b s) \<and>
     (plenty as \<longrightarrow> o_b \<noteq> None \<and> plenty as'))"

lemma expanded_step:
  assumes "appended buf_inv (s @ v) as r"
    and "\<And>b as'. buf_inv b (s @ v) \<Longrightarrow> expanded ((s @ v) @ t) as' (cont b as')"
  shows "expanded ((s @ v) @ t) as (case r of Inl f \<Rightarrow> Inl f
     | Inr (rc, b', as') \<Rightarrow> if rc \<noteq> 0 then Inr (None, as') else cont b' as')"
proof -
  from assms(1) obtain rc b as' where r: "r = Inr (rc, b, as')" "rc = 0 \<longrightarrow> buf_inv b (s @ v)"
    "plenty as \<longrightarrow> rc = 0 \<and> plenty as'" by (auto simp: appended_def)
  show ?thesis
  proof (cases "rc = 0")
    case True
    with r assms(2) [of b as'] show ?thesis by (auto simp: expanded_def)
  next
    case False
    with r show ?thesis by (auto simp: expanded_def)
  qed
qed

lemma hd_suffix:
  assumes "i < length inp"
  shows "drop i inp = inp ! i # drop (Suc i) inp"
    and "char_at inp (i + 1) \<noteq> NUL \<Longrightarrow> drop (Suc i) inp = char_at inp (i + 1) # drop (i + 2) inp"
    and "char_at inp (i + 1) = NUL \<Longrightarrow> NUL \<notin> set inp \<Longrightarrow> drop (Suc i) inp = []"
  using assms by (auto simp: char_at_def Cons_nth_drop_Suc split: if_splits dest: nth_mem)

lemma brace_condition:
  assumes "NUL \<notin> set inp" and "i < length inp"
  defines "r \<equiv> drop (Suc i) inp"
  shows "char_at inp (i + 1) = CHR ''{'' \<and> char_at inp (brace_end inp i) = CHR ''}'' \<longleftrightarrow>
    r \<noteq> [] \<and> hd r = CHR ''{'' \<and> CHR ''}'' \<in> set (tl r)"
proof (cases "char_at inp (i + 1) = NUL")
  case True
  with assms hd_suffix(3) [OF assms(2) True] show ?thesis by simp
next
  case False
  then have "i + 2 \<le> length inp" by (auto simp: char_at_def split: if_splits)
  with brace_suffix(3) [OF assms(1)] hd_suffix(2) [OF assms(2) False] show ?thesis
    by (auto simp: r_def)
qed

lemma name_condition:
  assumes "NUL \<notin> set inp" and "i < length inp"
  shows "is_name_start (char_at inp (i + 1)) \<longleftrightarrow>
    drop (Suc i) inp \<noteq> [] \<and> is_name_start (hd (drop (Suc i) inp))"
proof (cases "char_at inp (i + 1) = NUL")
  case True
  with assms hd_suffix(3) [OF assms(2) True] show ?thesis by (simp add: is_name_start_def)
next
  case False
  with hd_suffix(2) [OF assms(2) False] show ?thesis by simp
qed

lemma expand_loop_dollar:
  assumes inv: "buf_inv b s" and no: "NUL \<notin> set inp" and env: "env_ok env"
    and i: "i < length inp" "inp ! i = CHR ''$''"
    and IH: "\<And>s' k b' as'. buf_inv b' s' \<Longrightarrow> i < k \<Longrightarrow> k \<le> length inp \<Longrightarrow>
      expanded (s' @ expand_spec env (drop k inp)) as' (expand_loop env inp k b' as')"
  shows "expanded (s @ expand_spec env (drop i inp)) as (expand_loop env inp i b as)"
proof -
  have go: "expanded ((s @ v) @ expand_spec env (drop k inp)) as
      (case r of Inl f \<Rightarrow> Inl f | Inr (rc, b', as') \<Rightarrow>
         if rc \<noteq> 0 then Inr (None, as') else expand_loop env inp k b' as')"
    if "appended buf_inv (s @ v) as r" "i < k" "k \<le> length inp" for v k r
    using expanded_step [OF that(1), where cont = "expand_loop env inp k"] IH [OF _ that(2,3)] by blast
  let ?r = "drop (Suc i) inp"
  have c: "char_at inp i = CHR ''$''" using i by (simp add: char_at_def)
  note suf = hd_suffix [OF i(1)]
  note conds = brace_condition [OF no i(1)] name_condition [OF no i(1)]
  define br where br: "br \<longleftrightarrow> char_at inp (i + 1) = CHR ''{'' \<and> char_at inp (brace_end inp i) = CHR ''}''"
  let ?name = "is_name_start (char_at inp (i + 1))"
  have spec: "expand_spec env (drop i inp) =
     (if br then value_of env (takeWhile (\<lambda>d. d \<noteq> CHR ''}'') (tl ?r)) @
        expand_spec env (tl (dropWhile (\<lambda>d. d \<noteq> CHR ''}'') (tl ?r)))
      else if ?name then
        value_of env (takeWhile is_name_char ?r) @ expand_spec env (dropWhile is_name_char ?r)
      else CHR ''$'' # expand_spec env ?r)"
    unfolding br conds suf(1) i(2) by simp
  note loop = expand_loop.simps [of env inp i b as, unfolded c, folded br]
  consider (brace) br | (name) "\<not> br" "?name" | (literal) "\<not> br" "\<not> ?name" by blast
  then show ?thesis
  proof cases
    case brace
    then have len: "i + 2 \<le> length inp" "brace_end inp i < length inp"
      by (auto simp: br char_at_def split: if_splits)
    have "tl ?r = drop (i + 2) inp" "drop (Suc (brace_end inp i)) inp = tl (drop (brace_end inp i) inp)"
      by (simp_all add: drop_Suc tl_drop)
    with go [OF append_variable_appended [OF inv env], of "Suc (brace_end inp i)"]
      brace brace_suffix [OF no len(1)] len brace_end_ge [of i inp]
    show ?thesis by (simp add: spec loop)
  next
    case name
    have "i + 1 \<le> length inp" "name_end inp i \<le> length inp"
      using i scan_while_le [of "i + 1" "length inp"] by (auto simp: name_end_def)
    with go [OF append_variable_appended [OF inv env], of "name_end inp i"]
      name name_suffix [of i inp] name_end_ge [of i inp]
    show ?thesis unfolding spec loop by simp
  next
    case literal
    with go [OF append_char_appended [OF inv], of "Suc i"] i
    show ?thesis unfolding spec loop by simp
  qed
qed

lemma expand_loop_expands:
  "buf_inv b s \<Longrightarrow> NUL \<notin> set inp \<Longrightarrow> env_ok env \<Longrightarrow> i \<le> length inp \<Longrightarrow>
   expanded (s @ expand_spec env (drop i inp)) as (expand_loop env inp i b as)"
proof (induction "length inp - i" arbitrary: i b s as rule: less_induct)
  case less
  have IH: "expanded (s' @ expand_spec env (drop k inp)) as' (expand_loop env inp k b' as')"
    if "buf_inv b' s'" "i < k" "k \<le> length inp" for s' k b' as'
    using less.hyps [of k b' s' as'] less.prems that by simp
  consider (fin) "i = length inp" | (dollar) "i < length inp" "inp ! i = CHR ''$''"
    | (plain) "i < length inp" "inp ! i \<noteq> CHR ''$''" using less.prems by linarith
  then show ?case
  proof cases
    case fin
    with less.prems have "expand_loop env inp i b as = Inr (Some b, as)"
      by (subst expand_loop.simps) simp
    with fin less.prems show ?thesis by (simp add: expanded_def)
  next
    case dollar
    from expand_loop_dollar [OF less.prems(1-3) dollar IH] show ?thesis .
  next
    case plain
    have "inp ! i \<noteq> NUL" using plain(1) less.prems(2) by (metis nth_mem)
    moreover have "expanded ((s @ [inp ! i]) @ expand_spec env (drop (Suc i) inp)) as
        (case append_char b (inp ! i) as of Inl f \<Rightarrow> Inl f | Inr (rc, b', as') \<Rightarrow>
           if rc \<noteq> 0 then Inr (None, as') else expand_loop env inp (Suc i) b' as')"
      using plain(1) by (intro expanded_step [OF append_char_appended [OF less.prems(1)]] IH) simp_all
    ultimately show ?thesis
      using plain hd_suffix(1) [OF plain(1)]
      by (simp add: expand_loop.simps [of env inp i b as] char_at_def)
  qed
qed

lemma expand_spec_no_NUL: "NUL \<notin> set s \<Longrightarrow> env_ok env \<Longrightarrow> NUL \<notin> set (expand_spec env s)"
proof (induction env s rule: expand_spec.induct)
  case (2 env c cs)
  have val: "NUL \<notin> set (value_of env n)" for n
    using "2.prems"(2) by (auto simp: value_of_def env_ok_def split: option.splits)
  have "NUL \<notin> set (tl (dropWhile P (tl cs)))" "NUL \<notin> set (dropWhile P cs)" for P
    using "2.prems"(1) by (auto dest: set_tlD set_dropWhileD)
  with 2 val show ?case by auto
qed simp

lemma expand_string_expands:
  assumes "NUL \<notin> set s" and "env_ok env"
  obtains r as' where "expand_string env (Some s) as = Inr (r, as')"
    "r = None \<or> r = Some (expand_spec env s)"
    "plenty as \<Longrightarrow> r = Some (expand_spec env s) \<and> plenty as'"
proof -
  let ?b = "\<lparr>buf_data = Some NUL # replicate 63 None, buf_len = 0, buf_cap = 64\<rparr>"
  obtain got as1 where m: "malloc_ok as = (got, as1)" by force
  have pl: "plenty as \<Longrightarrow> got \<and> plenty as1" using malloc_ok_plenty [of as] m by simp
  have "buf_inv ?b []" by (simp add: buf_inv_def)
  from expand_loop_expands [OF this assms, of 0 as1] obtain o_b as' where
    run: "expand_loop env s 0 ?b as1 = Inr (o_b, as')" "\<And>b. o_b = Some b \<Longrightarrow> buf_inv b (expand_spec env s)"
      "plenty as1 \<Longrightarrow> o_b \<noteq> None \<and> plenty as'" by (auto simp: expanded_def)
  have "map_option buf_string o_b \<in> {None, Some (expand_spec env s)}"
    using run(2) buf_string_inv expand_spec_no_NUL [OF assms] by (cases o_b) auto
  with m pl run show thesis
    by (cases got) (auto intro!: that simp: expand_string_def)
qed

text \<open>What expansion does to a command, and the strings a command holds.\<close>

definition expand_acommand :: "env \<Rightarrow> acommand \<Rightarrow> acommand" where
  "expand_acommand env c = c\<lparr>args := map (expand_spec env) (args c),
     infile := map_option (expand_spec env) (infile c),
     outfile := map_option (map_prod (expand_spec env) id) (outfile c)\<rparr>"

definition cmd_strings :: "acommand \<Rightarrow> string set" where
  "cmd_strings c = set (args c) \<union> set_option (infile c) \<union> fst ` set_option (outfile c)"

definition clean :: "acommand \<Rightarrow> bool" where
  "clean c \<longleftrightarrow> (\<forall>s \<in> cmd_strings c. NUL \<notin> set s)"

lemma expand_args_result:
  assumes "env_ok env" "command_wf cmd" "i \<le> cmd_argc cmd"
    and "\<And>k s. i \<le> k \<Longrightarrow> k < cmd_argc cmd \<Longrightarrow> cmd_argv cmd ! k = Some s \<Longrightarrow> NUL \<notin> set s"
  shows "\<exists>rc cmd' as'. expand_args env i cmd as = Inr (rc, cmd', as') \<and> command_wf cmd' \<and>
    rc \<in> {0, -1} \<and> (plenty as \<longrightarrow> rc = 0 \<and> plenty as') \<and>
    (rc = 0 \<longrightarrow> cmd' = cmd\<lparr>cmd_argv := take i (cmd_argv cmd) @
       map (map_option (expand_spec env)) (drop i (cmd_argv cmd))\<rparr>)"
  using assms
proof (induction "cmd_argc cmd - i" arbitrary: i cmd as)
  case 0
  then have i: "i = cmd_argc cmd" by simp
  have "map (map_option (expand_spec env)) (drop i (cmd_argv cmd)) = drop i (cmd_argv cmd)"
    using "0.prems" i by (intro map_idI) (auto simp: command_wf_def list_all_iff)
  with 0 i show ?case by (simp add: expand_args.simps [of env "cmd_argc cmd"])
next
  case (Suc n)
  then have i: "i < cmd_argc cmd" by simp
  then obtain s where s: "cmd_argv cmd ! i = Some s"
    using Suc.prems(2) by (fastforce simp: command_wf_nth)
  have "NUL \<notin> set s" using Suc.prems(4) [OF order_refl i s] .
  from expand_string_expands [OF this Suc.prems(1)] obtain r as1 where
    r: "expand_string env (Some s) as = Inr (r, as1)" "r = None \<or> r = Some (expand_spec env s)"
      "plenty as \<Longrightarrow> r = Some (expand_spec env s) \<and> plenty as1" by metis
  show ?case
  proof (cases r)
    case None
    with i s r Suc.prems(2) show ?thesis by (auto simp: expand_args.simps [of env i])
  next
    case (Some t)
    let ?c = "cmd\<lparr>cmd_argv := (cmd_argv cmd)[i := Some t]\<rparr>"
    have len: "i < length (cmd_argv cmd)" using i Suc.prems(2) by (simp add: command_wf_nth)
    have "command_wf ?c" using Suc.prems(2) i by (auto simp: command_wf_nth nth_list_update)
    moreover have "take (Suc i) (cmd_argv ?c) = take i (cmd_argv cmd) @ [Some t]"
      using len by (simp add: take_Suc_conv_app_nth)
    moreover have "drop i (cmd_argv cmd) = Some s # drop (Suc i) (cmd_argv cmd)"
      using s len by (metis Cons_nth_drop_Suc)
    moreover have "n = cmd_argc ?c - Suc i" using Suc.hyps(2) by simp
    moreover have "NUL \<notin> set s" if "Suc i \<le> k" "k < cmd_argc ?c" "cmd_argv ?c ! k = Some s" for k s
      using Suc.prems(4) [of k s] that by simp
    ultimately show ?thesis
      using Suc.hyps(1) [of ?c "Suc i" as1] Suc.prems(1) i s r Some
      by (auto simp: expand_args.simps [of env i cmd])
  qed
qed

lemma expand_file_result:
  assumes "env_ok env" and "\<And>s. f = Some s \<Longrightarrow> NUL \<notin> set s"
  obtains rc g as' where "expand_file env f as = Inr (rc, g, as')" "rc \<in> {0, -1}"
    "rc = 0 \<Longrightarrow> g = map_option (expand_spec env) f" "plenty as \<Longrightarrow> rc = 0 \<and> plenty as'"
proof (cases f)
  case None
  with that show thesis by (simp add: expand_file_def)
next
  case (Some s)
  from expand_string_expands [OF assms(2) [OF Some] assms(1)] obtain r as' where
    "expand_string env (Some s) as = Inr (r, as')" "r = None \<or> r = Some (expand_spec env s)"
    "plenty as \<Longrightarrow> r = Some (expand_spec env s) \<and> plenty as'" by metis
  with Some show thesis
    by (cases r) (auto intro!: that simp: expand_file_def)
qed

text \<open>What expanding a command promises.\<close>

definition expands_command :: "env \<Rightarrow> Command \<Rightarrow> allocs \<Rightarrow> (int \<times> Command option \<times> allocs) res \<Rightarrow> bool" where
  "expands_command env cmd as r \<longleftrightarrow> (\<exists>rc cmd' as'. r = Inr (rc, Some cmd', as') \<and> command_wf cmd' \<and>
     rc \<in> {0, -1} \<and> (plenty as \<longrightarrow> rc = 0 \<and> plenty as') \<and>
     (rc = 0 \<longrightarrow> abs_command cmd' = expand_acommand env (abs_command cmd)))"

lemma expand_command_expands:
  assumes env: "env_ok env" and wf: "command_wf cmd" and cl: "clean (abs_command cmd)"
  shows "expands_command env cmd as (expand_command env (Some cmd) as)"
proof -
  have "NUL \<notin> set s" if "k < cmd_argc cmd" "cmd_argv cmd ! k = Some s" for k s
  proof -
    have "s \<in> set (args (abs_command cmd))"
      using that wf by (force simp: abs_command_def command_wf_nth in_set_conv_nth)
    with cl show ?thesis by (auto simp: clean_def cmd_strings_def)
  qed
  with expand_args_result [OF env wf, of 0 as] obtain rc1 cmd1 as1 where
    a: "expand_args env 0 cmd as = Inr (rc1, cmd1, as1)" "command_wf cmd1" "rc1 \<in> {0, -1}"
      "plenty as \<longrightarrow> rc1 = 0 \<and> plenty as1"
      "rc1 = 0 \<longrightarrow> cmd1 = cmd\<lparr>cmd_argv := map (map_option (expand_spec env)) (cmd_argv cmd)\<rparr>"
    by auto
  show ?thesis
  proof (cases "rc1 = 0")
    case False
    with a show ?thesis by (auto simp: expands_command_def expand_command_def)
  next
    case True
    with a have c1: "cmd1 = cmd\<lparr>cmd_argv := map (map_option (expand_spec env)) (cmd_argv cmd)\<rparr>" by simp
    have files: "\<And>s. cmd_input cmd = Some s \<Longrightarrow> NUL \<notin> set s" "\<And>s. cmd_output cmd = Some s \<Longrightarrow> NUL \<notin> set s"
      using cl by (auto simp: clean_def cmd_strings_def abs_command_def)
    obtain rc2 f as2 where f: "expand_file env (cmd_input cmd) as1 = Inr (rc2, f, as2)" "rc2 \<in> {0, -1}"
      "rc2 = 0 \<Longrightarrow> f = map_option (expand_spec env) (cmd_input cmd)"
      "plenty as1 \<Longrightarrow> rc2 = 0 \<and> plenty as2"
      using expand_file_result [OF env files(1)] by metis
    obtain rc3 g as3 where g: "expand_file env (cmd_output cmd) as2 = Inr (rc3, g, as3)" "rc3 \<in> {0, -1}"
      "rc3 = 0 \<Longrightarrow> g = map_option (expand_spec env) (cmd_output cmd)"
      "plenty as2 \<Longrightarrow> rc3 = 0 \<and> plenty as3"
      using expand_file_result [OF env files(2)] by metis
    have argv: "map the (take n (map (map_option e) xs)) = map e (map the (take n xs))"
      if "list_all (\<lambda>a. a \<noteq> None) (take n xs)" for n e and xs :: "string option list"
      using that by (auto simp: take_map list_all_iff)
    have "expand_command env (Some cmd) as =
        (if rc2 \<noteq> 0 then Inr (-1, Some (cmd1\<lparr>cmd_input := f\<rparr>), as2)
         else Inr (if rc3 \<noteq> 0 then -1 else 0, Some (cmd1\<lparr>cmd_input := f, cmd_output := g\<rparr>), as3))"
      using a(1) True f(1) g(1) by (simp add: expand_command_def Let_def c1)
    moreover have "command_wf (cmd1\<lparr>cmd_input := f\<rparr>)" "command_wf (cmd1\<lparr>cmd_input := f, cmd_output := g\<rparr>)"
      using a(2) by (simp_all add: command_wf_def)
    moreover have "rc2 = 0 \<Longrightarrow> rc3 = 0 \<Longrightarrow>
        abs_command (cmd1\<lparr>cmd_input := f, cmd_output := g\<rparr>) = expand_acommand env (abs_command cmd)"
      using wf f(3) g(3) argv [of "cmd_argc cmd" "cmd_argv cmd"]
      by (auto simp: abs_command_def expand_acommand_def c1 command_wf_def option.map_comp comp_def)
    ultimately show ?thesis
      using a(4) f(4) g(4) by (auto simp: expands_command_def)
  qed
qed

lemma pipeline_wf_set:
  assumes "pipeline_wf p" "i < command_count p" "command_wf cmd"
  shows "pipeline_wf (set_command p i cmd)"
    and "abs_pipeline (set_command p i cmd) = (abs_pipeline p)[i := abs_command cmd]"
  using assms
  by (auto simp: pipeline_wf_def set_command_def abs_pipeline_def list_all_length nth_list_update
        take_update_swap map_update)

lemma abs_pipeline_nth:
  assumes "pipeline_wf p" "i < command_count p"
  shows "abs_pipeline p ! i = abs_command (commands p ! i)" "command_wf (commands p ! i)"
    "length (abs_pipeline p) = command_count p"
  using assms by (auto simp: pipeline_wf_def abs_pipeline_def list_all_length)

lemma expand_commands_result:
  assumes "env_ok env" "pipeline_wf p" "i \<le> command_count p" "list_all clean (drop i (abs_pipeline p))"
  shows "\<exists>rc p' as'. expand_commands env i p as = Inr (rc, p', as') \<and> pipeline_wf p' \<and>
    rc \<in> {0, -1} \<and> (plenty as \<longrightarrow> rc = 0 \<and> plenty as') \<and>
    (rc = 0 \<longrightarrow> abs_pipeline p' =
       take i (abs_pipeline p) @ map (expand_acommand env) (drop i (abs_pipeline p)))"
  using assms
proof (induction "command_count p - i" arbitrary: i p as)
  case 0
  then have "i = command_count p" by simp
  moreover have "length (abs_pipeline p) = command_count p"
    using "0.prems"(2) by (simp add: abs_pipeline_def pipeline_wf_def)
  ultimately show ?case
    using 0 by (simp add: expand_commands.simps [of env "command_count p"])
next
  case (Suc n)
  then have i: "i < command_count p" by simp
  note nth = abs_pipeline_nth [OF Suc.prems(2) i]
  have suf: "drop i (abs_pipeline p) = abs_pipeline p ! i # drop (Suc i) (abs_pipeline p)"
    using nth(3) i by (simp add: Cons_nth_drop_Suc)
  have "clean (abs_command (commands p ! i))" using Suc.prems(4) suf nth(1) by simp
  from expand_command_expands [OF Suc.prems(1) nth(2) this, of as] obtain rc cmd as1 where
    c: "expand_command env (Some (commands p ! i)) as = Inr (rc, Some cmd, as1)" "command_wf cmd"
      "rc \<in> {0, -1}" "plenty as \<longrightarrow> rc = 0 \<and> plenty as1"
      "rc = 0 \<longrightarrow> abs_command cmd = expand_acommand env (abs_pipeline p ! i)"
    by (auto simp: expands_command_def nth)
  let ?p = "set_command p i cmd"
  note q = pipeline_wf_set [OF Suc.prems(2) i c(2)]
  have loop: "expand_commands env i p as =
      (if rc \<noteq> 0 then Inr (-1, ?p, as1) else expand_commands env (Suc i) ?p as1)"
    using i c(1) by (simp add: expand_commands.simps [of env i p as])
  have count: "command_count ?p = command_count p" by (simp add: set_command_def)
  show ?case
  proof (cases "rc = 0")
    case False
    with loop q(1) c(3,4) show ?thesis by auto
  next
    case True
    have "take (Suc i) (abs_pipeline ?p) = take i (abs_pipeline p) @ [abs_command cmd]"
      "drop (Suc i) (abs_pipeline ?p) = drop (Suc i) (abs_pipeline p)"
      using i nth(3) by (simp_all add: q(2) take_Suc_conv_app_nth)
    moreover have "n = command_count ?p - Suc i" using Suc.hyps(2) count by simp
    ultimately show ?thesis
      using Suc.hyps(1) [of ?p "Suc i" as1] Suc.prems i q(1) count c True suf
      unfolding loop by auto
  qed
qed

text \<open>The strings of a parsed pipeline are texts of tokens, so they are C strings too.\<close>

lemma clean_simps [simp]:
  "clean empty_cmd"
  "clean (c\<lparr>bg := b\<rparr>) = clean c"
  "clean (c\<lparr>args := args c @ [w]\<rparr>) \<longleftrightarrow> clean c \<and> NUL \<notin> set w"
  by (auto simp: clean_def cmd_strings_def empty_cmd_def)

lemma clean_files:
  "clean c \<Longrightarrow> NUL \<notin> set f \<Longrightarrow> clean (c\<lparr>infile := Some f\<rparr>)"
  "clean c \<Longrightarrow> NUL \<notin> set f \<Longrightarrow> clean (c\<lparr>outfile := Some (f, app)\<rparr>)"
  by (auto simp: clean_def cmd_strings_def)

lemma read_all_clean:
  "read_all ts d c = Some cs \<Longrightarrow> list_all clean d \<Longrightarrow> clean c \<Longrightarrow>
   (\<forall>t \<in> set ts. NUL \<notin> set (snd t)) \<Longrightarrow> list_all clean cs"
  by (induction ts arbitrary: d c rule: items.induct)
     (fastforce simp: clean_files split: if_splits | simp add: read_all_def)+

lemma expand_pipeline_refines:
  assumes "env_ok env" "pipeline_wf p" "list_all clean (abs_pipeline p)"
  shows "\<exists>rc p' as'. expand_pipeline env (Some p) as = Inr (rc, Some p', as') \<and> pipeline_wf p' \<and>
    rc \<in> {0, -1} \<and> (plenty as \<longrightarrow> rc = 0 \<and> plenty as') \<and>
    (rc = 0 \<longrightarrow> abs_pipeline p' = map (expand_acommand env) (abs_pipeline p))"
  using expand_commands_result [OF assms(1,2), of 0 as] assms(3) by (auto simp: expand_pipeline_def)

section \<open>Properties of expansion\<close>

text \<open>
  C12: With memory to spare, \<^verbatim>\<open>expand_string\<close> returns the one-pass substitution of the string: every
  \<^verbatim>\<open>$NAME\<close> and \<^verbatim>\<open>${NAME}\<close> replaced by its value (by nothing when it is unset), everything else kept.
\<close>

theorem expand_string_substitutes:
  assumes "NUL \<notin> set s" "env_ok env" "plenty as"
  shows "\<exists>as'. expand_string env (Some s) as = Inr (Some (expand_spec env s), as')"
  using expand_string_expands [OF assms(1,2), of as] assms(3) by metis

theorem expand_string_substitutes_witness:
  "\<exists>as'. expand_string (\<lambda>n. if n = ''USER'' then Some ''bob'' else None) (Some ''hi $USER, ${USER}s $X$'') [] =
     Inr (Some ''hi bob, bobs $'', as')"
proof -
  let ?env = "\<lambda>n. if n = ''USER'' then Some ''bob'' else None"
  have "expand_spec ?env ''hi $USER, ${USER}s $X$'' = ''hi bob, bobs $''" by code_simp
  moreover have "env_ok ?env" by (simp add: env_ok_def)
  ultimately show ?thesis using expand_string_substitutes [of "''hi $USER, ${USER}s $X$''" ?env "[]"] by simp
qed

text \<open>
  C13: Whatever the allocator refuses and however long the values are, \<^verbatim>\<open>expand_string\<close> never writes
  outside its buffer: it returns the substitution or \<^verbatim>\<open>NULL\<close>.
\<close>

theorem expand_string_never_overruns:
  assumes "NUL \<notin> set s" "env_ok env"
  shows "\<exists>r as'. expand_string env (Some s) as = Inr (r, as') \<and> (r = None \<or> r = Some (expand_spec env s))"
  using expand_string_expands [OF assms, of as] by metis

theorem expand_string_never_overruns_witness:
  "\<exists>r as'. expand_string (\<lambda>n. Some (replicate 1000 (CHR ''x''))) (Some ''$A$B'') [True, True, False] = Inr (r, as')"
proof -
  let ?env = "\<lambda>n :: string. Some (replicate 1000 (CHR ''x''))"
  have "env_ok ?env" by (auto simp: env_ok_def)
  then show ?thesis using expand_string_never_overruns [of "''$A$B''" ?env "[True, True, False]"] by auto
qed

text \<open>
  Expanding a well-formed pipeline replaces every argument and file name by its substitution and
  changes nothing else, keeps the pipeline well formed also when it fails, and succeeds when there is
  memory.
\<close>

theorem expand_pipeline_implements_spec:
  assumes "env_ok env" "pipeline_wf p" "list_all clean (abs_pipeline p)"
  shows "\<exists>rc p' as'. expand_pipeline env (Some p) as = Inr (rc, Some p', as') \<and> pipeline_wf p' \<and>
    rc \<in> {0, -1} \<and> (plenty as \<longrightarrow> rc = 0) \<and>
    (rc = 0 \<longrightarrow> abs_pipeline p' = map (expand_acommand env) (abs_pipeline p))"
  using expand_pipeline_refines [OF assms, of as] by blast

theorem expand_pipeline_implements_spec_witness:
  "\<exists>p' as'. expand_pipeline (\<lambda>n. None) (Some init_pipeline) [] = Inr (0, Some p', as') \<and> abs_pipeline p' = []"
proof -
  have "pipeline_wf init_pipeline" "abs_pipeline init_pipeline = []" "env_ok (\<lambda>n. None)"
    by (simp_all add: pipeline_wf_def init_pipeline_def abs_pipeline_def env_ok_def list_all_iff)
  with expand_pipeline_implements_spec [of "\<lambda>n. None" init_pipeline "[]"] show ?thesis by auto
qed

end
