(* ===== verification/Shell_IO.thy ===== *)
theory Shell_IO
  imports Forge_Prelude
begin

text \<open>
  What the ShellForge components exchange with the operating system: the events they cause (text
  on the two output streams, error reports whose wording the system chooses, signals), and the
  services they ask for, which are arguments of the model.
\<close>

datatype event =
    Stdout string
  | Stderr string
  | Perror string        \<comment> \<open>\<^verbatim>\<open>perror(s)\<close>: the prefix; the system appends its own text\<close>
  | KillCont int         \<comment> \<open>\<^verbatim>\<open>kill(-pgid, SIGCONT)\<close>\<close>

fun stdout_text :: "event list \<Rightarrow> string" where
  "stdout_text [] = []"
| "stdout_text (Stdout s # es) = s @ stdout_text es"
| "stdout_text (_ # es) = stdout_text es"

lemma stdout_text_append [simp]: "stdout_text (xs @ ys) = stdout_text xs @ stdout_text ys"
  by (induction xs rule: stdout_text.induct) auto

text \<open>
  The system: \<^verbatim>\<open>getenv\<close>; \<^verbatim>\<open>chdir\<close> from a directory to a path, with the new directory if it
  succeeds; \<^verbatim>\<open>getcwd\<close> in a directory with a buffer of a size.
\<close>

record os =
  os_getenv :: "string \<Rightarrow> string option"
  os_chdir :: "string \<Rightarrow> string \<Rightarrow> string option"
  os_getcwd :: "string \<Rightarrow> nat \<Rightarrow> string option"

text \<open>Padding of \<^verbatim>\<open>%-9s\<close> and \<^verbatim>\<open>%4d\<close>.\<close>

definition pad_right :: "nat \<Rightarrow> string \<Rightarrow> string" where
  "pad_right n s = s @ replicate (n - length s) (CHR '' '')"

definition pad_left :: "nat \<Rightarrow> string \<Rightarrow> string" where
  "pad_left n s = replicate (n - length s) (CHR '' '') @ s"

end
