(* ===== verification/Builtins.thy ===== *)
theory Builtins
  imports Parsing Shell_IO
begin

text \<open>
  The built-in commands of \<^verbatim>\<open>include/builtin.h\<close> and \<^verbatim>\<open>src/builtin.c\<close>: \<^verbatim>\<open>cd\<close>, \<^verbatim>\<open>pwd\<close>, \<^verbatim>\<open>echo\<close>,
  \<^verbatim>\<open>exit\<close>. An operation gets the system, the current directory and the command, and returns the
  result code, the directory and the events. (The main program has its own copy of these
  commands, theory \<open>Shell_Main\<close>; the two are compared in the root theory.)
\<close>

section \<open>The operations\<close>

definition is_builtin :: "string option \<Rightarrow> bool" where
  "is_builtin command =
     (case command of
        None \<Rightarrow> False
      | Some c \<Rightarrow> c = ''cd'' \<or> c = ''pwd'' \<or> c = ''echo'' \<or> c = ''exit'')"

text \<open>The text \<^verbatim>\<open>printf("%s", argv[i])\<close> prints; glibc prints \<^verbatim>\<open>(null)\<close> for \<^verbatim>\<open>NULL\<close>.\<close>

definition arg_text :: "Command \<Rightarrow> nat \<Rightarrow> string" where
  "arg_text cmd i = (case cmd_argv cmd ! i of Some s \<Rightarrow> s | None \<Rightarrow> ''(null)'')"

text \<open>The loop of \<^verbatim>\<open>echo\<close>: each argument, and a space after each but the last.\<close>

definition echo_after :: "Command \<Rightarrow> event list" where
  "echo_after cmd =
     concat (map (\<lambda>i. Stdout (arg_text cmd i) # (if i < cmd_argc cmd - 1 then [Stdout '' ''] else []))
       [1..<cmd_argc cmd]) @ [Stdout [newline]]"

text \<open>\<^verbatim>\<open>chdir\<close> and its error report; \<^verbatim>\<open>chdir(NULL)\<close> is an error (\<^verbatim>\<open>EFAULT\<close>).\<close>

definition change_dir :: "os \<Rightarrow> string \<Rightarrow> string option \<Rightarrow> string \<times> event list" where
  "change_dir os cwd dir =
     (case Option.bind dir (os_chdir os cwd) of
        Some cwd' \<Rightarrow> (cwd', [])
      | None \<Rightarrow> (cwd, [Perror ''cd'']))"

definition print_dir :: "os \<Rightarrow> string \<Rightarrow> event list" where
  "print_dir os cwd =
     (case os_getcwd os cwd 4096 of Some d \<Rightarrow> [Stdout (d @ [newline])] | None \<Rightarrow> [Perror ''pwd''])"

definition execute_builtin :: "os \<Rightarrow> Command option \<Rightarrow> string \<Rightarrow> int \<times> string \<times> event list" where
  "execute_builtin os cmd_ptr cwd =
     (case cmd_ptr of
        None \<Rightarrow> (0, cwd, [])
      | Some cmd \<Rightarrow>
          if cmd_argc cmd = 0 then (0, cwd, [])
          else (case cmd_argv cmd ! 0 of
              None \<Rightarrow> (0, cwd, [])
            | Some name \<Rightarrow>
                if name = ''cd'' then
                  (if cmd_argc cmd = 1 then
                     (case os_getenv os ''HOME'' of
                        None \<Rightarrow> (0, cwd, [Stderr (''cd: HOME not set'' @ [newline])])
                      | Some dir \<Rightarrow> (0, change_dir os cwd (Some dir)))
                   else if cmd_argc cmd = 2 then (0, change_dir os cwd (cmd_argv cmd ! 1))
                   else (0, cwd, [Stderr (''cd: too many arguments'' @ [newline])]))
                else if name = ''pwd'' then
                  (if cmd_argc cmd > 1 then (0, cwd, [Stderr (''pwd: too many arguments'' @ [newline])])
                   else (0, cwd, print_dir os cwd))
                else if name = ''echo'' then (0, cwd, echo_after cmd)
                else if name = ''exit'' then
                  (if cmd_argc cmd > 1 then (0, cwd, [Stderr (''exit: too many arguments'' @ [newline])])
                   else (1, cwd, []))
                else (0, cwd, [])))"

section \<open>What echo prints\<close>

text \<open>Both \<^verbatim>\<open>echo\<close> loops print the arguments with single spaces between them.\<close>

fun join :: "string \<Rightarrow> string list \<Rightarrow> string" where
  "join sep [] = []"
| "join sep [x] = x"
| "join sep (x # xs) = x @ sep @ join sep xs"

lemma join_Cons: "xs \<noteq> [] \<Longrightarrow> join sep (x # xs) = x @ sep @ join sep xs"
  by (cases xs) auto

lemma join_snoc: "xs \<noteq> [] \<Longrightarrow> join sep (xs @ [x]) = join sep xs @ sep @ x"
  by (induction xs rule: induct_list012) auto

lemma length_join: "xs \<noteq> [] \<Longrightarrow> length (join sep xs) + length sep = sum_list (map (\<lambda>x. length x + length sep) xs)"
  by (induction xs rule: induct_list012) auto

lemma stdout_text_separated:
  "stdout_text (concat (map (\<lambda>i. Stdout (f i) # (if i < n then [Stdout s] else [])) [m..<Suc n])) =
   join s (map f [m..<Suc n])"
proof (cases "m \<le> n")
  case True
  then show ?thesis
  proof (induction m rule: inc_induct)
    case base
    then show ?case by simp
  next
    case (step m)
    then have "[m..<Suc n] = m # [Suc m..<Suc n]" "[Suc m..<Suc n] \<noteq> []" by (simp_all add: upt_conv_Cons)
    with step show ?case by (simp add: join_Cons)
  qed
qed simp

lemma args_from_1:
  assumes "command_wf cmd" "0 < cmd_argc cmd"
  shows "map (arg_text cmd) [1..<cmd_argc cmd] = tl (args (abs_command cmd))"
proof (rule nth_equalityI)
  fix i assume "i < length (map (arg_text cmd) [1..<cmd_argc cmd])"
  then have i: "Suc i < cmd_argc cmd" by simp
  then have "cmd_argv cmd ! Suc i \<noteq> None" using assms(1) by (simp add: command_wf_nth)
  then show "map (arg_text cmd) [1..<cmd_argc cmd] ! i = tl (args (abs_command cmd)) ! i"
    using assms i by (auto simp: abs_command_def arg_text_def nth_tl command_wf_def)
qed (use assms in \<open>simp add: abs_command_def command_wf_def\<close>)

lemma echo_after_text:
  assumes "command_wf cmd" "0 < cmd_argc cmd"
  shows "stdout_text (echo_after cmd) = join '' '' (tl (args (abs_command cmd))) @ [newline]"
proof -
  obtain n where n: "cmd_argc cmd = Suc n" using assms(2) by (cases "cmd_argc cmd") auto
  show ?thesis
    using args_from_1 [OF assms] stdout_text_separated [of "arg_text cmd" n "'' ''" 1]
    by (simp add: echo_after_def n)
qed

end
