(* ===== verification/Jobs.thy ===== *)
theory Jobs
  imports Shell_IO
begin

text \<open>
  The job table of ShellForge: \<^verbatim>\<open>include/jobs.h\<close> and \<^verbatim>\<open>src/jobs.c\<close>. The two static variables are
  the record \<open>JobTable\<close>; a \<^verbatim>\<open>Job *\<close> is the index of its slot. Slots with job id 0 are free. The
  theory proves the invariant of the table, that it implements a map from job ids to jobs (the
  locale \<open>keyed_store\<close>), and what holds in every reachable table.
\<close>

section \<open>The table and its operations\<close>

abbreviation MAX_JOBS :: nat where
  "MAX_JOBS \<equiv> 64"

datatype JobState = JOB_RUNNING | JOB_STOPPED | JOB_DONE

record Job =
  job_id :: int
  job_pgid :: int
  job_state :: JobState
  job_command :: "string option"

record JobTable =
  job_table :: "Job list"
  next_job_id :: int

definition free_job :: Job where
  "free_job = \<lparr>job_id = 0, job_pgid = 0, job_state = JOB_DONE, job_command = None\<rparr>"

definition jobs_init :: JobTable where
  "jobs_init = \<lparr>job_table = replicate MAX_JOBS free_job, next_job_id = 1\<rparr>"

definition set_job :: "JobTable \<Rightarrow> nat \<Rightarrow> Job \<Rightarrow> JobTable" where
  "set_job t i j = t\<lparr>job_table := (job_table t)[i := j]\<rparr>"

definition job_add :: "int \<Rightarrow> JobState \<Rightarrow> string option \<Rightarrow> JobTable \<Rightarrow> allocs \<Rightarrow>
    int \<times> JobTable \<times> event list \<times> allocs" where
  "job_add pgid state command t as =
     (case first_index (\<lambda>j. job_id j = 0) (job_table t) of
        None \<Rightarrow> (-1, t, [Stderr (''jobs: maximum number of jobs reached'' @ [newline])], as)
      | Some i \<Rightarrow>
          let j = (job_table t ! i)\<lparr>job_id := next_job_id t, job_pgid := pgid, job_state := state\<rparr>;
              t1 = t\<lparr>next_job_id := next_job_id t + 1\<rparr> in
          (case command of
             Some c \<Rightarrow>
               (case strdup c as of (copy, as') \<Rightarrow>
                  let j1 = j\<lparr>job_command := copy\<rparr> in
                  if copy = None then (-1, set_job t1 i (j1\<lparr>job_id := 0\<rparr>), [], as')
                  else (job_id j1, set_job t1 i j1, [], as'))
           | None \<Rightarrow>
               (case strdup [] as of (copy, as') \<Rightarrow>
                  (job_id j, set_job t1 i (j\<lparr>job_command := copy\<rparr>), [], as'))))"

definition job_find :: "int \<Rightarrow> JobTable \<Rightarrow> nat option" where
  "job_find jid t = first_index (\<lambda>j. job_id j = jid) (job_table t)"

definition job_find_by_pgid :: "int \<Rightarrow> JobTable \<Rightarrow> nat option" where
  "job_find_by_pgid pgid t = first_index (\<lambda>j. job_id j \<noteq> 0 \<and> job_pgid j = pgid) (job_table t)"

definition job_remove :: "int \<Rightarrow> JobTable \<Rightarrow> JobTable" where
  "job_remove jid t =
     (case job_find jid t of
        None \<Rightarrow> t
      | Some i \<Rightarrow> set_job t i ((job_table t ! i)\<lparr>job_command := None, job_id := 0, job_pgid := 0,
                                job_state := JOB_DONE\<rparr>))"

fun job_state_string :: "JobState \<Rightarrow> string" where
  "job_state_string JOB_RUNNING = ''Running''"
| "job_state_string JOB_STOPPED = ''Stopped''"
| "job_state_string JOB_DONE = ''Done''"

definition job_line :: "Job \<Rightarrow> string" where
  "job_line j = ''['' @ dec_int (job_id j) @ ''] '' @ pad_right 9 (job_state_string (job_state j)) @
     '' '' @ (case job_command j of Some c \<Rightarrow> c | None \<Rightarrow> []) @ [newline]"

definition jobs_print :: "JobTable \<Rightarrow> event list" where
  "jobs_print t = map (\<lambda>j. Stdout (job_line j)) (filter (\<lambda>j. job_id j \<noteq> 0) (job_table t))"

definition job_stop :: "int \<Rightarrow> JobTable \<Rightarrow> JobTable" where
  "job_stop pgid t =
     (case job_find_by_pgid pgid t of
        None \<Rightarrow> t
      | Some i \<Rightarrow> set_job t i ((job_table t ! i)\<lparr>job_state := JOB_STOPPED\<rparr>))"

definition job_continue :: "int \<Rightarrow> JobTable \<Rightarrow> JobTable \<times> event list" where
  "job_continue pgid t =
     (case job_find_by_pgid pgid t of
        None \<Rightarrow> (t, [])
      | Some i \<Rightarrow> (set_job t i ((job_table t ! i)\<lparr>job_state := JOB_RUNNING\<rparr>), [KillCont pgid]))"

definition job_done :: "int \<Rightarrow> JobTable \<Rightarrow> JobTable" where
  "job_done pgid t =
     (case job_find_by_pgid pgid t of
        None \<Rightarrow> t
      | Some i \<Rightarrow> set_job t i ((job_table t ! i)\<lparr>job_state := JOB_DONE\<rparr>))"

section \<open>The invariant\<close>

text \<open>
  64 slots; the ids in use are positive, below the counter and pairwise different; a free slot
  owns no command text.
\<close>

definition job_ids :: "JobTable \<Rightarrow> int list" where
  "job_ids t = map job_id (job_table t)"

definition jobs_wf :: "JobTable \<Rightarrow> bool" where
  "jobs_wf t \<longleftrightarrow> length (job_table t) = MAX_JOBS \<and> 1 \<le> next_job_id t \<and>
     (\<forall>k \<in> set (job_ids t). 0 \<le> k \<and> k < next_job_id t) \<and>
     distinct (filter (\<lambda>k. k \<noteq> 0) (job_ids t)) \<and>
     (\<forall>j \<in> set (job_table t). job_id j = 0 \<longrightarrow> job_command j = None)"

lemma jobs_wf_init: "jobs_wf jobs_init"
  by (simp add: jobs_wf_def jobs_init_def free_job_def job_ids_def)

lemma set_job_table [simp]:
  "job_table (set_job t i j) = (job_table t)[i := j]" "next_job_id (set_job t i j) = next_job_id t"
  "job_ids (set_job t i j) = (job_ids t)[i := job_id j]"
  by (simp_all add: set_job_def job_ids_def map_update)

lemma set_job_wf:
  assumes wf: "jobs_wf t" and n: "next_job_id t \<le> n"
    and j: "job_id j = 0 \<longrightarrow> job_command j = None"
      "job_id j = 0 \<or> job_id j = next_job_id t \<and> job_id j < n"
  shows "jobs_wf (set_job (t\<lparr>next_job_id := n\<rparr>) i j)"
proof -
  have ids: "job_ids (t\<lparr>next_job_id := n\<rparr>) = job_ids t" by (simp add: job_ids_def)
  have "distinct (filter (\<lambda>k. k \<noteq> 0) ((job_ids t)[i := job_id j]))"
    using wf j by (intro distinct_filter_update) (auto simp: jobs_wf_def)
  moreover have "0 \<le> k \<and> k < n" if "k \<in> set ((job_ids t)[i := job_id j])" for k
  proof -
    have "k = job_id j \<or> k \<in> set (job_ids t)"
      using that set_update_subset_insert [of "job_ids t" i "job_id j"] by auto
    then show ?thesis using wf n j(2) by (fastforce simp: jobs_wf_def)
  qed
  moreover have "job_id k = 0 \<longrightarrow> job_command k = None" if "k \<in> set ((job_table t)[i := j])" for k
    using that wf j(1) set_update_subset_insert [of "job_table t" i j] by (auto simp: jobs_wf_def)
  ultimately show ?thesis using wf n by (simp add: jobs_wf_def ids)
qed

text \<open>Changing the state of a job keeps its id, so it keeps the invariant.\<close>

lemma set_state_wf:
  assumes wf: "jobs_wf t" and i: "i < length (job_table t)"
  shows "jobs_wf (set_job t i ((job_table t ! i)\<lparr>job_state := s\<rparr>))"
proof -
  let ?j = "(job_table t ! i)\<lparr>job_state := s\<rparr>"
  have "(job_ids t)[i := job_id ?j] = job_ids t"
    using i by (auto simp: job_ids_def list_update_same_conv)
  moreover have "job_id k = 0 \<longrightarrow> job_command k = None" if "k \<in> set ((job_table t)[i := ?j])" for k
    using that wf i set_update_subset_insert [of "job_table t" i ?j] by (fastforce simp: jobs_wf_def)
  ultimately show ?thesis using wf by (simp add: jobs_wf_def)
qed

lemma job_add_cases:
  assumes "job_add pgid state command t as = (r, t', es, as')"
  obtains (full) "\<forall>j \<in> set (job_table t). job_id j \<noteq> 0" "r = -1" "t' = t"
  | (no_memory) i where "first_index (\<lambda>j. job_id j = 0) (job_table t) = Some i" "r = -1" "\<not> plenty as"
      "t' = set_job (t\<lparr>next_job_id := next_job_id t + 1\<rparr>) i
         ((job_table t ! i)\<lparr>job_pgid := pgid, job_state := state, job_command := None, job_id := 0\<rparr>)"
  | (added) i copy where "first_index (\<lambda>j. job_id j = 0) (job_table t) = Some i" "r = next_job_id t"
      "t' = set_job (t\<lparr>next_job_id := next_job_id t + 1\<rparr>) i
         ((job_table t ! i)\<lparr>job_id := next_job_id t, job_pgid := pgid, job_state := state,
            job_command := copy\<rparr>)"
      "copy = (case command of Some c \<Rightarrow> Some c | None \<Rightarrow> fst (strdup [] as))"
proof (cases "first_index (\<lambda>j. job_id j = 0) (job_table t)")
  case None
  then have used: "\<forall>j \<in> set (job_table t). job_id j \<noteq> 0" by (simp only: first_index_None)
  from assms None have "r = -1" "t' = t" by (simp_all add: job_add_def)
  with used show thesis by (rule that(1))
next
  case (Some i)
  show thesis
  proof (cases command)
    case None
    then show thesis
      using assms Some that(3) [of i "fst (strdup [] as)"]
      by (auto simp: job_add_def Let_def split: prod.splits)
  next
    case command: (Some c)
    obtain copy bs where dup: "strdup c as = (copy, bs)" by force
    then have "copy = Some c \<or> copy = None \<and> \<not> plenty as"
      using strdup_cases [OF dup] strdup_plenty [of as c] by auto
    then show thesis
      using assms Some command dup that(2,3) [of i] by (auto simp: job_add_def Let_def)
  qed
qed

lemma job_add_wf:
  assumes wf: "jobs_wf t" and add: "job_add pgid state command t as = (r, t', es, as')"
  shows "jobs_wf t'"
  using add
proof (cases rule: job_add_cases)
  case added
  moreover have "next_job_id t \<noteq> 0" using wf by (simp add: jobs_wf_def)
  ultimately show ?thesis by (auto intro!: set_job_wf [OF wf])
qed (use wf in \<open>auto intro!: set_job_wf\<close>)

lemma job_find_Some:
  "job_find k t = Some i \<Longrightarrow> i < length (job_table t) \<and> job_id (job_table t ! i) = k"
  "job_find_by_pgid g t = Some i \<Longrightarrow> i < length (job_table t) \<and> job_id (job_table t ! i) \<noteq> 0 \<and>
     job_pgid (job_table t ! i) = g"
  by (auto simp: job_find_def job_find_by_pgid_def dest: first_index_SomeD)

lemma job_remove_wf:
  assumes "jobs_wf t"
  shows "jobs_wf (job_remove k t)"
  using assms set_job_wf [OF assms order_refl]
  by (auto simp: job_remove_def split: option.splits)

lemma job_state_ops_wf:
  assumes "jobs_wf t"
  shows "jobs_wf (job_stop g t)" "jobs_wf (fst (job_continue g t))" "jobs_wf (job_done g t)"
  using assms set_state_wf [OF assms]
  by (auto simp: job_stop_def job_continue_def job_done_def split: option.splits dest: job_find_Some(2))


section \<open>The table as a map from ids to jobs\<close>

type_synonym job_view = "int \<times> JobState \<times> string option"

definition view_job :: "Job \<Rightarrow> job_view" where
  "view_job j = (job_pgid j, job_state j, job_command j)"

definition jobs_view :: "JobTable \<Rightarrow> int \<rightharpoonup> job_view" where
  "jobs_view t k = (if k = 0 then None
     else map_option (\<lambda>i. view_job (job_table t ! i)) (job_find k t))"

lemma jobs_wf_unique:
  assumes wf: "jobs_wf t" and i: "i < length (job_table t)" and j: "j < length (job_table t)"
    and eq: "job_id (job_table t ! i) = job_id (job_table t ! j)" and nz: "job_id (job_table t ! i) \<noteq> 0"
  shows "i = j"
proof -
  have d: "distinct (filter (\<lambda>k. k \<noteq> 0) (job_ids t))" using wf by (simp add: jobs_wf_def)
  show ?thesis
    using distinct_filter_nth [OF d, of i j] i j eq nz by (simp add: job_ids_def)
qed

lemma job_find_eq:
  assumes "jobs_wf t" "i < length (job_table t)" "job_id (job_table t ! i) = k" "k \<noteq> 0"
  shows "job_find k t = Some i"
  unfolding job_find_def using assms jobs_wf_unique by (intro first_index_unique) auto

lemma jobs_view_None: "jobs_view t k = None \<longleftrightarrow> k = 0 \<or> k \<notin> set (job_ids t)"
  by (auto simp: jobs_view_def job_find_def first_index_None job_ids_def)

lemma dom_jobs_view: "dom (jobs_view t) = set (job_ids t) - {0}"
proof (rule set_eqI)
  fix k
  show "k \<in> dom (jobs_view t) \<longleftrightarrow> k \<in> set (job_ids t) - {0}"
    using jobs_view_None [of t k] by (simp only: domIff Diff_iff singleton_iff) blast
qed

lemma jobs_view_Some:
  assumes "jobs_wf t"
  shows "jobs_view t m = Some v \<longleftrightarrow>
    m \<noteq> 0 \<and> (\<exists>a < length (job_table t). job_id (job_table t ! a) = m \<and> view_job (job_table t ! a) = v)"
    (is "_ \<longleftrightarrow> ?R")
proof
  assume "jobs_view t m = Some v"
  then obtain a where "m \<noteq> 0" "job_find m t = Some a" "view_job (job_table t ! a) = v"
    by (auto simp: jobs_view_def split: if_splits)
  with job_find_Some(1) show ?R by blast
next
  assume ?R
  then obtain a where a: "m \<noteq> 0" "a < length (job_table t)" "job_id (job_table t ! a) = m"
    "view_job (job_table t ! a) = v" by blast
  then have "job_find m t = Some a" using job_find_eq [OF assms a(2,3,1)] by simp
  with a show "jobs_view t m = Some v" by (simp add: jobs_view_def)
qed

text \<open>
  Writing a slot changes the map at the id the slot had or gets, nowhere else: \<open>k\<close> is that id,
  and no other slot holds it.
\<close>

lemma jobs_view_set_job:
  assumes wf: "jobs_wf t" and wf': "jobs_wf (set_job t' i j)" and i: "i < length (job_table t)"
    and t': "job_table t' = job_table t"
    and old: "job_id (job_table t ! i) = 0 \<or> job_id (job_table t ! i) = k"
    and new: "job_id j = 0 \<or> job_id j = k" and k: "k \<noteq> 0"
    and only: "job_id (job_table t ! i) = 0 \<Longrightarrow> k \<notin> set (job_ids t)"
  shows "jobs_view (set_job t' i j) = (jobs_view t)(k := if job_id j = 0 then None else Some (view_job j))"
    (is "?V = ?W")
proof -
  have slot: "job_id (job_table t ! a) = k \<longleftrightarrow> a = i \<and> job_id (job_table t ! i) = k"
    if "a < length (job_table t)" for a
    using that old only k jobs_wf_unique [OF wf that i] by (fastforce simp: job_ids_def)
  have "?V m = Some v \<longleftrightarrow> ?W m = Some v" for m v
  proof -
    have "?V m = Some v \<longleftrightarrow> m \<noteq> 0 \<and> (job_id j = m \<and> view_job j = v \<or>
        (\<exists>a < length (job_table t). a \<noteq> i \<and> job_id (job_table t ! a) = m \<and> view_job (job_table t ! a) = v))"
      using i by (subst jobs_view_Some [OF wf']) (auto simp: t' nth_list_update)
    also have "\<dots> \<longleftrightarrow> ?W m = Some v"
    proof (cases "m = k")
      case True
      then have "\<not> (\<exists>a < length (job_table t). a \<noteq> i \<and> job_id (job_table t ! a) = m)" using slot by blast
      then show ?thesis using True new k by auto
    next
      case False
      then have "\<not> (m \<noteq> 0 \<and> job_id (job_table t ! i) = m)" "\<not> (m \<noteq> 0 \<and> job_id j = m)" using old new by auto
      moreover have "?W m = jobs_view t m" using False by simp
      ultimately show ?thesis using jobs_view_Some [OF wf, of m v] by metis
    qed
    finally show ?thesis .
  qed
  then show ?thesis by (intro ext) (metis option.exhaust)
qed


text \<open>A job that is added gets the value of the counter, which no job has.\<close>

lemma fresh_id:
  assumes "jobs_wf t" "next_job_id t \<le> k"
  shows "jobs_view t k = None"
  using assms by (force simp: jobs_wf_def jobs_view_None)

lemma jobs_view_fill:
  assumes wf: "jobs_wf t" and wf': "jobs_wf (set_job t' i j)" and i: "i < length (job_table t)"
    and t': "job_table t' = job_table t" and old: "job_id (job_table t ! i) = 0"
    and new: "job_id j = 0 \<or> job_id j = next_job_id t"
  shows "jobs_view (set_job t' i j) =
    (if job_id j = 0 then jobs_view t else (jobs_view t)(next_job_id t \<mapsto> view_job j))"
proof -
  have k: "next_job_id t \<noteq> 0" "next_job_id t \<notin> set (job_ids t)" using wf by (auto simp: jobs_wf_def)
  have "jobs_view t (next_job_id t) = None" using fresh_id [OF wf order_refl] .
  then show ?thesis
    using jobs_view_set_job [OF wf wf' i t' _ new k(1)] old k(2) by (simp add: fun_upd_idem)
qed

lemma jobs_view_job_remove:
  assumes wf: "jobs_wf t"
  shows "jobs_view (job_remove k t) = (jobs_view t)(k := None)"
proof (cases "job_find k t")
  case None
  then show ?thesis by (auto simp: job_remove_def jobs_view_def fun_eq_iff)
next
  case (Some i)
  note i = job_find_Some(1) [OF Some]
  let ?t = "job_remove k t"
  have eq: "?t = set_job t i ((job_table t ! i)\<lparr>job_command := None, job_id := 0, job_pgid := 0, job_state := JOB_DONE\<rparr>)"
    using Some by (simp add: job_remove_def)
  show ?thesis
  proof (cases "k = 0")
    case True
    then have "job_id (job_table t ! i) = 0" using i by simp
    then have "jobs_view ?t = jobs_view t"
      unfolding eq using jobs_view_fill [OF wf job_remove_wf [OF wf, of k, unfolded eq]] i by simp
    then show ?thesis using True by (simp add: jobs_view_def fun_upd_idem)
  next
    case False
    then show ?thesis
      using jobs_view_set_job [OF wf, of t i _ k] job_remove_wf [OF wf, of k] i by (auto simp: eq)
  qed
qed

definition job_entry :: "int \<Rightarrow> JobState \<Rightarrow> string option \<Rightarrow> allocs \<Rightarrow> job_view" where
  "job_entry pgid state command as =
     (pgid, state, case command of Some c \<Rightarrow> Some c | None \<Rightarrow> fst (strdup [] as))"

lemma jobs_view_job_add:
  assumes wf: "jobs_wf t" and add: "job_add pgid state command t as = (r, t', es, as')"
  shows "r = -1 \<and> jobs_view t' = jobs_view t \<or>
    r = next_job_id t \<and> jobs_view t' = (jobs_view t)(r \<mapsto> job_entry pgid state command as)"
  using add
proof (cases rule: job_add_cases)
  case full
  then show ?thesis by simp
next
  case (no_memory i)
  then have i: "i < length (job_table t)" "job_id (job_table t ! i) = 0" by (auto dest: first_index_SomeD)
  have "jobs_view t' = jobs_view t"
    using jobs_view_fill [OF wf] job_add_wf [OF wf add] i by (simp add: no_memory(4))
  then show ?thesis using no_memory by simp
next
  case (added i copy)
  then have i: "i < length (job_table t)" "job_id (job_table t ! i) = 0" by (auto dest: first_index_SomeD)
  have "next_job_id t \<noteq> 0" using wf by (simp add: jobs_wf_def)
  then have "jobs_view t' = (jobs_view t)(next_job_id t \<mapsto> job_entry pgid state command as)"
    using jobs_view_fill [OF wf] job_add_wf [OF wf add] i added(4) by (simp add: added(3) view_job_def job_entry_def)
  then show ?thesis using added by simp
qed


text \<open>The state changes keep the ids: they touch one entry of the map.\<close>

lemma set_state_ids:
  assumes "i < length (job_table t)"
  shows "job_ids (set_job t i ((job_table t ! i)\<lparr>job_state := s\<rparr>)) = job_ids t"
  using assms by (auto simp: job_ids_def map_update list_update_same_conv)

lemma job_state_ops_ids:
  "job_ids (job_stop g t) = job_ids t" "job_ids (fst (job_continue g t)) = job_ids t"
  "job_ids (job_done g t) = job_ids t"
  by (auto simp: job_stop_def job_continue_def job_done_def set_state_ids dest!: job_find_Some(2)
        split: option.splits simp del: set_job_table)

lemma job_ops_next_id:
  "next_job_id (job_stop g t) = next_job_id t" "next_job_id (fst (job_continue g t)) = next_job_id t"
  "next_job_id (job_done g t) = next_job_id t" "next_job_id (job_remove k t) = next_job_id t"
  by (auto simp: job_stop_def job_continue_def job_done_def job_remove_def split: option.splits)

lemma job_add_next_id:
  assumes "job_add pgid state command t as = (r, t', es, as')"
  shows "next_job_id t' = next_job_id t \<or> next_job_id t' = next_job_id t + 1"
    and "r = next_job_id t \<Longrightarrow> r \<noteq> -1 \<Longrightarrow> next_job_id t' = next_job_id t + 1"
  using assms by (cases rule: job_add_cases; simp)+

section \<open>Interface: a store that hands out keys\<close>

text \<open>
  What a client of the table relies on: \<open>add\<close> either refuses and changes no entry, or stores the
  entry under a key never handed out before; \<open>del\<close> drops one key; \<open>touch\<close> changes entries but
  not which keys are stored.
\<close>

locale keyed_store =
  fixes valid :: "'s \<Rightarrow> bool" and lookup :: "'s \<Rightarrow> 'k \<rightharpoonup> 'v" and issued :: "'s \<Rightarrow> 'k set"
    and entry :: "'w \<Rightarrow> 'v" and add :: "'w \<Rightarrow> 's \<Rightarrow> 'k option \<times> 's" and del :: "'k \<Rightarrow> 's \<Rightarrow> 's"
    and touch :: "'g \<Rightarrow> 's \<Rightarrow> 's"
  assumes valid_ops: "valid s \<Longrightarrow> valid (snd (add w s))" "valid s \<Longrightarrow> valid (del k s)"
      "valid s \<Longrightarrow> valid (touch g s)"
    and add_refused: "valid s \<Longrightarrow> add w s = (None, s') \<Longrightarrow> lookup s' = lookup s \<and> issued s \<subseteq> issued s'"
    and add_stored: "valid s \<Longrightarrow> add w s = (Some k, s') \<Longrightarrow>
      k \<notin> issued s \<and> lookup s' = (lookup s)(k \<mapsto> entry w) \<and> insert k (issued s) \<subseteq> issued s'"
    and del_dropped: "valid s \<Longrightarrow> lookup (del k s) = (lookup s)(k := None) \<and> issued (del k s) = issued s"
    and touch_keeps: "valid s \<Longrightarrow> dom (lookup (touch g s)) = dom (lookup s) \<and> issued (touch g s) = issued s"
    and stored_issued: "valid s \<Longrightarrow> dom (lookup s) \<subseteq> issued s"
begin

definition step :: "'s \<Rightarrow> 's \<Rightarrow> bool" where
  "step s s' \<longleftrightarrow> (\<exists>w. s' = snd (add w s)) \<or> (\<exists>k. s' = del k s) \<or> (\<exists>g. s' = touch g s)"

lemma step_keeps:
  assumes "valid s" "step s s'"
  shows "valid s'" "issued s \<subseteq> issued s'" "dom (lookup s') \<inter> issued s \<subseteq> dom (lookup s)"
proof -
  have add: "issued s \<subseteq> issued (snd (add w s)) \<and> dom (lookup (snd (add w s))) \<inter> issued s \<subseteq> dom (lookup s)" for w
  proof -
    obtain r t where t: "add w s = (r, t)" by fastforce
    show ?thesis
    proof (cases r)
      case None
      then show ?thesis using add_refused [OF assms(1), of w t] t by simp
    next
      case (Some k)
      then show ?thesis using add_stored [OF assms(1), of w k t] t by auto
    qed
  qed
  show "valid s'" using assms valid_ops unfolding step_def by blast
  have "issued s \<subseteq> issued s' \<and> dom (lookup s') \<inter> issued s \<subseteq> dom (lookup s)"
    using assms(2) unfolding step_def
  proof (elim disjE exE)
    fix k assume "s' = del k s"
    then show ?thesis using del_dropped [OF assms(1), of k] by auto
  next
    fix g assume "s' = touch g s"
    then show ?thesis using touch_keeps [OF assms(1), of g] by simp
  qed (use add in simp)
  then show "issued s \<subseteq> issued s'" "dom (lookup s') \<inter> issued s \<subseteq> dom (lookup s)" by blast+
qed

lemma steps_keep:
  assumes "step\<^sup>*\<^sup>* s s'" "valid s"
  shows "valid s' \<and> issued s \<subseteq> issued s' \<and> dom (lookup s') \<inter> issued s \<subseteq> dom (lookup s)"
  using assms(1)
proof (induction rule: rtranclp_induct)
  case base
  then show ?case using assms(2) by blast
next
  case (step a b)
  then show ?case using step_keeps [OF _ step(2)] by blast
qed

text \<open>A key that was handed out and is not stored any more never comes back.\<close>

lemma gone_forever:
  assumes "step\<^sup>*\<^sup>* s s'" "valid s" "k \<in> issued s" "lookup s k = None"
  shows "lookup s' k = None"
  using steps_keep [OF assms(1,2)] assms(3,4) by blast

text \<open>Two additions, whatever happens in between, never give the same key.\<close>

lemma keys_differ:
  assumes "valid s" "add w s = (Some k, s1)" "step\<^sup>*\<^sup>* s1 s2" "add w' s2 = (Some k', s3)"
  shows "k \<noteq> k'"
proof -
  have v: "valid s1" using valid_ops(1) [OF assms(1), of w] assms(2) by simp
  have "k \<in> issued s1" using add_stored [OF assms(1,2)] by blast
  then have "k \<in> issued s2" "valid s2" using steps_keep [OF assms(3) v] by blast+
  then show ?thesis using add_stored [OF _ assms(4)] by blast
qed

end

section \<open>The job table is such a store\<close>

definition job_store_add :: "int \<times> JobState \<times> string option \<times> allocs \<Rightarrow> JobTable \<Rightarrow> int option \<times> JobTable" where
  "job_store_add = (\<lambda>(pgid, state, command, as) t.
     case job_add pgid state command t as of (r, t', es, as') \<Rightarrow> (if r = -1 then None else Some r, t'))"

definition job_store_entry :: "int \<times> JobState \<times> string option \<times> allocs \<Rightarrow> job_view" where
  "job_store_entry = (\<lambda>(pgid, state, command, as). job_entry pgid state command as)"

definition job_store_touch :: "JobState \<times> int \<Rightarrow> JobTable \<Rightarrow> JobTable" where
  "job_store_touch = (\<lambda>(s, pgid). case s of
     JOB_STOPPED \<Rightarrow> job_stop pgid | JOB_RUNNING \<Rightarrow> fst \<circ> job_continue pgid | JOB_DONE \<Rightarrow> job_done pgid)"

definition job_issued :: "JobTable \<Rightarrow> int set" where
  "job_issued t = {k. 0 < k \<and> k < next_job_id t}"

interpretation job_store: keyed_store jobs_wf jobs_view job_issued job_store_entry job_store_add job_remove
  job_store_touch
proof unfold_locales
  fix s s' :: JobTable and w :: "int \<times> JobState \<times> string option \<times> allocs" and k :: int
    and g :: "JobState \<times> int"
  assume wf: "jobs_wf s"
  obtain pgid state command as where w: "w = (pgid, state, command, as)" by (metis prod.exhaust)
  obtain r t' es as' where add: "job_add pgid state command s as = (r, t', es, as')" by (metis prod.exhaust)
  note eqs = w add job_store_add_def
  show "jobs_wf (snd (job_store_add w s))" using job_add_wf [OF wf add] by (simp add: eqs)
  show "jobs_wf (job_remove k s)" using wf by (rule job_remove_wf)
  show "jobs_wf (job_store_touch g s)"
    using job_state_ops_wf [OF wf] by (auto simp: job_store_touch_def split: prod.splits JobState.splits)
  show "jobs_view (job_remove k s) = (jobs_view s)(k := None) \<and> job_issued (job_remove k s) = job_issued s"
    using jobs_view_job_remove [OF wf] by (simp add: job_issued_def job_ops_next_id)
  show "dom (jobs_view (job_store_touch g s)) = dom (jobs_view s) \<and> job_issued (job_store_touch g s) = job_issued s"
    by (auto simp: job_store_touch_def job_issued_def job_ops_next_id dom_jobs_view job_state_ops_ids
          split: prod.splits JobState.splits)
  show "dom (jobs_view s) \<subseteq> job_issued s"
    using wf unfolding dom_jobs_view jobs_wf_def job_issued_def by (auto simp: order_less_le)
  show "jobs_view s' = jobs_view s \<and> job_issued s \<subseteq> job_issued s'" if "job_store_add w s = (None, s')"
    using that jobs_view_job_add [OF wf add] job_add_next_id(1) [OF add] wf
    by (auto simp: eqs job_issued_def jobs_wf_def split: if_splits)
  show "k \<notin> job_issued s \<and> jobs_view s' = (jobs_view s)(k \<mapsto> job_store_entry w) \<and>
      insert k (job_issued s) \<subseteq> job_issued s'" if "job_store_add w s = (Some k, s')"
    using that jobs_view_job_add [OF wf add] job_add_next_id [OF add] wf
    by (auto simp: eqs job_issued_def job_store_entry_def jobs_wf_def split: if_splits)
qed

section \<open>Reachable tables\<close>

inductive jobs_step :: "JobTable \<Rightarrow> JobTable \<Rightarrow> bool" where
  add: "job_add pgid state command t as = (r, t', es, as') \<Longrightarrow> jobs_step t t'"
| remove: "jobs_step t (job_remove k t)"
| stop: "jobs_step t (job_stop pgid t)"
| continue: "jobs_step t (fst (job_continue pgid t))"
| finished: "jobs_step t (job_done pgid t)"

lemma jobs_step_store: "jobs_step t t' \<Longrightarrow> job_store.step t t'"
proof (induction rule: jobs_step.induct)
  case (add pgid state command t as r t' es as')
  then have "t' = snd (job_store_add (pgid, state, command, as) t)" by (simp add: job_store_add_def)
  then show ?case unfolding job_store.step_def by blast
next
  case (stop t pgid)
  have "job_stop pgid t = job_store_touch (JOB_STOPPED, pgid) t" by (simp add: job_store_touch_def)
  then show ?case unfolding job_store.step_def by blast
next
  case (continue t pgid)
  have "fst (job_continue pgid t) = job_store_touch (JOB_RUNNING, pgid) t" by (simp add: job_store_touch_def)
  then show ?case unfolding job_store.step_def by blast
next
  case (finished t pgid)
  have "job_done pgid t = job_store_touch (JOB_DONE, pgid) t" by (simp add: job_store_touch_def)
  then show ?case unfolding job_store.step_def by blast
qed (auto simp: job_store.step_def)

lemma jobs_steps_store: "jobs_step\<^sup>*\<^sup>* t t' \<Longrightarrow> job_store.step\<^sup>*\<^sup>* t t'"
  using jobs_step_store by (metis mono_rtranclp)

section \<open>Properties of the job table\<close>



text \<open>
  Adding a job refines a map update: either it returns -1 and no entry changes, or it returns the
  counter value, an id no job has, and exactly the entry under that id is new. With a free slot and
  memory it succeeds.
\<close>

theorem job_add_refines_map:
  assumes "jobs_wf t" "job_add pgid state (Some c) t as = (r, t', es, as')"
  shows "(r = -1 \<and> jobs_view t' = jobs_view t \<or>
      r = next_job_id t \<and> jobs_view t r = None \<and> jobs_view t' = (jobs_view t)(r \<mapsto> (pgid, state, Some c))) \<and>
    (0 \<in> set (job_ids t) \<and> plenty as \<longrightarrow> r \<noteq> -1)"
proof -
  have "jobs_view t (next_job_id t) = None" "next_job_id t \<noteq> -1"
    using fresh_id [OF assms(1)] assms(1) by (auto simp: jobs_wf_def)
  moreover have "0 \<in> set (job_ids t) \<and> plenty as \<longrightarrow> r \<noteq> -1"
    using assms(2) calculation(2) by (cases rule: job_add_cases) (auto simp: job_ids_def)
  ultimately show ?thesis
    using jobs_view_job_add [OF assms] by (auto simp: job_entry_def)
qed

theorem job_add_refines_map_witness:
  "\<exists>t'. job_add 7 JOB_RUNNING (Some ''a'') jobs_init [] = (1, t', [], []) \<and>
     jobs_view t' = (jobs_view jobs_init)(1 \<mapsto> (7, JOB_RUNNING, Some ''a''))"
proof -
  have "first_index (\<lambda>j. job_id j = 0) (job_table jobs_init) = Some 0" by (simp add: jobs_init_def free_job_def numeral_eq_Suc)
  then obtain t' where "job_add 7 JOB_RUNNING (Some ''a'') jobs_init [] = (1, t', [], [])"
    by (simp add: job_add_def Let_def set_job_def jobs_init_def)
  with job_add_refines_map [OF jobs_wf_init this] show ?thesis by auto
qed

text \<open>
  Removing a job by its id deletes exactly that entry, whether the id is in use or not; removing
  what was just added restores the map.
\<close>

theorem job_remove_refines_map:
  assumes "jobs_wf t"
  shows "jobs_view (job_remove k t) = (jobs_view t)(k := None) \<and>
    (job_add pgid state command t as = (r, t', es, as') \<longrightarrow> jobs_view (job_remove r t') = jobs_view t)"
proof -
  have "jobs_view (job_remove r t') = jobs_view t" if add: "job_add pgid state command t as = (r, t', es, as')"
  proof -
    have r: "jobs_view t r = None" using jobs_view_job_add [OF assms add] fresh_id [OF assms] assms
      by (auto simp: jobs_view_None jobs_wf_def)
    have "(jobs_view t')(r := None) = jobs_view t"
      using jobs_view_job_add [OF assms add] r by (auto simp: fun_upd_idem)
    then show ?thesis using jobs_view_job_remove [OF job_add_wf [OF assms add]] by simp
  qed
  then show ?thesis using jobs_view_job_remove [OF assms] by simp
qed

theorem job_remove_refines_map_witness:
  "jobs_wf jobs_init \<and> jobs_view (job_remove 5 jobs_init) = (jobs_view jobs_init)(5 := None)"
  using job_remove_refines_map [OF jobs_wf_init] jobs_wf_init by simp



text \<open>
  Job id 0 marks free slots, but \<^verbatim>\<open>job_find\<close> accepts it: in every well-formed table with a free
  slot it returns that slot, a job with no id and no text, instead of reporting that there is none.
\<close>

theorem job_find_zero_finds_free_slot:
  assumes "jobs_wf t" "0 \<in> set (job_ids t)"
  shows "\<exists>i. job_find 0 t = Some i \<and> job_id (job_table t ! i) = 0 \<and> job_command (job_table t ! i) = None"
proof -
  obtain i where i: "job_find 0 t = Some i"
    using assms(2) by (cases "job_find 0 t") (auto simp: job_find_def first_index_None job_ids_def)
  with job_find_Some(1) [OF i] assms(1) show ?thesis by (auto simp: jobs_wf_def)
qed

theorem job_find_zero_finds_free_slot_witness:
  "\<exists>i. job_find 0 jobs_init = Some i \<and> job_command (job_table jobs_init ! i) = None"
  using job_find_zero_finds_free_slot [OF jobs_wf_init] by (auto simp: jobs_init_def free_job_def job_ids_def)

text \<open>
  A finished job keeps its slot: marking jobs done, stopped or continued never frees one, so once
  all 64 slots are used every further background job is refused, even if all 64 jobs are done.
\<close>

theorem finished_jobs_keep_their_slots:
  assumes "0 \<notin> set (job_ids t)"
  shows "job_ids (job_done g t) = job_ids t \<and> job_ids (job_stop g t) = job_ids t \<and>
    job_ids (fst (job_continue g t)) = job_ids t \<and>
    job_add pgid state command (job_done g t) as =
      (-1, job_done g t, [Stderr (''jobs: maximum number of jobs reached'' @ [newline])], as)"
proof -
  have "first_index (\<lambda>j. job_id j = 0) (job_table (job_done g t)) = None"
    using assms job_state_ops_ids(3) [of g t] unfolding first_index_None job_ids_def
    by (metis (mono_tags, lifting) image_eqI list.set_map)
  then show ?thesis by (simp add: job_state_ops_ids job_add_def)
qed

theorem finished_jobs_keep_their_slots_witness:
  "fst (job_add 5 JOB_RUNNING None (job_done 7 \<lparr>job_table = [\<lparr>job_id = 1, job_pgid = 7, job_state = JOB_RUNNING,
     job_command = None\<rparr>], next_job_id = 2\<rparr>) []) = -1"
  using finished_jobs_keep_their_slots [of "\<lparr>job_table = [\<lparr>job_id = 1, job_pgid = 7, job_state = JOB_RUNNING,
     job_command = None\<rparr>], next_job_id = 2\<rparr>" 7 5 JOB_RUNNING None "[]"] by (simp add: job_ids_def)

end
