(* ===== verification/Executor.thy ===== *)
theory Executor
  imports Builtins Jobs
begin

text \<open>
  The executor: \<^verbatim>\<open>include/executor.h\<close> and \<^verbatim>\<open>src/executor.c\<close>. A process has a table of file
  descriptors; \<^verbatim>\<open>pipe\<close>, \<^verbatim>\<open>open\<close>, \<^verbatim>\<open>dup2\<close> and \<^verbatim>\<open>close\<close> act on it as POSIX says (a new descriptor
  is the lowest free one). What the system decides (whether a file opens or a program starts,
  the process ids \<^verbatim>\<open>fork\<close> hands out, the outcome of \<^verbatim>\<open>setpgid\<close> and \<^verbatim>\<open>waitpid\<close>) is the argument
  \<open>sys\<close>. After a \<^verbatim>\<open>fork\<close> the model runs both sides: the child up to its \<^verbatim>\<open>execvp\<close> or \<^verbatim>\<open>exit\<close>, and
  the shell.
\<close>

section \<open>File descriptors\<close>

datatype open_mode = O_RDONLY | O_APPEND | O_TRUNC

datatype open_file =
    Inherited nat
  | PipeRead nat
  | PipeWrite nat
  | Opened string open_mode

type_synonym fd_table = "open_file option list"

definition fd_new :: "open_file \<Rightarrow> fd_table \<Rightarrow> (nat \<times> fd_table) option" where
  "fd_new f fds = map_option (\<lambda>i. (i, fds[i := Some f])) (first_index (\<lambda>x. x = None) fds)"

definition fd_dup2 :: "nat \<Rightarrow> nat \<Rightarrow> fd_table \<Rightarrow> fd_table option" where
  "fd_dup2 old new fds =
     (if old < length fds \<and> new < length fds \<and> fds ! old \<noteq> None then Some (fds[new := fds ! old]) else None)"

definition fd_close :: "nat \<Rightarrow> fd_table \<Rightarrow> fd_table" where
  "fd_close i fds = fds[i := None]"

text \<open>The pipe number \<open>k\<close>: read end first, as \<^verbatim>\<open>pipe\<close> fills its array.\<close>

definition fd_pipe :: "nat \<Rightarrow> fd_table \<Rightarrow> (nat \<times> nat \<times> fd_table) option" where
  "fd_pipe k fds =
     (case fd_new (PipeRead k) fds of
        None \<Rightarrow> None
      | Some (r, fds1) \<Rightarrow> map_option (\<lambda>(w, fds2). (r, w, fds2)) (fd_new (PipeWrite k) fds1))"

datatype setpgid_result = SetpgidOk | SetpgidAccess | SetpgidError

datatype wait_result = WaitOk | WaitChild | WaitError

record sys =
  sys_open :: "string \<Rightarrow> open_mode \<Rightarrow> bool"
  sys_exec :: "string \<Rightarrow> bool"
  sys_setpgid_child :: "int \<Rightarrow> int \<Rightarrow> bool"
  sys_setpgid_parent :: "int \<Rightarrow> int \<Rightarrow> setpgid_result"
  sys_waitpid :: "int \<Rightarrow> wait_result"

section \<open>Redirections, in the child\<close>

text \<open>
  Opening a file and moving it to descriptor \<open>target\<close>. The left values are the reports of the
  calls that failed; the child then exits with status 1.
\<close>

definition open_onto :: "sys \<Rightarrow> string \<Rightarrow> open_mode \<Rightarrow> nat \<Rightarrow> fd_table \<Rightarrow> event + fd_table" where
  "open_onto sys path mode target fds =
     (case if sys_open sys path mode then fd_new (Opened path mode) fds else None of
        None \<Rightarrow> Inl (Perror path)
      | Some (fd, fds1) \<Rightarrow>
          (case fd_dup2 fd target fds1 of
             None \<Rightarrow> Inl (Perror ''dup2'')
           | Some fds2 \<Rightarrow> Inr (fd_close fd fds2)))"

definition redirect_input :: "sys \<Rightarrow> Command \<Rightarrow> bool \<Rightarrow> fd_table \<Rightarrow> event + fd_table" where
  "redirect_input sys cmd background fds =
     (case cmd_input cmd of
        Some path \<Rightarrow> open_onto sys path O_RDONLY 0 fds
      | None \<Rightarrow> if background then open_onto sys ''/dev/null'' O_RDONLY 0 fds else Inr fds)"

definition redirect_output :: "sys \<Rightarrow> Command \<Rightarrow> fd_table \<Rightarrow> event + fd_table" where
  "redirect_output sys cmd fds =
     (case cmd_output cmd of
        None \<Rightarrow> Inr fds
      | Some path \<Rightarrow> open_onto sys path (if cmd_append cmd \<noteq> 0 then O_APPEND else O_TRUNC) 1 fds)"

text \<open>How a child ends its part of the code: running a program, exiting, or faulting in \<^verbatim>\<open>execvp(NULL)\<close>.\<close>

datatype child =
    Exec string "string option list" fd_table
  | Exit1 event
  | Crash

definition exec_child :: "sys \<Rightarrow> Command \<Rightarrow> fd_table \<Rightarrow> child" where
  "exec_child sys cmd fds =
     (case cmd_argv cmd ! 0 of
        None \<Rightarrow> Crash
      | Some prog \<Rightarrow> if sys_exec sys prog then Exec prog (cmd_argv cmd) fds else Exit1 (Perror ''execvp''))"

definition redirect_and_exec :: "sys \<Rightarrow> Command \<Rightarrow> bool \<Rightarrow> fd_table \<Rightarrow> child" where
  "redirect_and_exec sys cmd background fds =
     (case redirect_input sys cmd background fds of
        Inl e \<Rightarrow> Exit1 e
      | Inr fds1 \<Rightarrow>
          (case redirect_output sys cmd fds1 of
             Inl e \<Rightarrow> Exit1 e
           | Inr fds2 \<Rightarrow> exec_child sys cmd fds2))"

section \<open>Command strings for the job table\<close>

text \<open>\<^verbatim>\<open>strcat\<close> into a heap block of \<open>cap\<close> bytes.\<close>

definition heap_strcat :: "nat \<Rightarrow> string \<Rightarrow> string \<Rightarrow> string res" where
  "heap_strcat cap s t = (if length s + length t < cap then Inr (s @ t) else Inl BufferOverflow)"

primrec heap_strcats :: "nat \<Rightarrow> string list \<Rightarrow> string \<Rightarrow> string res" where
  "heap_strcats cap [] s = Inr s"
| "heap_strcats cap (t # ts) s =
     (case heap_strcat cap s t of Inl f \<Rightarrow> Inl f | Inr s' \<Rightarrow> heap_strcats cap ts s')"

abbreviation is_background :: "Command \<Rightarrow> bool" where
  "is_background cmd \<equiv> cmd_background cmd \<noteq> 0"

definition command_size :: "Command \<Rightarrow> nat" where
  "command_size cmd =
     sum_list (map (\<lambda>a. case a of Some s \<Rightarrow> length s + 1 | None \<Rightarrow> 0) (take (cmd_argc cmd) (cmd_argv cmd)))"

definition command_string_size :: "Pipeline \<Rightarrow> nat" where
  "command_string_size p =
     1 + sum_list (map (\<lambda>i. command_size (commands p ! i) + (if i < command_count p - 1 then 3 else 0))
           [0..<command_count p]) +
     (if is_background (commands p ! (command_count p - 1)) then 3 else 0)"

text \<open>One round of the inner loop of \<^verbatim>\<open>build_command_string\<close>; \<open>s\<close> is the text so far.\<close>

definition add_arg :: "nat \<Rightarrow> string option \<Rightarrow> string \<Rightarrow> string res" where
  "add_arg cap a s =
     (case a of
        None \<Rightarrow> Inr s
      | Some v \<Rightarrow> heap_strcats cap ((if s \<noteq> [] then ['' ''] else []) @ [v]) s)"

primrec add_args :: "nat \<Rightarrow> string option list \<Rightarrow> string \<Rightarrow> string res" where
  "add_args cap [] s = Inr s"
| "add_args cap (a # as) s =
     (case add_arg cap a s of Inl f \<Rightarrow> Inl f | Inr s' \<Rightarrow> add_args cap as s')"

primrec add_commands :: "nat \<Rightarrow> nat \<Rightarrow> Pipeline \<Rightarrow> nat list \<Rightarrow> string \<Rightarrow> string res" where
  "add_commands cap n p [] s = Inr s"
| "add_commands cap n p (i # is) s =
     (case add_args cap (take (cmd_argc (commands p ! i)) (cmd_argv (commands p ! i))) s of
        Inl f \<Rightarrow> Inl f
      | Inr s1 \<Rightarrow>
          (case heap_strcats cap (if i < n - 1 then ['' | ''] else []) s1 of
             Inl f \<Rightarrow> Inl f
           | Inr s2 \<Rightarrow> add_commands cap n p is s2))"

definition build_command_string :: "Pipeline option \<Rightarrow> allocs \<Rightarrow> (string option \<times> allocs) res" where
  "build_command_string pipeline as =
     (case pipeline of
        None \<Rightarrow> Inr (None, as)
      | Some p \<Rightarrow>
          if command_count p = 0 then Inl OutOfBounds
          else (case malloc_ok as of (ok, as') \<Rightarrow>
             if \<not> ok then Inr (None, as')
             else let cap = command_string_size p; n = command_count p in
               (case add_commands cap n p [0..<n] [] of
                  Inl f \<Rightarrow> Inl f
                | Inr s \<Rightarrow>
                    (case heap_strcats cap (if is_background (commands p ! (n - 1)) then ['' &''] else []) s of
                       Inl f \<Rightarrow> Inl f
                     | Inr s' \<Rightarrow> Inr (Some s', as')))))"

section \<open>Running one command\<close>

text \<open>
  The shell as the executor sees it: its descriptors, the job table, the allocator, the events so
  far, the process ids that \<^verbatim>\<open>fork\<close> will return (negative: it fails; it fails too when there are
  no more), the children started with what became of them, the processes waited for, and the
  number of the next pipe.
\<close>

record exec_state =
  ex_fds :: fd_table
  ex_jobs :: JobTable
  ex_allocs :: allocs
  ex_events :: "event list"
  ex_forks :: "int list"
  ex_children :: "(int \<times> child) list"
  ex_waited :: "int list"
  ex_pipes :: nat

definition emit :: "event list \<Rightarrow> exec_state \<Rightarrow> exec_state" where
  "emit es st = st\<lparr>ex_events := ex_events st @ es\<rparr>"

definition next_fork :: "exec_state \<Rightarrow> int \<times> exec_state" where
  "next_fork st = (case ex_forks st of [] \<Rightarrow> (-1, st) | pid # pids \<Rightarrow> (pid, st\<lparr>ex_forks := pids\<rparr>))"

definition add_child :: "int \<Rightarrow> child \<Rightarrow> exec_state \<Rightarrow> exec_state" where
  "add_child pid c st = st\<lparr>ex_children := ex_children st @ [(pid, c)]\<rparr>"

definition parent_setpgid :: "sys \<Rightarrow> int \<Rightarrow> int \<Rightarrow> exec_state \<Rightarrow> exec_state" where
  "parent_setpgid sys pid pgid st =
     emit (if sys_setpgid_parent sys pid pgid = SetpgidError then [Perror ''setpgid''] else []) st"

text \<open>Entering a background job with its text and announcing it.\<close>

definition announce_job :: "int \<Rightarrow> string \<Rightarrow> exec_state \<Rightarrow> exec_state" where
  "announce_job pgid text st =
     (case job_add pgid JOB_RUNNING (Some text) (ex_jobs st) (ex_allocs st) of (jid, jobs, es, as) \<Rightarrow>
        emit (es @ (if jid > 0 then [Stdout (''['' @ dec_int jid @ ''] '' @ dec_int pgid @ [newline])] else []))
          (st\<lparr>ex_jobs := jobs, ex_allocs := as\<rparr>))"

primrec strings :: "string option list \<Rightarrow> string list res" where
  "strings [] = Inr []"
| "strings (a # as) =
     (case a of
        None \<Rightarrow> Inl NullDeref
      | Some s \<Rightarrow> (case strings as of Inl f \<Rightarrow> Inl f | Inr ss \<Rightarrow> Inr (s # ss)))"

text \<open>
  The text of a single background command, in a block of \<^verbatim>\<open>strlen(argv[0]) + 64\<close> bytes: the
  arguments with a space before each but the first, then the ampersand.
\<close>

definition single_pieces :: "string list \<Rightarrow> string list" where
  "single_pieces ws = (case ws of [] \<Rightarrow> [] | w # ws' \<Rightarrow> w # concat (map (\<lambda>v. ['' '', v]) ws')) @ ['' &'']"

definition single_command_string :: "Command \<Rightarrow> string \<Rightarrow> string res" where
  "single_command_string cmd prog =
     (case strings (take (cmd_argc cmd) (cmd_argv cmd)) of
        Inl f \<Rightarrow> Inl f
      | Inr ws \<Rightarrow> heap_strcats (length prog + 64) (single_pieces ws) [])"

definition start_background :: "sys \<Rightarrow> Command \<Rightarrow> string \<Rightarrow> int \<Rightarrow> exec_state \<Rightarrow> (int \<times> exec_state) res" where
  "start_background sys cmd prog pid st =
     (let st1 = parent_setpgid sys pid pid st in
      case malloc_ok (ex_allocs st1) of (ok, as) \<Rightarrow>
        let st2 = st1\<lparr>ex_allocs := as\<rparr> in
        if \<not> ok then Inr (0, st2)
        else (case single_command_string cmd prog of
            Inl f \<Rightarrow> Inl f
          | Inr text \<Rightarrow> Inr (0, announce_job pid text st2)))"

definition execute_command :: "sys \<Rightarrow> Command option \<Rightarrow> exec_state \<Rightarrow> (int \<times> exec_state) res" where
  "execute_command sys cmd_ptr st =
     (case cmd_ptr of
        None \<Rightarrow> Inr (0, st)
      | Some cmd \<Rightarrow>
          if cmd_argc cmd = 0 then Inr (0, st)
          else (case cmd_argv cmd ! 0 of
              None \<Rightarrow> Inr (0, st)
            | Some prog \<Rightarrow>
                (case next_fork st of (pid, st1) \<Rightarrow>
                   if pid < 0 then Inr (-1, emit [Perror ''fork''] st1)
                   else
                     let c = (if is_background cmd \<and> \<not> sys_setpgid_child sys pid pid
                              then Exit1 (Perror ''setpgid'')
                              else redirect_and_exec sys cmd (is_background cmd) (ex_fds st1));
                         st2 = add_child pid c st1 in
                     if is_background cmd then start_background sys cmd prog pid st2
                     else let st3 = st2\<lparr>ex_waited := ex_waited st2 @ [pid]\<rparr> in
                       if sys_waitpid sys pid \<noteq> WaitOk then Inr (-1, emit [Perror ''waitpid''] st3)
                       else Inr (0, st3))))"

section \<open>Running a pipeline\<close>

text \<open>
  The child for command \<open>i\<close>: \<open>prev\<close> is \<^verbatim>\<open>previous_read\<close>, \<open>pfd\<close> the new pipe (there is none for the
  last command), \<open>pgid\<close> the group (0: its own). Descriptors are closed as in the source.
\<close>

definition close_opt :: "nat option \<Rightarrow> fd_table \<Rightarrow> fd_table" where
  "close_opt fd fds = (case fd of None \<Rightarrow> fds | Some i \<Rightarrow> fd_close i fds)"

definition dup_opt :: "nat option \<Rightarrow> nat \<Rightarrow> fd_table \<Rightarrow> fd_table option" where
  "dup_opt fd target fds = (case fd of None \<Rightarrow> Some fds | Some i \<Rightarrow> fd_dup2 i target fds)"

definition pipeline_child :: "sys \<Rightarrow> Command \<Rightarrow> bool \<Rightarrow> nat option \<Rightarrow> (nat \<times> nat) option \<Rightarrow> int \<Rightarrow> int \<Rightarrow>
    fd_table \<Rightarrow> child" where
  "pipeline_child sys cmd null_input prev pfd pgid pid fds =
     (if \<not> sys_setpgid_child sys pid (if pgid = 0 then pid else pgid) then Exit1 (Perror ''setpgid'')
      else (case dup_opt prev 0 fds of
          None \<Rightarrow> Exit1 (Perror ''dup2'')
        | Some fds1 \<Rightarrow>
            (case dup_opt (map_option snd pfd) 1 fds1 of
               None \<Rightarrow> Exit1 (Perror ''dup2'')
             | Some fds2 \<Rightarrow>
                 redirect_and_exec sys cmd null_input
                   (close_opt (map_option snd pfd) (close_opt (map_option fst pfd) (close_opt prev fds2))))))"

definition make_pipe :: "bool \<Rightarrow> exec_state \<Rightarrow> ((nat \<times> nat) option \<times> exec_state) option" where
  "make_pipe needed st =
     (if \<not> needed then Some (None, st)
      else (case fd_pipe (ex_pipes st) (ex_fds st) of
          None \<Rightarrow> None
        | Some (r, w, fds) \<Rightarrow> Some (Some (r, w), st\<lparr>ex_fds := fds, ex_pipes := Suc (ex_pipes st)\<rparr>)))"

definition after_fork :: "nat option \<Rightarrow> (nat \<times> nat) option \<Rightarrow> exec_state \<Rightarrow> exec_state" where
  "after_fork prev pfd st =
     st\<lparr>ex_fds := close_opt (map_option snd pfd) (close_opt prev (ex_fds st))\<rparr>"

text \<open>The loop over the commands: the result code, the group, the process ids, the shell.\<close>

primrec launch :: "sys \<Rightarrow> Pipeline \<Rightarrow> bool \<Rightarrow> nat list \<Rightarrow> nat option \<Rightarrow> int \<Rightarrow> int list \<Rightarrow> exec_state \<Rightarrow>
    int \<times> int \<times> int list \<times> exec_state" where
  "launch sys p background [] prev pgid pids st = (0, pgid, pids, st)"
| "launch sys p background (i # is) prev pgid pids st =
     (case make_pipe (i < command_count p - 1) st of
        None \<Rightarrow> (-1, pgid, pids, emit [Perror ''pipe''] st)
      | Some (pfd, st1) \<Rightarrow>
          (case next_fork st1 of (pid, st2) \<Rightarrow>
             if pid < 0 then (-1, pgid, pids, emit [Perror ''fork''] st2)
             else
               let c = pipeline_child sys (commands p ! i) (background \<and> i = 0) prev pfd pgid pid (ex_fds st2);
                   pgid' = (if pgid = 0 then pid else pgid);
                   st3 = after_fork prev pfd (parent_setpgid sys pid pgid' (add_child pid c st2)) in
               launch sys p background is (if pfd = None then prev else map_option fst pfd) pgid' (pids @ [pid]) st3))"

primrec wait_all :: "sys \<Rightarrow> int list \<Rightarrow> exec_state \<Rightarrow> exec_state" where
  "wait_all sys [] st = st"
| "wait_all sys (pid # pids) st =
     wait_all sys pids
       (emit (if sys_waitpid sys pid = WaitError then [Perror ''waitpid''] else [])
         (st\<lparr>ex_waited := ex_waited st @ [pid]\<rparr>))"

definition finish_background :: "Pipeline \<Rightarrow> int \<Rightarrow> exec_state \<Rightarrow> exec_state res" where
  "finish_background p pgid st =
     (case build_command_string (Some p) (ex_allocs st) of
        Inl f \<Rightarrow> Inl f
      | Inr (None, as) \<Rightarrow> Inr (st\<lparr>ex_allocs := as\<rparr>)
      | Inr (Some text, as) \<Rightarrow> Inr (announce_job pgid text (st\<lparr>ex_allocs := as\<rparr>)))"

definition execute_pipeline :: "sys \<Rightarrow> Pipeline option \<Rightarrow> exec_state \<Rightarrow> (int \<times> exec_state) res" where
  "execute_pipeline sys pipeline st =
     (case pipeline of
        None \<Rightarrow> Inr (-1, st)
      | Some p \<Rightarrow>
          if command_count p = 0 then Inr (-1, st)
          else if command_count p = 1 then execute_command sys (Some (commands p ! 0)) st
          else
            let background = is_background (commands p ! (command_count p - 1)) in
            (case malloc_ok (ex_allocs st) of (ok, as) \<Rightarrow>
               let st1 = st\<lparr>ex_allocs := as\<rparr> in
               if \<not> ok then Inr (-1, emit [Perror ''malloc''] st1)
               else (case launch sys p background [0..<command_count p] None 0 [] st1 of (rc, pgid, pids, st2) \<Rightarrow>
                   if rc \<noteq> 0 then Inr (-1, st2)
                   else if background then
                     (case finish_background p pgid st2 of Inl f \<Rightarrow> Inl f | Inr st3 \<Rightarrow> Inr (0, st3))
                   else Inr (0, wait_all sys pids st2))))"

section \<open>The command strings\<close>

lemma heap_strcats_eq:
  "heap_strcats cap ts s =
     (if ts = [] \<or> length s + length (concat ts) < cap then Inr (s @ concat ts) else Inl BufferOverflow)"
  by (induction ts arbitrary: s) (auto simp: heap_strcat_def)

text \<open>The text the loops build from the words of the commands.\<close>

fun glue :: "string \<Rightarrow> string \<Rightarrow> string" where
  "glue s w = (if s \<noteq> [] then s @ '' '' @ w else w)"

fun render :: "string \<Rightarrow> string list list \<Rightarrow> string" where
  "render s [] = s"
| "render s [ws] = foldl glue s ws"
| "render s (ws # wss) = render (foldl glue s ws @ '' | '') wss"

definition words_size :: "string list \<Rightarrow> nat" where
  "words_size ws = sum_list (map (\<lambda>w. length w + 1) ws)"

lemma add_args_glue:
  assumes "length s + words_size ws < cap"
  shows "add_args cap (map Some ws) s = Inr (foldl glue s ws) \<and>
    length (foldl glue s ws) \<le> length s + words_size ws"
  using assms
proof (induction ws arbitrary: s)
  case Nil
  then show ?case by (simp add: words_size_def)
next
  case (Cons w ws)
  have fits: "length s + length w + 1 + words_size ws < cap" using Cons.prems by (simp add: words_size_def)
  have g: "length (glue s w) \<le> length s + length w + 1" by simp
  have "add_arg cap (Some w) s = Inr (glue s w)" using fits by (simp add: add_arg_def heap_strcats_eq)
  moreover have "length (glue s w) + words_size ws < cap" using g fits by linarith
  from Cons.IH [OF this] g have "add_args cap (map Some ws) (glue s w) = Inr (foldl glue (glue s w) ws)"
    "length (foldl glue (glue s w) ws) \<le> length s + length w + 1 + words_size ws" by linarith+
  ultimately show ?case by (simp add: words_size_def del: glue.simps)
qed

lemma words_of_command:
  assumes "command_wf cmd"
  shows "take (cmd_argc cmd) (cmd_argv cmd) = map Some (args (abs_command cmd))"
  using assms by (intro nth_equalityI) (auto simp: command_wf_nth abs_command_def)

lemma command_size_words: "command_wf cmd \<Longrightarrow> command_size cmd = words_size (args (abs_command cmd))"
  by (simp add: command_size_def words_of_command words_size_def o_def)

definition render_size :: "string list list \<Rightarrow> nat" where
  "render_size wss = sum_list (map words_size wss) + 3 * (length wss - 1)"

lemma pipeline_wf_command: "pipeline_wf p \<Longrightarrow> i < command_count p \<Longrightarrow> command_wf (commands p ! i)"
  by (auto simp: pipeline_wf_def list_all_length)

text \<open>The words of the commands from number \<open>k\<close> on.\<close>

definition words_from :: "Pipeline \<Rightarrow> nat \<Rightarrow> string list list" where
  "words_from p k = map (\<lambda>i. args (abs_command (commands p ! i))) [k..<command_count p]"

lemma words_from_Cons:
  "k < command_count p \<Longrightarrow> words_from p k = args (abs_command (commands p ! k)) # words_from p (Suc k)"
  by (simp add: words_from_def upt_conv_Cons)

lemma words_from_0:
  "pipeline_wf p \<Longrightarrow> words_from p 0 = map args (abs_pipeline p)"
  by (intro nth_equalityI) (auto simp: words_from_def abs_pipeline_def pipeline_wf_def)

lemma add_commands_render:
  assumes wf: "pipeline_wf p" and "k < command_count p"
    and "length s + render_size (words_from p k) < cap"
  shows "add_commands cap (command_count p) p [k..<command_count p] s = Inr (render s (words_from p k)) \<and>
    length (render s (words_from p k)) \<le> length s + render_size (words_from p k)"
  using assms(2-)
proof (induction "command_count p - k" arbitrary: k s)
  case 0
  then show ?case by simp
next
  case (Suc m)
  let ?ws = "args (abs_command (commands p ! k))"
  have cons: "[k..<command_count p] = k # [Suc k..<command_count p]" using Suc.prems by (simp add: upt_conv_Cons)
  note w = words_from_Cons [OF Suc.prems(1)]
  note words = words_of_command [OF pipeline_wf_command [OF wf Suc.prems(1)]]
  have "length s + words_size ?ws < cap" using Suc.prems(2) by (simp add: w render_size_def)
  note a = add_args_glue [OF this]
  show ?case
  proof (cases "Suc k < command_count p")
    case False
    then have "words_from p (Suc k) = []" "[Suc k..<command_count p] = []" "\<not> k < command_count p - 1"
      by (simp_all add: words_from_def)
    then show ?thesis using a by (simp add: cons w words heap_strcats_eq render_size_def)
  next
    case True
    then obtain v vs where vs: "words_from p (Suc k) = v # vs" using words_from_Cons by blast
    have size: "render_size (words_from p k) = words_size ?ws + 3 + render_size (words_from p (Suc k))"
      by (simp add: w vs render_size_def)
    have "length (foldl glue s ?ws @ '' | '') + render_size (words_from p (Suc k)) < cap"
      using Suc.prems(2) a size by simp
    with Suc.hyps(1) [of "Suc k" "foldl glue s ?ws @ '' | ''"] Suc.hyps(2) True
    have IH: "add_commands cap (command_count p) p [Suc k..<command_count p] (foldl glue s ?ws @ '' | '') =
        Inr (render (foldl glue s ?ws @ '' | '') (words_from p (Suc k)))"
      "length (render (foldl glue s ?ws @ '' | '') (words_from p (Suc k))) \<le>
        length (foldl glue s ?ws @ '' | '') + render_size (words_from p (Suc k))"
      by (auto simp del: length_append)
    have "length (foldl glue s ?ws) + 3 < cap" "k < command_count p - 1"
      using Suc.prems(2) a size True by linarith+
    moreover have "render s (words_from p k) = render (foldl glue s ?ws @ '' | '') (words_from p (Suc k))"
      by (simp add: w vs)
    ultimately show ?thesis using IH a size by (simp add: cons words heap_strcats_eq)
  qed
qed

lemma sum_list_pipes:
  "sum_list (map (\<lambda>i. f i + (if i < n - 1 then 3 else (0::nat))) [0..<n]) = sum_list (map f [0..<n]) + 3 * (n - 1)"
proof (cases n)
  case (Suc m)
  have "sum_list (map (\<lambda>i. f i + (if i < m then 3 else 0)) [0..<k]) = sum_list (map f [0..<k]) + 3 * k" if "k \<le> m" for k
    using that by (induction k) auto
  with Suc show ?thesis by simp
qed simp

lemma command_string_size_eq:
  assumes "pipeline_wf p"
  shows "command_string_size p = 1 + render_size (words_from p 0) +
    (if is_background (commands p ! (command_count p - 1)) then 3 else 0)"
proof -
  have "map (\<lambda>i. command_size (commands p ! i)) [0..<command_count p] = map words_size (words_from p 0)"
    by (auto simp: words_from_def command_size_words pipeline_wf_command [OF assms])
  then have "sum_list (map (\<lambda>i. command_size (commands p ! i)) [0..<command_count p]) =
      sum_list (map words_size (words_from p 0))" by (rule arg_cong)
  moreover have "length (words_from p 0) = command_count p" by (simp add: words_from_def)
  ultimately show ?thesis
    unfolding command_string_size_def sum_list_pipes render_size_def by simp
qed

text \<open>The block of \<^verbatim>\<open>build_command_string\<close> is large enough, whatever the arguments are.\<close>

lemma build_command_string_fits:
  assumes wf: "pipeline_wf p" and n: "0 < command_count p"
  shows "build_command_string (Some p) as =
    Inr (if fst (malloc_ok as)
         then Some (render [] (map args (abs_pipeline p)) @
                (if is_background (commands p ! (command_count p - 1)) then '' &'' else []))
         else None, snd (malloc_ok as))"
proof -
  let ?b = "is_background (commands p ! (command_count p - 1))"
  have "length ([] :: string) + render_size (words_from p 0) < command_string_size p"
    by (simp add: command_string_size_eq [OF wf])
  from add_commands_render [OF wf n this]
  have "add_commands (command_string_size p) (command_count p) p [0..<command_count p] [] =
      Inr (render [] (words_from p 0))"
    and "length (render [] (words_from p 0)) \<le> render_size (words_from p 0)" by simp_all
  then show ?thesis
    using n by (auto simp: build_command_string_def Let_def heap_strcats_eq command_string_size_eq [OF wf]
        words_from_0 [OF wf, symmetric] split: prod.splits)
qed

lemma glue_join: "s \<noteq> [] \<Longrightarrow> foldl glue s ws = s @ (if ws = [] then [] else '' '' @ join '' '' ws)"
proof (induction ws arbitrary: s)
  case (Cons w ws)
  then have "foldl glue (glue s w) ws = glue s w @ (if ws = [] then [] else '' '' @ join '' '' ws)"
    by (intro Cons.IH) simp
  then show ?case using Cons.prems by (cases ws) (simp_all del: glue.simps add: glue.simps [of s w])
qed simp

lemma glue_join_first: "ws \<noteq> [] \<Longrightarrow> hd ws \<noteq> [] \<Longrightarrow> foldl glue [] ws = join '' '' ws"
  by (cases ws; cases "tl ws") (simp_all add: glue_join join_Cons)

lemma join_not_Nil: "ws \<noteq> [] \<Longrightarrow> hd ws \<noteq> [] \<Longrightarrow> join sep ws \<noteq> []"
  by (cases ws; cases "tl ws") auto

lemma render_more:
  "s \<noteq> [] \<Longrightarrow> wss \<noteq> [] \<Longrightarrow> list_all (\<lambda>ws. ws \<noteq> []) wss \<Longrightarrow>
   render s wss = s @ '' '' @ join '' |  '' (map (join '' '') wss)"
  by (induction s wss rule: render.induct) (auto simp: glue_join)

text \<open>The text is the commands with their words, and two spaces after each pipe.\<close>

lemma render_text:
  assumes "wss \<noteq> []" "list_all (\<lambda>ws. ws \<noteq> []) wss" "hd (hd wss) \<noteq> []"
  shows "render [] wss = join '' |  '' (map (join '' '') wss)"
proof (cases wss)
  case (Cons ws rest)
  then show ?thesis
    using assms glue_join_first [of ws] render_more [of "join '' '' ws @ '' | ''" rest] by (cases rest) auto
qed (use assms in simp)

text \<open>The block of a single background command is not: the exact condition.\<close>

lemma strings_map_Some [simp]: "strings (map Some ws) = Inr ws"
  by (induction ws) auto

lemma concat_single_pieces: "ws \<noteq> [] \<Longrightarrow> concat (single_pieces ws) = join '' '' ws @ '' &''"
proof (induction ws)
  case (Cons w ws)
  then show ?case by (cases ws) (auto simp: single_pieces_def)
qed simp

lemma single_command_string_eq:
  assumes "command_wf cmd" "args (abs_command cmd) = prog # ws"
  shows "single_command_string cmd prog =
    (if length (join '' '' (prog # ws)) + 2 < length prog + 64 then Inr (join '' '' (prog # ws) @ '' &'')
     else Inl BufferOverflow)"
proof -
  have "single_pieces (prog # ws) \<noteq> []" by (simp add: single_pieces_def)
  then show ?thesis
    using assms concat_single_pieces [of "prog # ws"]
    by (simp add: single_command_string_def words_of_command heap_strcats_eq)
qed

section \<open>Descriptors of a pipeline\<close>

definition free_slots :: "fd_table \<Rightarrow> nat" where
  "free_slots fds = length (filter (\<lambda>x. x = None) fds)"

definition std_open :: "fd_table \<Rightarrow> bool" where
  "std_open fds \<longleftrightarrow> 3 \<le> length fds \<and> (\<forall>i < 3. fds ! i \<noteq> None)"

lemma free_slots_update:
  "i < length fds \<Longrightarrow> fds ! i = None \<Longrightarrow> Suc (free_slots (fds[i := Some f])) = free_slots fds"
proof (induction fds arbitrary: i)
  case (Cons x fds)
  then show ?case by (cases i) (auto simp: free_slots_def)
qed simp

lemma fd_new_works:
  assumes "0 < free_slots fds"
  obtains i where "fd_new f fds = Some (i, fds[i := Some f])" "i < length fds" "fds ! i = None"
    "Suc (free_slots (fds[i := Some f])) = free_slots fds"
proof (cases "first_index (\<lambda>x. x = None) fds")
  case None
  then have "filter (\<lambda>x. x = None) fds = []" by (simp add: first_index_None filter_empty_conv)
  with assms show thesis by (simp add: free_slots_def)
next
  case (Some i)
  with that [of i] show thesis
    using first_index_SomeD [OF Some] free_slots_update [of i fds f] by (simp add: fd_new_def)
qed

lemma std_open_update: "std_open fds \<Longrightarrow> std_open (fds[i := Some f])"
  by (cases "i < length fds") (auto simp: std_open_def nth_list_update)

lemma std_open_free: "std_open fds \<Longrightarrow> fds ! i = None \<Longrightarrow> 3 \<le> i"
  by (meson linorder_not_less std_open_def)

lemma fd_pipe_works:
  assumes "2 \<le> free_slots fds"
  obtains r w where "fd_pipe k fds = Some (r, w, fds[r := Some (PipeRead k), w := Some (PipeWrite k)])"
    "r < length fds" "w < length fds" "fds ! r = None" "fds ! w = None" "r \<noteq> w"
proof -
  from assms have "0 < free_slots fds" by simp
  then obtain r where r: "fd_new (PipeRead k) fds = Some (r, fds[r := Some (PipeRead k)])" "r < length fds"
    "fds ! r = None" "Suc (free_slots (fds[r := Some (PipeRead k)])) = free_slots fds" by (rule fd_new_works)
  with assms have "0 < free_slots (fds[r := Some (PipeRead k)])" by simp
  then obtain w where w: "fd_new (PipeWrite k) (fds[r := Some (PipeRead k)]) =
      Some (w, fds[r := Some (PipeRead k), w := Some (PipeWrite k)])" "w < length fds"
    "fds[r := Some (PipeRead k)] ! w = None" by (rule fd_new_works) simp
  from w(3) r(2) have "r \<noteq> w" by auto
  with w(3) have "fds ! w = None" by simp
  with r w \<open>r \<noteq> w\<close> show thesis by (intro that [of r w]) (simp_all add: fd_pipe_def)
qed

text \<open>
  While command \<open>i\<close> is being started the shell holds, besides its own descriptors \<open>fds0\<close>, at most
  the read end of the previous pipe. \<open>prev_ok\<close> says so.
\<close>

definition prev_ok :: "fd_table \<Rightarrow> nat option \<Rightarrow> open_file option \<Rightarrow> fd_table \<Rightarrow> bool" where
  "prev_ok fds0 prev src fds \<longleftrightarrow>
     (case prev of
        None \<Rightarrow> fds = fds0 \<and> src = fds0 ! 0
      | Some r \<Rightarrow> r < length fds0 \<and> fds0 ! r = None \<and> src \<noteq> None \<and> fds = fds0[r := src])"

text \<open>What the child of a command gets: its standard input and output, and nothing else.\<close>

definition wired :: "fd_table \<Rightarrow> open_file option \<Rightarrow> open_file option \<Rightarrow> fd_table" where
  "wired fds0 src dst = fds0[0 := src, 1 := dst]"

lemma pipeline_child_last:
  assumes std: "std_open fds0" and prev: "prev_ok fds0 prev src fds"
    and grp: "sys_setpgid_child sys pid (if pgid = 0 then pid else pgid)"
  shows "pipeline_child sys cmd b prev None pgid pid fds = redirect_and_exec sys cmd b (wired fds0 src (fds0 ! 1))"
    and "close_opt prev fds = fds0"
proof -
  have len: "3 \<le> length fds0" "fds0 \<noteq> []" using std by (auto simp: std_open_def)
  show "pipeline_child sys cmd b prev None pgid pid fds = redirect_and_exec sys cmd b (wired fds0 src (fds0 ! 1))"
  proof (cases prev)
    case None
    then show ?thesis using prev grp
      by (simp add: pipeline_child_def prev_ok_def dup_opt_def close_opt_def wired_def)
  next
    case (Some r)
    then have r: "r < length fds0" "fds0 ! r = None" "src \<noteq> None" "fds = fds0[r := src]"
      using prev by (simp_all add: prev_ok_def)
    have "3 \<le> r" using std_open_free [OF std r(2)] .
    then have "fds[0 := src, r := None] = wired fds0 src (fds0 ! 1)"
      using r len by (intro nth_equalityI) (auto simp: nth_update_if wired_def)
    then show ?thesis
      using Some r grp len by (simp add: pipeline_child_def dup_opt_def fd_dup2_def close_opt_def fd_close_def)
  qed
  show "close_opt prev fds = fds0"
    using prev by (auto simp: prev_ok_def close_opt_def fd_close_def list_update_same_conv split: option.splits)
qed

lemma pipeline_child_inner:
  fixes k :: nat
  assumes std: "std_open fds0" and prev: "prev_ok fds0 prev src fds"
    and grp: "sys_setpgid_child sys pid (if pgid = 0 then pid else pgid)"
    and pfd: "r < length fds" "w < length fds" "fds ! r = None" "fds ! w = None" "r \<noteq> w"
  defines "fds1 \<equiv> fds[r := Some (PipeRead k), w := Some (PipeWrite k)]"
  shows "pipeline_child sys cmd b prev (Some (r, w)) pgid pid fds1 =
      redirect_and_exec sys cmd b (wired fds0 src (Some (PipeWrite k)))"
    and "prev_ok fds0 (Some r) (Some (PipeRead k)) (close_opt (Some w) (close_opt prev fds1))"
proof -
  have len: "3 \<le> length fds0" "length fds = length fds0" "fds0 \<noteq> []"
    using std prev by (auto simp: std_open_def prev_ok_def split: option.splits)
  have low: "fds0 ! r = None" "fds0 ! w = None" "\<And>q. prev = Some q \<Longrightarrow> q \<noteq> r \<and> q \<noteq> w \<and> q < length fds0 \<and>
      fds0 ! q = None \<and> fds = fds0[q := src] \<and> fds ! q = src \<and> src \<noteq> None"
    using prev pfd by (auto simp: prev_ok_def nth_update_if split: option.splits if_splits)
  note ge = std_open_free [OF std low(1)] std_open_free [OF std low(2)]
  have none: "prev = None \<Longrightarrow> fds = fds0 \<and> src = fds0 ! 0" using prev by (simp add: prev_ok_def)
  show "pipeline_child sys cmd b prev (Some (r, w)) pgid pid fds1 =
      redirect_and_exec sys cmd b (wired fds0 src (Some (PipeWrite k)))"
  proof (cases prev)
    case None
    have "fds1[1 := Some (PipeWrite k), r := None, w := None] = wired fds0 src (Some (PipeWrite k))"
      using none [OF None] low(1,2) ge len
      by (intro nth_equalityI) (auto simp: nth_update_if wired_def fds1_def)
    then show ?thesis
      using None grp len pfd ge by (simp add: pipeline_child_def dup_opt_def fd_dup2_def close_opt_def fd_close_def fds1_def)
  next
    case (Some q)
    note q = low(3) [OF Some]
    have "3 \<le> q" using std_open_free [OF std] q by blast
    moreover from this have "fds1[0 := src, 1 := Some (PipeWrite k), q := None, r := None, w := None] =
        wired fds0 src (Some (PipeWrite k))"
      using q low(1,2) ge len by (intro nth_equalityI) (auto simp: nth_update_if wired_def fds1_def)
    ultimately show ?thesis
      using Some grp len pfd q ge
      by (simp add: pipeline_child_def dup_opt_def fd_dup2_def close_opt_def fd_close_def fds1_def)
  qed
  show "prev_ok fds0 (Some r) (Some (PipeRead k)) (close_opt (Some w) (close_opt prev fds1))"
  proof (cases prev)
    case None
    then show ?thesis using none low pfd len
      by (auto simp: prev_ok_def close_opt_def fd_close_def fds1_def intro!: nth_equalityI simp: nth_update_if)
  next
    case (Some q)
    then show ?thesis using low(3) [OF Some] low(1,2) pfd len
      by (auto simp: prev_ok_def close_opt_def fd_close_def fds1_def intro!: nth_equalityI simp: nth_update_if)
  qed
qed

lemma prev_ok_free:
  assumes "prev_ok fds0 prev src fds" "3 \<le> free_slots fds0"
  shows "2 \<le> free_slots fds"
proof (cases prev)
  case (Some r)
  then obtain f where "r < length fds0" "fds0 ! r = None" "fds = fds0[r := Some f]"
    using assms(1) by (auto simp: prev_ok_def)
  with free_slots_update [of r fds0 f] assms(2) show ?thesis by simp
qed (use assms in \<open>simp add: prev_ok_def\<close>)

text \<open>The standard input and output that command \<open>i\<close> of \<open>n\<close> gets; \<open>k\<close> is the number of the first pipe.\<close>

definition stdin_of :: "fd_table \<Rightarrow> nat \<Rightarrow> nat \<Rightarrow> open_file option" where
  "stdin_of fds0 k i = (if i = 0 then fds0 ! 0 else Some (PipeRead (k + i - 1)))"

definition stdout_of :: "fd_table \<Rightarrow> nat \<Rightarrow> nat \<Rightarrow> nat \<Rightarrow> open_file option" where
  "stdout_of fds0 n k i = (if i < n - 1 then Some (PipeWrite (k + i)) else fds0 ! 1)"

definition expected_child :: "sys \<Rightarrow> Pipeline \<Rightarrow> bool \<Rightarrow> fd_table \<Rightarrow> nat \<Rightarrow> nat \<Rightarrow> child" where
  "expected_child sys p background fds0 k i =
     redirect_and_exec sys (commands p ! i) (background \<and> i = 0)
       (wired fds0 (stdin_of fds0 k i) (stdout_of fds0 (command_count p) k i))"

lemma ex_simps [simp]:
  "ex_fds (parent_setpgid sys a b st) = ex_fds st" "ex_children (parent_setpgid sys a b st) = ex_children st"
  "ex_forks (parent_setpgid sys a b st) = ex_forks st" "ex_pipes (parent_setpgid sys a b st) = ex_pipes st"
  "ex_waited (parent_setpgid sys a b st) = ex_waited st" "ex_jobs (parent_setpgid sys a b st) = ex_jobs st"
  "ex_allocs (parent_setpgid sys a b st) = ex_allocs st"
  "ex_fds (add_child pid c st) = ex_fds st" "ex_children (add_child pid c st) = ex_children st @ [(pid, c)]"
  "ex_forks (add_child pid c st) = ex_forks st" "ex_pipes (add_child pid c st) = ex_pipes st"
  "ex_waited (add_child pid c st) = ex_waited st" "ex_jobs (add_child pid c st) = ex_jobs st"
  "ex_allocs (add_child pid c st) = ex_allocs st"
  by (simp_all add: parent_setpgid_def emit_def add_child_def)

text \<open>One round of the loop, when a pipe is needed: the shell keeps its read end.\<close>

lemma launch_inner:
  assumes std: "std_open fds0" "3 \<le> free_slots fds0" and grp: "\<And>a b. sys_setpgid_child sys a b"
    and prev: "prev_ok fds0 prev (stdin_of fds0 k i) (ex_fds st)"
    and st: "ex_pipes st = k + i" "ex_forks st = pid # forks" "0 < pid" and i: "i < command_count p - 1"
  obtains r st' where "launch sys p b (i # is) prev pgid pids st =
      launch sys p b is (Some r) (if pgid = 0 then pid else pgid) (pids @ [pid]) st'"
    "prev_ok fds0 (Some r) (stdin_of fds0 k (Suc i)) (ex_fds st')" "ex_pipes st' = k + Suc i"
    "ex_forks st' = forks" "ex_waited st' = ex_waited st" "ex_jobs st' = ex_jobs st" "ex_allocs st' = ex_allocs st"
    "ex_children st' = ex_children st @ [(pid, expected_child sys p b fds0 k i)]"
proof -
  let ?g = "if pgid = 0 then pid else pgid"
  have "2 \<le> free_slots (ex_fds st)" using prev_ok_free [OF prev std(2)] .
  then obtain r w where
    pipe: "fd_pipe (k + i) (ex_fds st) = Some (r, w, (ex_fds st)[r := Some (PipeRead (k + i)), w := Some (PipeWrite (k + i))])"
    and rw: "r < length (ex_fds st)" "w < length (ex_fds st)" "ex_fds st ! r = None" "ex_fds st ! w = None" "r \<noteq> w"
    by (rule fd_pipe_works)
  note inner = pipeline_child_inner [where pgid = pgid and pid = pid and k = "k + i", OF std(1) prev grp rw]
  define st1 where "st1 = st\<lparr>ex_fds := (ex_fds st)[r := Some (PipeRead (k + i)), w := Some (PipeWrite (k + i))],
      ex_pipes := Suc (k + i), ex_forks := forks\<rparr>"
  define st' where "st' = after_fork prev (Some (r, w)) (parent_setpgid sys pid ?g
      (add_child pid (expected_child sys p b fds0 k i) st1))"
  have out: "stdout_of fds0 (command_count p) k i = Some (PipeWrite (k + i))" using i by (simp add: stdout_of_def)
  have next_in: "stdin_of fds0 k (Suc i) = Some (PipeRead (k + i))" by (simp add: stdin_of_def)
  have child: "pipeline_child sys (commands p ! i) (b \<and> i = 0) prev (Some (r, w)) pgid pid (ex_fds st1) =
      expected_child sys p b fds0 k i"
    using inner(1) by (simp add: st1_def expected_child_def out)
  have "launch sys p b (i # is) prev pgid pids st = launch sys p b is (Some r) ?g (pids @ [pid]) st'"
    using pipe st i child by (simp add: make_pipe_def next_fork_def st1_def st'_def Let_def)
  moreover have "prev_ok fds0 (Some r) (stdin_of fds0 k (Suc i)) (ex_fds st')"
    using inner(2) by (simp add: st'_def after_fork_def st1_def next_in)
  ultimately show thesis
    by (intro that [of r st']) (simp_all add: st'_def after_fork_def st1_def)
qed

lemma launch_last:
  assumes std: "std_open fds0" and grp: "\<And>a b. sys_setpgid_child sys a b"
    and prev: "prev_ok fds0 prev (stdin_of fds0 k i) (ex_fds st)"
    and st: "ex_forks st = [pid]" "0 < pid" and i: "Suc i = command_count p"
  obtains st' where "launch sys p b [i] prev pgid pids st = (0, if pgid = 0 then pid else pgid, pids @ [pid], st')"
    "ex_fds st' = fds0" "ex_waited st' = ex_waited st" "ex_jobs st' = ex_jobs st" "ex_allocs st' = ex_allocs st"
    "ex_children st' = ex_children st @ [(pid, expected_child sys p b fds0 k i)]"
proof -
  let ?g = "if pgid = 0 then pid else pgid"
  note last = pipeline_child_last [where pgid = pgid and pid = pid, OF std prev grp]
  define st' where "st' = after_fork prev None (parent_setpgid sys pid ?g
      (add_child pid (expected_child sys p b fds0 k i) (st\<lparr>ex_forks := []\<rparr>)))"
  have "stdout_of fds0 (command_count p) k i = fds0 ! 1" by (simp add: stdout_of_def flip: i)
  then have child: "pipeline_child sys (commands p ! i) (b \<and> i = 0) prev None pgid pid (ex_fds st) =
      expected_child sys p b fds0 k i"
    using last(1) by (simp add: expected_child_def)
  have "launch sys p b [i] prev pgid pids st = (0, ?g, pids @ [pid], st')"
    using st i child by (auto simp: make_pipe_def next_fork_def st'_def Let_def)
  then show thesis
    using last(2) by (intro that [of st']) (simp_all add: st'_def after_fork_def close_opt_def)
qed

lemma launch_wires:
  assumes std: "std_open fds0" "3 \<le> free_slots fds0" and grp: "\<And>a b. sys_setpgid_child sys a b"
    and "i < command_count p" "prev_ok fds0 prev (stdin_of fds0 k i) (ex_fds st)"
    and "ex_pipes st = k + i" "length (ex_forks st) = command_count p - i" "\<forall>q \<in> set (ex_forks st). 0 < q"
  shows "\<exists>st'. launch sys p b [i..<command_count p] prev pgid pids st =
      (0, if pgid = 0 then hd (ex_forks st) else pgid, pids @ ex_forks st, st') \<and> ex_fds st' = fds0 \<and>
      ex_waited st' = ex_waited st \<and> ex_jobs st' = ex_jobs st \<and> ex_allocs st' = ex_allocs st \<and>
      ex_children st' = ex_children st @ zip (ex_forks st) (map (expected_child sys p b fds0 k) [i..<command_count p])"
  using assms(4-)
proof (induction "command_count p - Suc i" arbitrary: i prev pgid pids st)
  case 0
  then have i: "Suc i = command_count p" by simp
  have "command_count p - i = 1" unfolding i [symmetric] by simp
  then have "length (ex_forks st) = 1" using "0.prems"(4) by simp
  then obtain pid where forks: "ex_forks st = [pid]" by (metis One_nat_def length_0_conv length_Suc_conv)
  with "0.prems"(5) have pid: "ex_forks st = [pid]" "0 < pid" by auto
  have "[i..<command_count p] = [i]" by (simp flip: i)
  then show ?case
    by (rule ssubst) (rule launch_last [OF std(1) grp "0.prems"(2) pid i, of b pgid pids], simp add: pid)
next
  case (Suc m)
  then have i: "i < command_count p - 1" "[i..<command_count p] = i # [Suc i..<command_count p]"
    by (simp_all add: upt_conv_Cons)
  obtain pid forks where pid: "ex_forks st = pid # forks" "0 < pid"
    using Suc.prems by (cases "ex_forks st") auto
  obtain r st1 where step: "launch sys p b [i..<command_count p] prev pgid pids st =
      launch sys p b [Suc i..<command_count p] (Some r) (if pgid = 0 then pid else pgid) (pids @ [pid]) st1"
    and st1: "prev_ok fds0 (Some r) (stdin_of fds0 k (Suc i)) (ex_fds st1)" "ex_pipes st1 = k + Suc i"
      "ex_forks st1 = forks" "ex_waited st1 = ex_waited st" "ex_jobs st1 = ex_jobs st" "ex_allocs st1 = ex_allocs st"
      "ex_children st1 = ex_children st @ [(pid, expected_child sys p b fds0 k i)]"
    unfolding i(2) by (rule launch_inner [OF std grp Suc.prems(2,3) pid i(1)])
  have "m = command_count p - Suc (Suc i)" "Suc i < command_count p" "length forks = command_count p - Suc i"
    using Suc.hyps(2) Suc.prems(4) pid i by auto
  with Suc.hyps(1) [of "Suc i" "Some r" st1 "if pgid = 0 then pid else pgid" "pids @ [pid]"] st1 Suc.prems(5) pid
  show ?case unfolding step by (auto simp: i(2))
qed

section \<open>What a whole pipeline does\<close>

text \<open>Redirections replace what the pipe set up, and leave no other descriptor behind.\<close>

lemma open_onto_ok:
  assumes "sys_open sys path mode" "0 < free_slots fds" "target < length fds" "fds ! target \<noteq> None"
  shows "open_onto sys path mode target fds = Inr (fds[target := Some (Opened path mode)])"
proof -
  from assms(2) obtain i where i: "fd_new (Opened path mode) fds = Some (i, fds[i := Some (Opened path mode)])"
    "i < length fds" "fds ! i = None" by (rule fd_new_works)
  then have "i \<noteq> target" using assms(4) by auto
  moreover from this i(3) have "fds[i := Some (Opened path mode), target := Some (Opened path mode), i := None] =
      fds[target := Some (Opened path mode)]"
    by (intro nth_equalityI) (auto simp: nth_update_if)
  ultimately show ?thesis using assms(1,3) i by (simp add: open_onto_def fd_dup2_def fd_close_def)
qed

definition redirected_in :: "Command \<Rightarrow> bool \<Rightarrow> open_file option \<Rightarrow> open_file option" where
  "redirected_in cmd background src =
     (case cmd_input cmd of
        Some f \<Rightarrow> Some (Opened f O_RDONLY)
      | None \<Rightarrow> if background then Some (Opened ''/dev/null'' O_RDONLY) else src)"

definition redirected_out :: "Command \<Rightarrow> open_file option \<Rightarrow> open_file option" where
  "redirected_out cmd dst =
     (case cmd_output cmd of
        Some f \<Rightarrow> Some (Opened f (if cmd_append cmd \<noteq> 0 then O_APPEND else O_TRUNC))
      | None \<Rightarrow> dst)"

lemma free_slots_wired:
  assumes "std_open fds0" "src \<noteq> None" "dst \<noteq> None"
  shows "free_slots (wired fds0 src dst) = free_slots fds0"
proof -
  obtain a b r where fds0: "fds0 = Some a # Some b # r"
  proof -
    from assms(1) have "2 \<le> length fds0" "fds0 ! 0 \<noteq> None" "fds0 ! 1 \<noteq> None" by (auto simp: std_open_def)
    then show thesis using that by (cases fds0; cases "tl fds0") auto
  qed
  show ?thesis using assms(2,3) by (auto simp: fds0 wired_def free_slots_def)
qed

lemma redirect_and_exec_ok:
  assumes "std_open fds0" "0 < free_slots fds0" "src \<noteq> None" "dst \<noteq> None"
    and "\<And>f m. sys_open sys f m" "\<And>prog. sys_exec sys prog" and argv: "cmd_argv cmd ! 0 = Some prog"
  shows "redirect_and_exec sys cmd b (wired fds0 src dst) =
    Exec prog (cmd_argv cmd) (wired fds0 (redirected_in cmd b src) (redirected_out cmd dst))"
proof -
  have len: "0 < length fds0" "1 < length fds0" using assms(1) by (auto simp: std_open_def)
  have free: "0 < free_slots (wired fds0 x y)" if "x \<noteq> None" "y \<noteq> None" for x y
    using assms free_slots_wired that by simp
  have upd: "(wired fds0 x y)[0 := z] = wired fds0 z y" "(wired fds0 x y)[1 := z] = wired fds0 x z" for x y z
    using list_update_swap [of 1 0 "fds0[0 := x]" y z] by (simp_all add: wired_def)
  have at: "wired fds0 x y ! 0 = x" "wired fds0 x y ! 1 = y" "length (wired fds0 x y) = length fds0" for x y
    using len by (simp_all add: wired_def)
  note onto = open_onto_ok [of sys _ _ "wired fds0 _ _" 0, unfolded upd at]
    open_onto_ok [of sys _ _ "wired fds0 _ _" 1, unfolded upd at]
  have "redirect_input sys cmd b (wired fds0 src dst) = Inr (wired fds0 (redirected_in cmd b src) dst)"
    using assms(3-5) len free
    by (auto simp: redirect_input_def redirected_in_def onto split: option.splits)
  moreover have some: "redirected_in cmd b src \<noteq> None"
    using assms(3) by (auto simp: redirected_in_def split: option.splits)
  have "redirect_output sys cmd (wired fds0 (redirected_in cmd b src) dst) =
      Inr (wired fds0 (redirected_in cmd b src) (redirected_out cmd dst))"
    using some assms(4,5) len free [OF some]
    by (auto simp: redirect_output_def redirected_out_def onto onto(2) [simplified] split: option.splits)
  ultimately show ?thesis using argv assms(6) by (simp add: redirect_and_exec_def exec_child_def)
qed

lemma wait_all_keeps [simp]:
  "ex_fds (wait_all sys pids st) = ex_fds st" "ex_children (wait_all sys pids st) = ex_children st"
  "ex_jobs (wait_all sys pids st) = ex_jobs st" "ex_waited (wait_all sys pids st) = ex_waited st @ pids"
  by (induction pids arbitrary: st) (simp_all add: emit_def)

lemma announce_job_keeps [simp]:
  "ex_fds (announce_job g t st) = ex_fds st" "ex_children (announce_job g t st) = ex_children st"
  "ex_waited (announce_job g t st) = ex_waited st"
  by (simp_all add: announce_job_def emit_def split: prod.splits)

lemma finish_background_returns:
  assumes "pipeline_wf p" "0 < command_count p"
  obtains st' where "finish_background p pgid st = Inr st'" "ex_fds st' = ex_fds st"
    "ex_children st' = ex_children st" "ex_waited st' = ex_waited st"
  using that by (cases "fst (malloc_ok (ex_allocs st))")
    (auto simp: finish_background_def build_command_string_fits [OF assms])

text \<open>The child of command \<open>i\<close> when every file opens and every program starts.\<close>

definition connected_child :: "Pipeline \<Rightarrow> fd_table \<Rightarrow> nat \<Rightarrow> nat \<Rightarrow> child" where
  "connected_child p fds0 k i =
     (let cmd = commands p ! i; n = command_count p; b = is_background (commands p ! (n - 1)) in
      Exec (the (cmd_argv cmd ! 0)) (cmd_argv cmd)
        (wired fds0 (redirected_in cmd (b \<and> i = 0) (stdin_of fds0 k i)) (redirected_out cmd (stdout_of fds0 n k i))))"

lemma expected_child_connected:
  assumes "std_open fds0" "3 \<le> free_slots fds0" "\<And>f m. sys_open sys f m" "\<And>prog. sys_exec sys prog"
    and "cmd_argv (commands p ! i) ! 0 \<noteq> None"
  shows "expected_child sys p (is_background (commands p ! (command_count p - 1))) fds0 k i = connected_child p fds0 k i"
proof -
  have "stdin_of fds0 k i \<noteq> None" "stdout_of fds0 (command_count p) k i \<noteq> None"
    using assms(1) by (auto simp: stdin_of_def stdout_of_def std_open_def)
  with redirect_and_exec_ok [OF assms(1) _ this assms(3,4)] assms(2,5) show ?thesis
    by (auto simp: expected_child_def connected_child_def Let_def)
qed

lemma execute_pipeline_connects:
  assumes p: "pipeline_wf p" "2 \<le> command_count p" "\<And>i. i < command_count p \<Longrightarrow> 0 < cmd_argc (commands p ! i)"
    and std: "std_open (ex_fds st)" "3 \<le> free_slots (ex_fds st)"
    and forks: "length (ex_forks st) = command_count p" "\<forall>q \<in> set (ex_forks st). 0 < q"
    and sys: "\<And>a b. sys_setpgid_child sys a b" "\<And>f m. sys_open sys f m" "\<And>prog. sys_exec sys prog"
    and mem: "fst (malloc_ok (ex_allocs st))"
  shows "\<exists>st'. execute_pipeline sys (Some p) st = Inr (0, st') \<and> ex_fds st' = ex_fds st \<and>
    ex_children st' = ex_children st @ zip (ex_forks st) (map (connected_child p (ex_fds st) (ex_pipes st)) [0..<command_count p]) \<and>
    ex_waited st' = ex_waited st @ (if is_background (commands p ! (command_count p - 1)) then [] else ex_forks st)"
proof -
  let ?b = "is_background (commands p ! (command_count p - 1))"
  obtain as where as: "malloc_ok (ex_allocs st) = (True, as)" using mem by (cases "malloc_ok (ex_allocs st)") simp
  let ?st = "st\<lparr>ex_allocs := as\<rparr>"
  have "prev_ok (ex_fds st) None (stdin_of (ex_fds st) (ex_pipes st) 0) (ex_fds ?st)"
    by (simp add: prev_ok_def stdin_of_def)
  with launch_wires [OF std sys(1), of 0 p None "ex_pipes st" ?st ?b 0 "[]"] p(2) forks obtain pgid st' where
    run: "launch sys p ?b [0..<command_count p] None 0 [] ?st = (0, pgid, ex_forks st, st')"
    and st': "ex_fds st' = ex_fds st" "ex_waited st' = ex_waited st"
      "ex_children st' = ex_children st @ zip (ex_forks st)
         (map (expected_child sys p ?b (ex_fds st) (ex_pipes st)) [0..<command_count p])" by auto
  have "map (expected_child sys p ?b (ex_fds st) (ex_pipes st)) [0..<command_count p] =
      map (connected_child p (ex_fds st) (ex_pipes st)) [0..<command_count p]"
  proof (rule map_cong)
    fix i assume "i \<in> set [0..<command_count p]"
    then have "command_wf (commands p ! i)" "0 < cmd_argc (commands p ! i)"
      using pipeline_wf_command [OF p(1)] p(3) by auto
    then have "cmd_argv (commands p ! i) ! 0 \<noteq> None" by (simp add: command_wf_nth)
    then show "expected_child sys p ?b (ex_fds st) (ex_pipes st) i = connected_child p (ex_fds st) (ex_pipes st) i"
      by (rule expected_child_connected [OF std sys(2,3)])
  qed simp
  note children = st'(3) [unfolded this]
  have exec: "execute_pipeline sys (Some p) st = (if ?b
      then (case finish_background p pgid st' of Inl f \<Rightarrow> Inl f | Inr st3 \<Rightarrow> Inr (0, st3))
      else Inr (0, wait_all sys (ex_forks st) st'))"
    using p(2) as run by (simp add: execute_pipeline_def Let_def)
  show ?thesis
  proof (cases ?b)
    case True
    moreover obtain st3 where "finish_background p pgid st' = Inr st3" "ex_fds st3 = ex_fds st'"
      "ex_children st3 = ex_children st'" "ex_waited st3 = ex_waited st'"
      using p(2) finish_background_returns [OF p(1), of pgid st'] by (metis less_le_trans zero_less_numeral)
    ultimately show ?thesis using exec st' children by simp
  next
    case False
    then show ?thesis using exec st' children by simp
  qed
qed

section \<open>The executor keeps the job table well formed\<close>

lemma announce_job_wf: "jobs_wf (ex_jobs st) \<Longrightarrow> jobs_wf (ex_jobs (announce_job g t st))"
  using job_add_wf by (auto simp: announce_job_def emit_def split: prod.splits)

lemma emit_jobs [simp]: "ex_jobs (emit es st) = ex_jobs st" "ex_allocs (emit es st) = ex_allocs st"
  by (simp_all add: emit_def)

lemma next_fork_jobs: "next_fork st = (pid, st') \<Longrightarrow> ex_jobs st' = ex_jobs st"
  by (auto simp: next_fork_def split: list.splits)

lemma launch_jobs:
  "launch sys p b is prev pgid pids st = (rc, pgid', pids', st') \<Longrightarrow> ex_jobs st' = ex_jobs st"
proof (induction "is" arbitrary: prev pgid pids st)
  case (Cons i "is")
  have pipe: "ex_jobs st1 = ex_jobs st" if "make_pipe c st = Some (q, st1)" for c q st1
    using that by (auto simp: make_pipe_def split: if_splits option.splits)
  show ?case
    using Cons.prems
    by (auto simp: Let_def after_fork_def dest!: Cons.IH pipe next_fork_jobs split: option.splits prod.splits if_splits)
qed simp

lemma execute_command_wf:
  assumes "jobs_wf (ex_jobs st)" "execute_command sys c st = Inr (rc, st')"
  shows "jobs_wf (ex_jobs st')"
  using assms
  by (auto simp: execute_command_def start_background_def Let_def dest!: next_fork_jobs
        intro!: announce_job_wf split: option.splits if_splits prod.splits sum.splits)

lemma execute_pipeline_wf:
  assumes "jobs_wf (ex_jobs st)" "execute_pipeline sys p st = Inr (rc, st')"
  shows "jobs_wf (ex_jobs st')"
  using assms execute_command_wf
  by (auto simp: execute_pipeline_def finish_background_def Let_def dest!: launch_jobs
        intro!: announce_job_wf split: option.splits if_splits prod.splits sum.splits)

section \<open>The only fault\<close>

text \<open>
  The arguments of a single background command fit the block of \<^verbatim>\<open>execute_command\<close> when they take
  at most 61 bytes besides the program name.
\<close>

definition string_fits :: "acommand \<Rightarrow> bool" where
  "string_fits c \<longleftrightarrow> length (join '' '' (args c)) + 2 < length (hd (args c)) + 64"

lemma abs_command_argc: "command_wf cmd \<Longrightarrow> length (args (abs_command cmd)) = cmd_argc cmd"
  by (simp add: abs_command_def command_wf_def)

lemma abs_command_argv0:
  "command_wf cmd \<Longrightarrow> 0 < cmd_argc cmd \<Longrightarrow> \<exists>prog. cmd_argv cmd ! 0 = Some prog \<and> hd (args (abs_command cmd)) = prog"
proof -
  assume a: "command_wf cmd" "0 < cmd_argc cmd"
  then have "cmd_argv cmd ! 0 \<noteq> None" by (simp add: command_wf_nth)
  then obtain prog where "cmd_argv cmd ! 0 = Some prog" by blast
  moreover have "hd (take (cmd_argc cmd) (cmd_argv cmd)) = cmd_argv cmd ! 0"
    using a by (cases "cmd_argv cmd") (auto simp: command_wf_def)
  moreover have "take (cmd_argc cmd) (cmd_argv cmd) \<noteq> []" using a by (auto simp: command_wf_def)
  ultimately show ?thesis by (simp add: abs_command_def hd_map)
qed

lemma single_command_string_fault:
  assumes wf: "command_wf cmd" "0 < cmd_argc cmd" and argv: "cmd_argv cmd ! 0 = Some prog"
  shows "single_command_string cmd prog =
    (if string_fits (abs_command cmd) then Inr (join '' '' (args (abs_command cmd)) @ '' &'') else Inl BufferOverflow)"
proof -
  have "args (abs_command cmd) = prog # tl (args (abs_command cmd))"
    using abs_command_argv0 [OF wf] argv abs_command_argc [OF wf(1)] wf(2)
    by (metis hd_Cons_tl length_greater_0_conv option.inject)
  with single_command_string_eq [OF wf(1) this] show ?thesis by (metis list.sel(1) string_fits_def)
qed

lemma execute_command_fault:
  assumes wf: "command_wf cmd" and fault: "execute_command sys (Some cmd) st = Inl f"
  shows "f = BufferOverflow \<and> is_background cmd \<and> \<not> string_fits (abs_command cmd)"
proof -
  have "0 < cmd_argc cmd" using fault by (cases "cmd_argc cmd") (simp_all add: execute_command_def)
  moreover from this obtain prog where "cmd_argv cmd ! 0 = Some prog" using abs_command_argv0 [OF wf] by blast
  ultimately show ?thesis
    using fault single_command_string_fault [OF wf, of prog]
    by (auto simp: execute_command_def start_background_def Let_def split: if_splits prod.splits)
qed

lemma execute_pipeline_fault:
  assumes wf: "pipeline_wf p" and fault: "execute_pipeline sys (Some p) st = Inl f"
  shows "f = BufferOverflow \<and> command_count p = 1 \<and> is_background (commands p ! 0) \<and>
    \<not> string_fits (abs_command (commands p ! 0))"
proof (cases "command_count p = 1")
  case True
  then have "command_wf (commands p ! 0)" using pipeline_wf_command [OF wf, of 0] by simp
  from execute_command_fault [OF this] fault True show ?thesis by (simp add: execute_pipeline_def)
next
  case False
  have ok: "finish_background p pgid st' \<noteq> Inl f" if "0 < command_count p" for pgid st'
    using finish_background_returns [OF wf that] by (metis sum.distinct(1))
  show ?thesis
    using fault False ok by (auto simp: execute_pipeline_def Let_def split: if_splits prod.splits sum.splits)
qed

section \<open>Properties of the executor\<close>

text \<open>
  C6: A pipeline of two or more commands is wired correctly. If the shell has its three standard
  descriptors and three free ones, the forks succeed, the files open and the programs start, then
  command \<open>i\<close> runs with its standard input at the read end of pipe \<open>i - 1\<close> and its standard output at
  the write end of pipe \<open>i\<close> (the shell's own at the two ends), unless a redirection replaces it, and
  with no other descriptor than the shell's; the shell ends with the descriptors it had; a foreground
  pipeline waits for every process.
\<close>

theorem pipeline_wired_correctly:
  assumes "pipeline_wf p" "2 \<le> command_count p" "\<And>i. i < command_count p \<Longrightarrow> 0 < cmd_argc (commands p ! i)"
    and "std_open (ex_fds st)" "3 \<le> free_slots (ex_fds st)"
    and "length (ex_forks st) = command_count p" "\<forall>q \<in> set (ex_forks st). 0 < q"
    and "\<And>a b. sys_setpgid_child sys a b" "\<And>f m. sys_open sys f m" "\<And>prog. sys_exec sys prog"
    and "fst (malloc_ok (ex_allocs st))"
  shows "\<exists>st'. execute_pipeline sys (Some p) st = Inr (0, st') \<and> ex_fds st' = ex_fds st \<and>
    ex_children st' = ex_children st @ zip (ex_forks st) (map (connected_child p (ex_fds st) (ex_pipes st)) [0..<command_count p]) \<and>
    ex_waited st' = ex_waited st @ (if is_background (commands p ! (command_count p - 1)) then [] else ex_forks st)"
  using assms by (rule execute_pipeline_connects)

definition sample_command :: "string \<Rightarrow> Command" where
  "sample_command w = init_command\<lparr>cmd_argv := (replicate MAX_ARGS None)[0 := Some w], cmd_argc := 1\<rparr>"

definition sample_pipeline :: Pipeline where
  "sample_pipeline = init_pipeline\<lparr>commands := (replicate MAX_COMMANDS init_command)[0 := sample_command ''ls'', 1 := sample_command ''wc''],
     command_count := 2\<rparr>"

definition willing :: sys where
  "willing = \<lparr>sys_open = \<lambda>_ _. True, sys_exec = \<lambda>_. True, sys_setpgid_child = \<lambda>_ _. True,
     sys_setpgid_parent = \<lambda>_ _. SetpgidOk, sys_waitpid = \<lambda>_. WaitOk\<rparr>"

definition fresh_shell :: exec_state where
  "fresh_shell = \<lparr>ex_fds = map (Some \<circ> Inherited) [0..<3] @ replicate 5 None, ex_jobs = jobs_init, ex_allocs = [],
     ex_events = [], ex_forks = [100, 101], ex_children = [], ex_waited = [], ex_pipes = 0\<rparr>"

lemma sample_command_wf: "command_wf (sample_command w)" "cmd_argc (sample_command w) = 1"
  by (simp_all add: command_wf_def sample_command_def init_command_def list_all_iff numeral_eq_Suc)

lemma sample_pipeline_facts:
  "pipeline_wf sample_pipeline" "command_count sample_pipeline = 2"
  "commands sample_pipeline ! 0 = sample_command ''ls''" "commands sample_pipeline ! 1 = sample_command ''wc''"
  by (simp_all add: pipeline_wf_def sample_pipeline_def init_pipeline_def numeral_eq_Suc sample_command_wf list_all_iff)

theorem pipeline_wired_correctly_witness:
  "\<exists>st'. execute_pipeline willing (Some sample_pipeline) fresh_shell = Inr (0, st') \<and>
     ex_fds st' = ex_fds fresh_shell \<and> map fst (ex_children st') = [100, 101] \<and> ex_waited st' = [100, 101]"
proof -
  have "std_open (ex_fds fresh_shell)" "3 \<le> free_slots (ex_fds fresh_shell)"
    by (auto simp: std_open_def free_slots_def fresh_shell_def numeral_eq_Suc less_Suc_eq)
  moreover have "0 < cmd_argc (commands sample_pipeline ! i)" if "i < command_count sample_pipeline" for i
    using that sample_pipeline_facts sample_command_wf by (cases i) (auto simp: less_Suc_eq numeral_2_eq_2)
  moreover have "\<not> is_background (commands sample_pipeline ! 1)"
    by (simp only: sample_pipeline_facts) (simp add: sample_command_def init_command_def)
  ultimately show ?thesis
    using pipeline_wired_correctly [of sample_pipeline fresh_shell willing] sample_pipeline_facts
    by (auto simp: willing_def fresh_shell_def upt_rec)
qed



text \<open>
  C31: The block \<^verbatim>\<open>execute_command\<close> allocates for the text of a single background command, 64 bytes
  more than the program name, is overrun exactly when the arguments after the name take more than
  61 bytes: then starting the command writes past the block.
\<close>

theorem background_command_overflow:
  assumes "command_wf cmd" "0 < cmd_argc cmd" "is_background cmd" "ex_forks st = pid # pids" "0 < pid"
    and "fst (malloc_ok (ex_allocs st))"
  shows "execute_command sys (Some cmd) st = Inl BufferOverflow \<longleftrightarrow>
    length (join '' '' (args (abs_command cmd))) \<ge> length (hd (args (abs_command cmd))) + 62"
proof -
  obtain prog where prog: "cmd_argv cmd ! 0 = Some prog" using abs_command_argv0 [OF assms(1,2)] by blast
  obtain as where as: "malloc_ok (ex_allocs st) = (True, as)" using assms(6) by (cases "malloc_ok (ex_allocs st)") simp
  show ?thesis
    using assms(2-5) prog as single_command_string_fault [OF assms(1,2) prog]
    by (auto simp: execute_command_def start_background_def next_fork_def Let_def string_fits_def)
qed

definition long_command :: Command where
  "long_command = init_command\<lparr>cmd_argv := (replicate MAX_ARGS None)[0 := Some ''a'', 1 := Some (replicate 61 (CHR ''x''))],
     cmd_argc := 2, cmd_background := 1\<rparr>"

theorem background_command_overflow_witness:
  "execute_command willing (Some long_command) fresh_shell = Inl BufferOverflow"
proof -
  have "command_wf long_command" by (simp add: command_wf_def long_command_def init_command_def list_all_iff numeral_eq_Suc)
  moreover have "args (abs_command long_command) = [''a'', replicate 61 (CHR ''x'')]"
    by (simp add: abs_command_def long_command_def init_command_def numeral_eq_Suc)
  ultimately show ?thesis
    using background_command_overflow [of long_command fresh_shell 100 "[101]" willing]
    by (simp add: long_command_def fresh_shell_def)
qed

end
