(* ===== verification/Shell_Main.thy ===== *)
theory Shell_Main
  imports Lexing Expansion Executor
begin

text \<open>
  The main program of ShellForge, \<^verbatim>\<open>src/main.c\<close>: its built-in commands, the \<^verbatim>\<open>SIGCHLD\<close> handler and the
  loop that reads a line, runs the lexer, the parser and the expansion on it and either executes
  a built-in command or starts the pipeline. What \<^verbatim>\<open>readline\<close> returns is the list of lines; what the
  handler learns from \<^verbatim>\<open>waitpid\<close> while \<^verbatim>\<open>fg\<close> pauses is a list of batches in the state.
\<close>

section \<open>The state of the shell\<close>

datatype wait_status = Exited | Signaled | Stopped | Continued

type_synonym wait_batch = "(int \<times> wait_status) list"

text \<open>
  \<open>sh_scopes\<close> collects, for each line, the tokens and the pipeline as they are when their variables
  go out of scope: a string still held there is lost.
\<close>

record shell =
  sh_exec :: exec_state
  sh_cwd :: string
  sh_history :: "string list"
  sh_pauses :: "wait_batch list"
  sh_scopes :: "(Token list \<times> Pipeline) list"

definition say :: "event list \<Rightarrow> shell \<Rightarrow> shell" where
  "say es sh = sh\<lparr>sh_exec := emit es (sh_exec sh)\<rparr>"

definition jobs_of :: "shell \<Rightarrow> JobTable" where
  "jobs_of sh = ex_jobs (sh_exec sh)"

definition with_jobs :: "JobTable \<Rightarrow> shell \<Rightarrow> shell" where
  "with_jobs t sh = sh\<lparr>sh_exec := (sh_exec sh)\<lparr>ex_jobs := t\<rparr>\<rparr>"

section \<open>The signal handler\<close>

primrec sigchld_handler :: "wait_batch \<Rightarrow> JobTable \<Rightarrow> JobTable" where
  "sigchld_handler [] t = t"
| "sigchld_handler (w # ws) t =
     (case w of (pid, status) \<Rightarrow>
        if pid \<le> 0 then t
        else sigchld_handler ws
          (case job_find_by_pgid pid t of
             None \<Rightarrow> t
           | Some _ \<Rightarrow>
               if status = Stopped then job_stop pid t
               else if status = Exited \<or> status = Signaled then job_done pid t
               else t))"

section \<open>Built-in commands\<close>

text \<open>\<^verbatim>\<open>atoi\<close>.\<close>

definition digits_value :: "string \<Rightarrow> int" where
  "digits_value s = foldl (\<lambda>n c. 10 * n + (int (of_char c) - 48)) 0 (takeWhile isdigit s)"

definition atoi :: "string \<Rightarrow> int" where
  "atoi s =
     (case dropWhile isspace s of
        [] \<Rightarrow> 0
      | c # r \<Rightarrow>
          if c = CHR ''-'' then - digits_value r
          else if c = CHR ''+'' then digits_value r
          else digits_value (c # r))"

definition help_lines :: "string list" where
  "help_lines =
     [[],
      ''  ShellForge -- Unix-style shell written in C'',
      ''  ==========================================='',
      [],
      ''  Built-in commands:'',
      ''    help             show this message'',
      ''    exit             exit the shell'',
      ''    cd [dir]         change directory'',
      ''    pwd              print working directory'',
      ''    echo [args...]   print arguments'',
      ''    jobs             list background jobs'',
      ''    fg <id>          bring job to foreground'',
      ''    bg <id>          resume stopped job in background'',
      ''    history          show command history'',
      [],
      ''  Shell features:'',
      ''    Pipelines:         cmd1 | cmd2 | cmd3'',
      ''    Input redirect:    cmd < file'',
      ''    Output redirect:   cmd > file'',
      ''    Append redirect:   cmd >> file'',
      ''    Background exec:   cmd &'',
      ''    Variable expand:   echo $HOME, echo ${VAR}'',
      ''    Quoting:           single or double quotes'',
      [],
      ''  System calls: fork(2), execvp(2), waitpid(2),'',
      ''    pipe(2), dup2(2), open(2), chdir(2), getcwd(3),'',
      ''    kill(2), setpgid(2), signal(2)'',
      []]"

definition builtin_help :: "event list" where
  "builtin_help = map (\<lambda>l. Stdout (l @ [newline])) help_lines"

text \<open>The \<^verbatim>\<open>echo\<close> of the main program: a space before each argument but the first.\<close>

definition echo_before :: "Command \<Rightarrow> event list" where
  "echo_before cmd =
     concat (map (\<lambda>i. (if i > 1 then [Stdout '' ''] else []) @ [Stdout (arg_text cmd i)])
       [1..<cmd_argc cmd]) @ [Stdout [newline]]"

definition history_events :: "string list \<Rightarrow> event list" where
  "history_events hist =
     map (\<lambda>(i, l). Stdout (''  '' @ pad_left 4 (dec_nat (i + 1)) @ ''  '' @ l @ [newline])) (enumerate 0 hist)"

text \<open>
  \<^verbatim>\<open>bg\<close>. The pointer to the job is its slot; \<^verbatim>\<open>job_continue\<close> looks the group up again.
\<close>

definition builtin_bg :: "int \<Rightarrow> shell \<Rightarrow> shell" where
  "builtin_bg jid sh =
     (case job_find jid (jobs_of sh) of
        None \<Rightarrow> say [Stderr (''bg: no such job'' @ [newline])] sh
      | Some i \<Rightarrow>
          (case job_continue (job_pgid (job_table (jobs_of sh) ! i)) (jobs_of sh) of (t, es) \<Rightarrow>
             let job = job_table t ! i in
             say (es @ [Stdout (''['' @ dec_int (job_id job) @ ''] Running '' @
                (case job_command job of Some c \<Rightarrow> c | None \<Rightarrow> ''(null)'') @ [newline])])
               (with_jobs t sh)))"

text \<open>
  The loop of \<^verbatim>\<open>fg\<close>: while the job runs, pause until a signal comes and the handler has seen a
  batch. \<open>None\<close>: no further signal comes and the shell waits for ever.
\<close>

fun fg_wait :: "nat \<Rightarrow> wait_batch list \<Rightarrow> JobTable \<Rightarrow> (wait_batch list \<times> JobTable) option" where
  "fg_wait i ws t =
     (if job_state (job_table t ! i) = JOB_RUNNING then
        (case ws of [] \<Rightarrow> None | w # ws' \<Rightarrow> fg_wait i ws' (sigchld_handler w t))
      else Some (ws, t))"

declare fg_wait.simps [simp del]

definition builtin_fg :: "int \<Rightarrow> shell \<Rightarrow> shell option" where
  "builtin_fg jid sh =
     (case job_find jid (jobs_of sh) of
        None \<Rightarrow> Some (say [Stderr (''fg: no such job'' @ [newline])] sh)
      | Some i \<Rightarrow>
          let t = jobs_of sh; job = job_table t ! i; stopped = (job_state job = JOB_STOPPED);
              t1 = (if stopped then set_job t i (job\<lparr>job_state := JOB_RUNNING\<rparr>) else t);
              sh1 = say (if stopped then [KillCont (job_pgid job)] else []) sh in
          (case fg_wait i (sh_pauses sh) t1 of
             None \<Rightarrow> None
           | Some (ws, t2) \<Rightarrow>
               Some (with_jobs (if job_state (job_table t2 ! i) = JOB_DONE then job_remove jid t2 else t2)
                       (sh1\<lparr>sh_pauses := ws\<rparr>))))"

text \<open>
  \<^verbatim>\<open>builtin_execute\<close>: 0 the command was built in, 1 leave the shell, -1 not built in. The result is
  \<open>None\<close> when \<^verbatim>\<open>fg\<close> waits for ever; comparing a \<^verbatim>\<open>NULL\<close> name is a fault.
\<close>

definition builtin_execute :: "os \<Rightarrow> Command option \<Rightarrow> shell \<Rightarrow> (int \<times> shell) option res" where
  "builtin_execute os cmd_ptr sh =
     (case cmd_ptr of
        None \<Rightarrow> Inr (Some (0, sh))
      | Some cmd \<Rightarrow>
          if cmd_argc cmd = 0 then Inr (Some (0, sh))
          else (case cmd_argv cmd ! 0 of
              None \<Rightarrow> Inl NullDeref
            | Some name \<Rightarrow>
                if name = ''help'' then Inr (Some (0, say builtin_help sh))
                else if name = ''exit'' then Inr (Some (1, sh))
                else if name = ''cd'' then
                  (let path = (if cmd_argc cmd > 1 then cmd_argv cmd ! 1 else os_getenv os ''HOME'');
                       path = (if path = None then Some ''.'' else path) in
                   case change_dir os (sh_cwd sh) path of (cwd, es) \<Rightarrow> Inr (Some (0, say es (sh\<lparr>sh_cwd := cwd\<rparr>))))
                else if name = ''pwd'' then Inr (Some (0, say (print_dir os (sh_cwd sh)) sh))
                else if name = ''echo'' then Inr (Some (0, say (echo_before cmd) sh))
                else if name = ''history'' then Inr (Some (0, say (history_events (sh_history sh)) sh))
                else if name = ''jobs'' then Inr (Some (0, say (jobs_print (jobs_of sh)) sh))
                else if name = ''bg'' then
                  (if cmd_argc cmd \<noteq> 2 then
                     Inr (Some (0, say [Stderr (''bg: usage: bg <job_id>'' @ [newline])] sh))
                   else (case cmd_argv cmd ! 1 of
                       None \<Rightarrow> Inl NullDeref
                     | Some arg \<Rightarrow> Inr (Some (0, builtin_bg (atoi arg) sh))))
                else if name = ''fg'' then
                  (if cmd_argc cmd \<noteq> 2 then
                     Inr (Some (0, say [Stderr (''fg: usage: fg <job_id>'' @ [newline])] sh))
                   else (case cmd_argv cmd ! 1 of
                       None \<Rightarrow> Inl NullDeref
                     | Some arg \<Rightarrow> Inr (map_option (Pair 0) (builtin_fg (atoi arg) sh))))
                else Inr (Some (-1, sh))))"

section \<open>The main loop\<close>

definition debug_print_tokens :: "bool \<Rightarrow> Token list \<Rightarrow> event list" where
  "debug_print_tokens debug_mode tokens =
     (if \<not> debug_mode then []
      else [Stdout ([newline] @ ''------------ TOKENS ------------'' @ [newline])] @
        map (\<lambda>(i, t). Stdout ('' '' @ dec_nat i @ '' : '' @ pad_right 16 (token_type_to_string (tok_type t)) @
          '' '' @ (case tok_value t of Some v \<Rightarrow> v | None \<Rightarrow> []) @ [newline])) (enumerate 0 tokens) @
        [Stdout (''--------------------------------'' @ [newline])])"

definition debug_print_pipeline :: "bool \<Rightarrow> Pipeline \<Rightarrow> event list" where
  "debug_print_pipeline debug_mode p = (if \<not> debug_mode then [] else [Stdout (pipeline_print (Some p))])"

text \<open>The end of a round: all tokens are freed; the pipeline goes out of scope as it is.\<close>

definition end_scope :: "Token list \<Rightarrow> Pipeline \<Rightarrow> shell \<Rightarrow> shell" where
  "end_scope tokens p sh = sh\<lparr>sh_scopes := sh_scopes sh @ [(map free_token tokens, p)]\<rparr>"

text \<open>
  A single \<^verbatim>\<open>echo\<close> or \<^verbatim>\<open>pwd\<close> with a redirection runs as a program, so that the child applies the
  redirection.
\<close>

definition force_exec :: "Command \<Rightarrow> bool" where
  "force_exec c \<longleftrightarrow> (cmd_input c \<noteq> None \<or> cmd_output c \<noteq> None) \<and> cmd_argc c > 0 \<and>
     (cmd_argv c ! 0 = Some ''echo'' \<or> cmd_argv c ! 0 = Some ''pwd'')"

definition run_external :: "sys \<Rightarrow> Token list \<Rightarrow> Pipeline \<Rightarrow> shell \<Rightarrow> (bool \<times> shell) option res" where
  "run_external sys tokens p sh =
     (case execute_pipeline sys (Some p) (sh_exec sh) of
        Inl f \<Rightarrow> Inl f
      | Inr (_, st) \<Rightarrow> Inr (Some (True, end_scope tokens (the (free_pipeline (Some p))) (sh\<lparr>sh_exec := st\<rparr>))))"

text \<open>Executing an expanded pipeline; the Boolean says whether the loop goes on.\<close>

definition run_pipeline :: "os \<Rightarrow> sys \<Rightarrow> Token list \<Rightarrow> Pipeline \<Rightarrow> shell \<Rightarrow> (bool \<times> shell) option res" where
  "run_pipeline os sys tokens p sh =
     (if command_count p = 1 then
        let c = commands p ! 0 in
        (case if force_exec c then Inr (Some (-1, sh)) else builtin_execute os (Some c) sh of
           Inl f \<Rightarrow> Inl f
         | Inr None \<Rightarrow> Inr None
         | Inr (Some (rc, sh1)) \<Rightarrow>
             if rc = 1 then Inr (Some (False, end_scope tokens (the (free_pipeline (Some p))) sh1))
             else if rc = 0 then Inr (Some (True, end_scope tokens (the (free_pipeline (Some p))) sh1))
             else run_external sys tokens p sh1)
      else run_external sys tokens p sh)"

definition with_allocs :: "allocs \<Rightarrow> shell \<Rightarrow> shell" where
  "with_allocs as sh = sh\<lparr>sh_exec := (sh_exec sh)\<lparr>ex_allocs := as\<rparr>\<rparr>"

text \<open>One round of the loop on the line \<^verbatim>\<open>readline\<close> returned; \<open>p0\<close> is the uninitialised pipeline variable.\<close>

definition process_line :: "os \<Rightarrow> sys \<Rightarrow> bool \<Rightarrow> Pipeline \<Rightarrow> string \<Rightarrow> shell \<Rightarrow> (bool \<times> shell) option res" where
  "process_line os sys debug_mode p0 line sh =
     (if c_str line = [] \<or> char_at line 0 = CHR ''#'' then Inr (Some (True, sh))
      else
        let sh0 = sh\<lparr>sh_history := sh_history sh @ [c_str line]\<rparr> in
        (case read_tokens (lexer_init (Some line)) (ex_allocs (sh_exec sh0)) of (tokens, lx, as1) \<Rightarrow>
           let sh1 = say (debug_print_tokens debug_mode tokens) sh0 in
           (case parse_tokens (Some tokens) (int (length tokens)) (Some p0) as1 of
              Inl f \<Rightarrow> Inl f
            | Inr (rc, p, as2) \<Rightarrow>
                if rc \<noteq> 0 then
                  Inr (Some (True, end_scope tokens (the p)
                    (say [Stderr (''shellforge: parse error'' @ [newline])] (with_allocs as2 sh1))))
                else (case expand_pipeline (os_getenv os) p as2 of
                    Inl f \<Rightarrow> Inl f
                  | Inr (rc, p', as3) \<Rightarrow>
                      let sh2 = with_allocs as3 sh1 in
                      if rc \<noteq> 0 then
                        Inr (Some (True, end_scope tokens (the (free_pipeline p'))
                          (say [Stderr (''shellforge: expansion error'' @ [newline])] sh2)))
                      else run_pipeline os sys tokens (the p')
                             (say (debug_print_pipeline debug_mode (the p')) sh2)))))"

text \<open>
  The loop over the lines, each with the batch the handler saw before it was read; at the end of
  input the shell prints a newline.
\<close>

fun main_loop :: "os \<Rightarrow> sys \<Rightarrow> bool \<Rightarrow> Pipeline \<Rightarrow> (wait_batch \<times> string) list \<Rightarrow> shell \<Rightarrow> shell option res" where
  "main_loop os sys debug_mode p0 [] sh = Inr (Some (say [Stdout [newline]] sh))"
| "main_loop os sys debug_mode p0 ((batch, line) # lines) sh =
     (case process_line os sys debug_mode p0 line (with_jobs (sigchld_handler batch (jobs_of sh)) sh) of
        Inl f \<Rightarrow> Inl f
      | Inr None \<Rightarrow> Inr None
      | Inr (Some (go_on, sh')) \<Rightarrow>
          if go_on then main_loop os sys debug_mode p0 lines sh' else Inr (Some sh'))"

definition banner :: "event list" where
  "banner = map (\<lambda>l. Stdout (l @ [newline]))
     [''====================================='', ''        ShellForge'', '' A Unix Style Shell written in C'',
      ''====================================='', '' Type '' @ [CHR 0x27] @ ''help'' @ [CHR 0x27] @ '' for available commands.'' @ [newline]]"

definition main :: "os \<Rightarrow> sys \<Rightarrow> Pipeline \<Rightarrow> (wait_batch \<times> string) list \<Rightarrow> shell \<Rightarrow> shell option res" where
  "main os sys p0 lines sh =
     main_loop os sys (os_getenv os ''SF_DEBUG'' = Some ''1'') p0 lines (say banner (with_jobs jobs_init sh))"

section \<open>The job table stays well formed\<close>

lemma sigchld_handler_keeps:
  "jobs_wf t \<Longrightarrow> jobs_wf (sigchld_handler ws t) \<and> job_ids (sigchld_handler ws t) = job_ids t"
proof (induction ws arbitrary: t)
  case (Cons w ws)
  obtain pid status where w: "w = (pid, status)" by fastforce
  show ?case
    using Cons job_state_ops_wf [OF Cons.prems]
    by (auto simp: w job_state_ops_ids split: option.splits)
qed simp

lemma fg_wait_keeps:
  "fg_wait i ws t = Some (ws', t') \<Longrightarrow> jobs_wf t \<Longrightarrow>
   jobs_wf t' \<and> job_ids t' = job_ids t \<and> job_state (job_table t' ! i) \<noteq> JOB_RUNNING"
proof (induction i ws t rule: fg_wait.induct)
  case (1 i ws t)
  show ?case
  proof (cases "job_state (job_table t ! i) = JOB_RUNNING")
    case True
    then obtain w ws1 where ws: "ws = w # ws1"
      using "1.prems"(1) by (cases ws) (simp_all add: fg_wait.simps [of i _ t])
    then have "fg_wait i ws1 (sigchld_handler w t) = Some (ws', t')"
      using True "1.prems"(1) by (simp add: fg_wait.simps [of i _ t])
    with "1.IH" [OF True ws] sigchld_handler_keeps [OF "1.prems"(2)] show ?thesis by metis
  next
    case False
    with "1.prems" show ?thesis by (simp add: fg_wait.simps [of i ws])
  qed
qed

lemma shell_parts [simp]:
  "jobs_of (say es sh) = jobs_of sh" "jobs_of (with_jobs t sh) = t" "sh_cwd (say es sh) = sh_cwd sh"
  "sh_scopes (say es sh) = sh_scopes sh" "sh_scopes (with_jobs t sh) = sh_scopes sh"
  "jobs_of (end_scope ts p sh) = jobs_of sh" "jobs_of (with_allocs as sh) = jobs_of sh"
  "sh_scopes (with_allocs as sh) = sh_scopes sh" "sh_scopes (end_scope ts p sh) = sh_scopes sh @ [(map free_token ts, p)]"
  "sh_pauses (say es sh) = sh_pauses sh"
  "ex_allocs (sh_exec (say es sh)) = ex_allocs (sh_exec sh)"
  "ex_allocs (sh_exec (with_allocs as sh)) = as"
  "jobs_of (sh\<lparr>sh_pauses := ws\<rparr>) = jobs_of sh" "jobs_of (sh\<lparr>sh_cwd := d\<rparr>) = jobs_of sh"
  "jobs_of (sh\<lparr>sh_history := h\<rparr>) = jobs_of sh"
  by (simp_all add: jobs_of_def say_def with_jobs_def end_scope_def with_allocs_def emit_def)

lemma builtin_bg_wf: "jobs_wf (jobs_of sh) \<Longrightarrow> jobs_wf (jobs_of (builtin_bg jid sh))"
proof -
  assume wf: "jobs_wf (jobs_of sh)"
  note job_state_ops_wf(2) [OF wf]
  with wf show ?thesis by (auto simp: builtin_bg_def Let_def split: option.splits prod.splits) (metis fst_conv)
qed

lemma builtin_fg_wf:
  assumes wf: "jobs_wf (jobs_of sh)" and fg: "builtin_fg jid sh = Some sh'"
  shows "jobs_wf (jobs_of sh')"
proof (cases "job_find jid (jobs_of sh)")
  case None
  with assms show ?thesis by (auto simp: builtin_fg_def)
next
  case (Some i)
  let ?t = "jobs_of sh" and ?job = "job_table (jobs_of sh) ! i"
  define t1 where "t1 = (if job_state ?job = JOB_STOPPED then set_job ?t i (?job\<lparr>job_state := JOB_RUNNING\<rparr>) else ?t)"
  have wf1: "jobs_wf t1"
    using wf set_state_wf [OF wf] job_find_Some(1) [OF Some] by (simp add: t1_def)
  obtain ws t2 where w: "fg_wait i (sh_pauses sh) t1 = Some (ws, t2)"
    using fg Some by (auto simp: builtin_fg_def Let_def t1_def split: option.splits)
  then have "jobs_of sh' = (if job_state (job_table t2 ! i) = JOB_DONE then job_remove jid t2 else t2)"
    using fg Some by (auto simp: builtin_fg_def Let_def t1_def)
  then show ?thesis using fg_wait_keeps [OF w wf1] job_remove_wf by auto
qed

lemma builtin_execute_wf:
  assumes "jobs_wf (jobs_of sh)" "builtin_execute os c sh = Inr (Some (rc, sh'))"
  shows "jobs_wf (jobs_of sh')"
  using assms builtin_bg_wf [OF assms(1)] builtin_fg_wf [OF assms(1)]
  by (auto simp: builtin_execute_def Let_def split: option.splits if_splits prod.splits)

lemma run_pipeline_wf:
  assumes wf: "jobs_wf (jobs_of sh)" and run: "run_pipeline os sys tokens p sh = Inr (Some (go_on, sh'))"
  shows "jobs_wf (jobs_of sh')"
proof -
  have ext: "jobs_wf (jobs_of b)" if "jobs_wf (jobs_of a)" "run_external sys tokens p a = Inr (Some (g, b))" for a b g
    using that execute_pipeline_wf [of "sh_exec a" sys "Some p"]
    by (auto simp: run_external_def jobs_of_def end_scope_def split: sum.splits)
  show ?thesis
    using run wf ext builtin_execute_wf [OF wf]
    by (fastforce simp: run_pipeline_def Let_def split: if_splits sum.splits option.splits)
qed

lemma process_line_wf:
  assumes "jobs_wf (jobs_of sh)" "process_line os sys d p0 line sh = Inr (Some (go_on, sh'))"
  shows "jobs_wf (jobs_of sh')"
  using assms
  by (auto simp: process_line_def Let_def split: if_splits prod.splits sum.splits dest!: run_pipeline_wf [rotated])

lemma main_loop_wf:
  "jobs_wf (jobs_of sh) \<Longrightarrow> main_loop os sys d p0 lines sh = Inr (Some sh') \<Longrightarrow> jobs_wf (jobs_of sh')"
proof (induction os sys d p0 lines sh rule: main_loop.induct)
  case (2 os sys d p0 batch line lines sh)
  let ?sh = "with_jobs (sigchld_handler batch (jobs_of sh)) sh"
  have "jobs_wf (jobs_of ?sh)" using sigchld_handler_keeps [OF "2.prems"(1)] by simp
  with 2 process_line_wf [of ?sh os sys d p0 line] show ?case
    by (auto split: sum.splits option.splits prod.splits if_splits)
qed auto

section \<open>From a line to a pipeline\<close>

text \<open>
  What a line means: its tokens (at most 255), parsed, with the variables replaced.
\<close>

definition line_meaning :: "env \<Rightarrow> string \<Rightarrow> acommand list option" where
  "line_meaning env line =
     map_option (map (expand_acommand env)) (spec_parse (take 255 (lex_all (c_str line))))"

lemma lex_all_no_NUL: "NUL \<notin> set s \<Longrightarrow> t \<in> set (lex_all s) \<Longrightarrow> NUL \<notin> set (snd t)"
proof (induction s rule: lex_all.induct)
  case (1 s)
  obtain u s' where u: "lex1 s = (u, s')" by fastforce
  have "NUL \<notin> set (snd u) \<and> NUL \<notin> set s'"
    using lex1_no_NUL [OF "1.prems"(1)] u by simp
  with 1 u show ?case by (auto simp: lex_all.simps [of s] split: if_splits)
qed

lemma front_end:
  assumes mem: "plenty as" and env: "env_ok env"
  obtains (rejected) tokens lx as1 p as2 where "line_meaning env line = None"
      "read_tokens (lexer_init (Some line)) as = (tokens, lx, as1)"
      "parse_tokens (Some tokens) (int (length tokens)) (Some p0) as1 = Inr (-1, Some p, as2)"
  | (accepted) cs tokens lx as1 p as2 p' as3 where "line_meaning env line = Some cs"
      "read_tokens (lexer_init (Some line)) as = (tokens, lx, as1)"
      "parse_tokens (Some tokens) (int (length tokens)) (Some p0) as1 = Inr (0, Some p, as2)"
      "expand_pipeline env (Some p) as2 = Inr (0, Some p', as3)" "pipeline_wf p'" "abs_pipeline p' = cs" "plenty as3"
proof -
  obtain tokens lx as1 where toks: "read_tokens (lexer_init (Some line)) as = (tokens, lx, as1)"
    by (metis prod_cases3)
  note lexed = collect_lexer_texts [where n = 255, OF lexer_init_wf mem, of "Some line", folded read_tokens_def, unfolded toks]
  have texts: "map token_text tokens = take 255 (lex_all (c_str line))" "plenty as1"
    "list_all (\<lambda>t. tok_value t \<noteq> None) tokens" using lexed by (auto simp: list_all_iff)
  have "lex_all (c_str line) \<noteq> []" by (simp add: lex_all.simps [of "c_str line"] split: prod.splits)
  then have "tokens \<noteq> []" using texts(1) by auto
  from parse_tokens_refines [OF texts(3) this, of p0 as1] obtain rc p as2 where
    parse: "parse_tokens (Some tokens) (int (length tokens)) (Some p0) as1 = Inr (rc, Some p, as2)"
      "pipeline_wf p" "rc \<in> {0, -1}" "plenty as2"
      "rc = 0 \<Longrightarrow> spec_parse (take 255 (lex_all (c_str line))) = Some (abs_pipeline p)"
      "rc = -1 \<Longrightarrow> spec_parse (take 255 (lex_all (c_str line))) = None"
    using texts(1,2) by auto
  show thesis
  proof (cases "rc = 0")
    case False
    with parse toks that(1) show thesis by (simp add: line_meaning_def)
  next
    case True
    have "\<forall>t \<in> set (take 255 (lex_all (c_str line))). NUL \<notin> set (snd t)"
      using lex_all_no_NUL c_str_no_NUL in_set_takeD by metis
    with parse(5) [OF True] have "list_all clean (abs_pipeline p)"
      using read_all_clean [of _ "[]" empty_cmd] by (auto simp: spec_parse_read_all)
    from expand_pipeline_refines [OF env parse(2) this, of as2] parse(4) obtain p' as3 where
      "expand_pipeline env (Some p) as2 = Inr (0, Some p', as3)" "pipeline_wf p'" "plenty as3"
      "abs_pipeline p' = map (expand_acommand env) (abs_pipeline p)" by auto
    with that(2) toks parse True show thesis by (simp add: line_meaning_def)
  qed
qed

text \<open>The two outcomes of a line, with memory to spare.\<close>

lemma process_line_cases:
  assumes mem: "plenty (ex_allocs (sh_exec sh))" and env: "env_ok (os_getenv os)"
    and line: "c_str line \<noteq> []" "char_at line 0 \<noteq> CHR ''#''"
  obtains (rejected) tokens p sh' where "line_meaning (os_getenv os) line = None"
      "process_line os sys d p0 line sh = Inr (Some (True, end_scope tokens p
         (say [Stderr (''shellforge: parse error'' @ [newline])] sh')))" "jobs_of sh' = jobs_of sh"
      "sh_scopes sh' = sh_scopes sh" "sh_cwd sh' = sh_cwd sh"
  | (accepted) cs tokens p sh' where "line_meaning (os_getenv os) line = Some cs"
      "process_line os sys d p0 line sh = run_pipeline os sys tokens p sh'"
      "pipeline_wf p" "abs_pipeline p = cs" "jobs_of sh' = jobs_of sh" "sh_scopes sh' = sh_scopes sh"
      "sh_cwd sh' = sh_cwd sh" "plenty (ex_allocs (sh_exec sh'))"
proof -
  let ?sh0 = "sh\<lparr>sh_history := sh_history sh @ [c_str line]\<rparr>"
  from mem env show thesis
  proof (cases rule: front_end [of _ _ line p0])
    case (rejected tokens lx as1 p as2)
    then show thesis
      using line by (intro that(1) [of tokens p "with_allocs as2 (say (debug_print_tokens d tokens) ?sh0)"])
        (auto simp: process_line_def Let_def with_allocs_def say_def emit_def jobs_of_def)
  next
    case (accepted cs tokens lx as1 p as2 p' as3)
    then show thesis
      using line by (intro that(2) [of cs tokens p'
          "say (debug_print_pipeline d p') (with_allocs as3 (say (debug_print_tokens d tokens) ?sh0))"])
        (auto simp: process_line_def Let_def with_allocs_def say_def emit_def jobs_of_def)
  qed
qed

section \<open>Faults and lost strings\<close>

lemma builtin_execute_no_fault:
  assumes "command_wf cmd"
  shows "builtin_execute os (Some cmd) sh \<noteq> Inl f"
proof -
  have "cmd_argv cmd ! i \<noteq> None" if "i < cmd_argc cmd" for i
    using assms that by (auto simp: command_wf_nth)
  from this [of 0] this [of 1] show ?thesis
    by (auto simp: builtin_execute_def Let_def split: option.splits prod.splits)
qed

lemma abs_pipeline_one:
  assumes "pipeline_wf p"
  shows "abs_pipeline p = [c] \<longleftrightarrow> command_count p = 1 \<and> abs_command (commands p ! 0) = c"
proof -
  have len: "length (abs_pipeline p) = command_count p" "length (commands p) = MAX_COMMANDS"
    using assms by (auto simp: abs_pipeline_def pipeline_wf_def)
  have "command_count p = 1 \<Longrightarrow> abs_pipeline p = [abs_command (commands p ! 0)]"
    using len(2) by (cases "commands p") (auto simp: abs_pipeline_def)
  with len(1) show ?thesis by (metis One_nat_def length_Cons list.inject list.size(3))
qed

lemma run_pipeline_fault:
  assumes wf: "pipeline_wf p" and fault: "run_pipeline os sys tokens p sh = Inl f"
  shows "f = BufferOverflow \<and> (\<exists>c. abs_pipeline p = [c] \<and> bg c \<and> \<not> string_fits c)"
proof -
  obtain sh1 :: shell where "execute_pipeline sys (Some p) (sh_exec sh1) = Inl f"
  proof (cases "command_count p = 1 \<and> \<not> force_exec (commands p ! 0)")
    case True
    then have "builtin_execute os (Some (commands p ! 0)) sh \<noteq> Inl f"
      using builtin_execute_no_fault pipeline_wf_command [OF wf, of 0] by simp
    with True fault that show thesis
      by (auto simp: run_pipeline_def run_external_def Let_def split: if_splits sum.splits option.splits prod.splits)
  next
    case False
    with fault that show thesis
      by (auto simp: run_pipeline_def run_external_def Let_def split: if_splits sum.splits)
  qed
  from execute_pipeline_fault [OF wf this]
  have f: "f = BufferOverflow" "command_count p = 1" "is_background (commands p ! 0)"
    "\<not> string_fits (abs_command (commands p ! 0))" by auto
  then have "abs_pipeline p = [abs_command (commands p ! 0)]" using abs_pipeline_one [OF wf] by blast
  with f show ?thesis by (auto simp: abs_command_def)
qed

text \<open>Nothing is lost when a pipeline has been run: what goes out of scope holds no string.\<close>

definition scope_empty :: "Token list \<times> Pipeline \<Rightarrow> bool" where
  "scope_empty s \<longleftrightarrow> list_all (\<lambda>t. tok_value t = None) (fst s) \<and> list_all holds_nothing (commands (snd s))"

lemma scope_freed:
  assumes "pipeline_wf p"
  shows "scope_empty (map free_token tokens, the (free_pipeline (Some p)))"
proof -
  have "holds_nothing init_command" by (simp add: holds_nothing_def init_command_def list_all_iff)
  then show ?thesis
    by (auto simp: scope_empty_def free_pipeline_init [OF assms] init_pipeline_def list_all_iff)
qed

lemma builtin_execute_scopes:
  "builtin_execute os c sh = Inr (Some (rc, sh')) \<Longrightarrow> sh_scopes sh' = sh_scopes sh"
  by (auto simp: builtin_execute_def builtin_bg_def builtin_fg_def Let_def
        split: option.splits if_splits prod.splits)

lemma run_pipeline_scopes:
  assumes wf: "pipeline_wf p" and run: "run_pipeline os sys tokens p sh = Inr (Some (go_on, sh'))"
  shows "\<exists>s. sh_scopes sh' = sh_scopes sh @ [s] \<and> scope_empty s"
proof -
  have ext: "\<exists>s. sh_scopes b = sh_scopes a @ [s] \<and> scope_empty s" if "run_external sys tokens p a = Inr (Some (g, b))" for a b g
    using that scope_freed [OF wf] by (auto simp: run_external_def split: sum.splits)
  show ?thesis
    using run ext scope_freed [OF wf] builtin_execute_scopes
    by (fastforce simp: run_pipeline_def Let_def split: if_splits sum.splits option.splits)
qed

section \<open>Waiting for a job\<close>

lemma find_by_pgid_states:
  assumes "map (\<lambda>j. (job_id j, job_pgid j)) (job_table t) = map (\<lambda>j. (job_id j, job_pgid j)) (job_table t')"
  shows "job_find_by_pgid g t = job_find_by_pgid g t'"
proof -
  have "first_index (\<lambda>j. job_id j \<noteq> 0 \<and> job_pgid j = g) xs = first_index (\<lambda>p. fst p \<noteq> 0 \<and> snd p = g)
      (map (\<lambda>j. (job_id j, job_pgid j)) xs)" for xs by (induction xs) auto
  from this [of "job_table t"] this [of "job_table t'"] assms show ?thesis
    by (simp only: job_find_by_pgid_def)
qed

definition same_groups :: "JobTable \<Rightarrow> JobTable \<Rightarrow> bool" where
  "same_groups t t' \<longleftrightarrow>
     map (\<lambda>j. (job_id j, job_pgid j)) (job_table t) = map (\<lambda>j. (job_id j, job_pgid j)) (job_table t')"

lemma set_state_groups:
  assumes "i < length (job_table t)"
  shows "same_groups t (set_job t i ((job_table t ! i)\<lparr>job_state := s\<rparr>))"
  using assms by (auto simp: same_groups_def intro!: nth_equalityI simp: nth_update_if)

lemma job_ops_groups: "same_groups t (job_stop g t)" "same_groups t (job_done g t)"
  using set_state_groups job_find_Some(2)
  by (auto simp: job_stop_def job_done_def split: option.splits) (auto simp: same_groups_def)

text \<open>One report handled: the groups stay, no job starts to run, and the job it is about stops running.\<close>

lemma report_handled:
  assumes find: "job_find_by_pgid g t = Some i"
    and t': "t' = (case job_find_by_pgid pid t of None \<Rightarrow> t | Some _ \<Rightarrow>
       if status = Stopped then job_stop pid t else if status = Exited \<or> status = Signaled then job_done pid t else t)"
  shows "job_find_by_pgid g t' = Some i"
    and "job_state (job_table t ! i) \<noteq> JOB_RUNNING \<Longrightarrow> job_state (job_table t' ! i) \<noteq> JOB_RUNNING"
    and "pid = g \<Longrightarrow> status \<noteq> Continued \<Longrightarrow> job_state (job_table t' ! i) \<noteq> JOB_RUNNING"
proof -
  have "same_groups t t" by (simp add: same_groups_def)
  then have "same_groups t t'" unfolding t' using job_ops_groups by (simp split: option.split)
  then show "job_find_by_pgid g t' = Some i" using find find_by_pgid_states [of t t' g] by (simp only: same_groups_def)
  note i = job_find_Some(2) [OF find]
  show "job_state (job_table t ! i) \<noteq> JOB_RUNNING \<Longrightarrow> job_state (job_table t' ! i) \<noteq> JOB_RUNNING"
    using i by (auto simp: t' job_stop_def job_done_def nth_update_if split: option.splits)
  show "pid = g \<Longrightarrow> status \<noteq> Continued \<Longrightarrow> job_state (job_table t' ! i) \<noteq> JOB_RUNNING"
    using i find by (cases status) (auto simp: t' job_stop_def job_done_def)
qed

lemma handler_stops:
  assumes "job_find_by_pgid g t = Some i"
  shows "job_find_by_pgid g (sigchld_handler ws t) = Some i \<and>
    (job_state (job_table t ! i) \<noteq> JOB_RUNNING \<longrightarrow> job_state (job_table (sigchld_handler ws t) ! i) \<noteq> JOB_RUNNING) \<and>
    (list_all (\<lambda>w. 0 < fst w) ws \<longrightarrow> (\<exists>s. s \<noteq> Continued \<and> (g, s) \<in> set ws) \<longrightarrow>
      job_state (job_table (sigchld_handler ws t) ! i) \<noteq> JOB_RUNNING)"
  using assms
proof (induction ws arbitrary: t)
  case (Cons w ws)
  obtain pid status where w: "w = (pid, status)" by fastforce
  define t' where "t' = (case job_find_by_pgid pid t of None \<Rightarrow> t | Some _ \<Rightarrow>
     if status = Stopped then job_stop pid t else if status = Exited \<or> status = Signaled then job_done pid t else t)"
  note one = report_handled [OF Cons.prems t'_def]
  have eq: "sigchld_handler (w # ws) t = (if pid \<le> 0 then t else sigchld_handler ws t')"
    unfolding w sigchld_handler.simps prod.case t'_def by (rule refl)
  show ?case
    unfolding eq using one Cons.IH [OF one(1)] Cons.prems by (auto simp: w)
qed simp

lemma fg_wait_returns:
  assumes "job_find_by_pgid g t = Some i" "list_all (list_all (\<lambda>w. 0 < fst w)) ws"
    "\<exists>b \<in> set ws. \<exists>s. s \<noteq> Continued \<and> (g, s) \<in> set b"
  shows "\<exists>r. fg_wait i ws t = Some r"
  using assms
proof (induction ws arbitrary: t)
  case (Cons w ws)
  note h = handler_stops [OF Cons.prems(1), of w]
  show ?case
  proof (cases "job_state (job_table (sigchld_handler w t) ! i) = JOB_RUNNING")
    case True
    with h Cons.prems(2,3) have "\<exists>b \<in> set ws. \<exists>s. s \<noteq> Continued \<and> (g, s) \<in> set b" by auto
    with Cons.IH [of "sigchld_handler w t"] h Cons.prems show ?thesis
      by (auto simp: fg_wait.simps [of i "w # ws"])
  next
    case False
    then show ?thesis by (simp add: fg_wait.simps [of i "w # ws"] fg_wait.simps [of i ws])
  qed
qed simp

section \<open>What the built-in commands print\<close>

lemma stdout_text_separated_before:
  "stdout_text (concat (map (\<lambda>i. (if i > m then [Stdout s] else []) @ [Stdout (f i)]) [m..<n])) =
   join s (map f [m..<n])"
proof (induction n)
  case (Suc n)
  then show ?case
    by (cases "m < n"; cases "m = n") (auto simp: join_snoc)
qed simp

lemma echo_before_text:
  assumes "command_wf cmd" "0 < cmd_argc cmd"
  shows "stdout_text (echo_before cmd) = join '' '' (tl (args (abs_command cmd))) @ [newline]"
  using args_from_1 [OF assms] stdout_text_separated_before [of 1 "'' ''" "arg_text cmd" "cmd_argc cmd"]
  by (simp add: echo_before_def)

text \<open>The built-in commands that can run without waiting return at once.\<close>

lemma builtin_execute_returns:
  assumes "command_wf cmd" "0 < cmd_argc cmd" "hd (args (abs_command cmd)) \<noteq> ''fg''"
  shows "\<exists>rc sh'. builtin_execute os (Some cmd) sh = Inr (Some (rc, sh')) \<and> rc \<in> {-1, 0, 1} \<and>
    (rc = 1 \<longleftrightarrow> hd (args (abs_command cmd)) = ''exit'')"
proof -
  obtain name where name: "cmd_argv cmd ! 0 = Some name" "hd (args (abs_command cmd)) = name"
    using abs_command_argv0 [OF assms(1,2)] by blast
  have arg: "cmd_argc cmd = 2 \<Longrightarrow> \<exists>a. cmd_argv cmd ! 1 = Some a"
    using command_wf_terminated(2) [OF assms(1), of 1] by auto
  show ?thesis
    using assms(2,3) arg unfolding name(2)
    by (auto simp: builtin_execute_def name(1) Let_def split: prod.splits option.splits)
qed

section \<open>Properties of the main program\<close>

text \<open>
  C7: What the shell does with a line is what the line means. With memory to spare and a line that is
  not empty and no comment: if the tokens of the line parse, the round runs exactly the commands the
  specification assigns to it, with the variables replaced; otherwise it reports a parse error and
  runs nothing.
\<close>

theorem process_line_runs_meaning:
  assumes "plenty (ex_allocs (sh_exec sh))" "env_ok (os_getenv os)" "c_str line \<noteq> []" "char_at line 0 \<noteq> CHR ''#''"
  shows "case line_meaning (os_getenv os) line of
      None \<Rightarrow> \<exists>tokens p sh'. process_line os sys d p0 line sh = Inr (Some (True, end_scope tokens p
        (say [Stderr (''shellforge: parse error'' @ [newline])] sh'))) \<and> jobs_of sh' = jobs_of sh \<and> sh_cwd sh' = sh_cwd sh
    | Some cs \<Rightarrow> \<exists>tokens p sh'. process_line os sys d p0 line sh = run_pipeline os sys tokens p sh' \<and>
        pipeline_wf p \<and> abs_pipeline p = cs \<and> jobs_of sh' = jobs_of sh \<and> sh_cwd sh' = sh_cwd sh"
  using assms
proof (cases rule: process_line_cases [where sys = sys and d = d and ?p0.0 = p0])
  case rejected
  then show ?thesis by auto
next
  case accepted
  then show ?thesis by auto
qed

definition start_shell :: shell where
  "start_shell = \<lparr>sh_exec = fresh_shell, sh_cwd = ''/'', sh_history = [], sh_pauses = [], sh_scopes = []\<rparr>"

definition bare_os :: os where
  "bare_os = \<lparr>os_getenv = \<lambda>n. if n = ''USER'' then Some ''bob'' else None, os_chdir = \<lambda>_ _. None, os_getcwd = \<lambda>_ _. None\<rparr>"

lemma bare_os_ok: "env_ok (os_getenv bare_os)" "plenty (ex_allocs (sh_exec start_shell))"
  by (simp_all add: env_ok_def bare_os_def start_shell_def fresh_shell_def)

theorem process_line_runs_meaning_witness:
  "\<exists>tokens p sh'. process_line bare_os willing False init_pipeline ''echo $USER'' start_shell =
     run_pipeline bare_os willing tokens p sh' \<and> abs_pipeline p = [empty_cmd\<lparr>args := [''echo'', ''bob'']\<rparr>]"
proof -
  have "line_meaning (os_getenv bare_os) ''echo $USER'' = Some [empty_cmd\<lparr>args := [''echo'', ''bob'']\<rparr>]"
    by code_simp
  moreover have "c_str ''echo $USER'' \<noteq> []" "char_at ''echo $USER'' 0 \<noteq> CHR ''#''" by code_simp+
  ultimately show ?thesis
    using process_line_runs_meaning [OF bare_os_ok(2,1), of "''echo $USER''" willing False init_pipeline] by auto
qed





text \<open>
  A line whose pipeline runs leaves no string behind: when its variables go out of scope all its
  tokens and all slots of its pipeline have been released. (A line that does not parse is not covered:
  its pipeline is not released.)
\<close>

theorem run_lines_release_strings:
  assumes "plenty (ex_allocs (sh_exec sh))" "env_ok (os_getenv os)" "line_meaning (os_getenv os) line \<noteq> None"
    and "c_str line \<noteq> []" "char_at line 0 \<noteq> CHR ''#''" "process_line os sys d p0 line sh = Inr (Some (go_on, sh'))"
  shows "\<exists>s. sh_scopes sh' = sh_scopes sh @ [s] \<and> scope_empty s"
  using assms(1,2,4,5)
proof (cases rule: process_line_cases [where sys = sys and d = d and ?p0.0 = p0])
  case rejected
  with assms(3) show ?thesis by simp
next
  case (accepted cs tokens p sh1)
  with run_pipeline_scopes [OF accepted(3), of os sys tokens sh1] assms(6) show ?thesis by simp
qed

theorem run_lines_release_strings_witness:
  "\<exists>sh' s. process_line bare_os willing False init_pipeline ''exit'' start_shell = Inr (Some (False, sh')) \<and>
     sh_scopes sh' = [s] \<and> scope_empty s"
proof -
  have m: "line_meaning (os_getenv bare_os) ''exit'' = Some [empty_cmd\<lparr>args := [''exit'']\<rparr>]"
    and line: "c_str ''exit'' \<noteq> []" "char_at ''exit'' 0 \<noteq> CHR ''#''" by code_simp+
  from bare_os_ok(2,1) line obtain tokens p sh1 where
    run: "process_line bare_os willing False init_pipeline ''exit'' start_shell = run_pipeline bare_os willing tokens p sh1"
    and p: "pipeline_wf p" "abs_pipeline p = [empty_cmd\<lparr>args := [''exit'']\<rparr>]"
    by (cases rule: process_line_cases [where sys = willing and d = False and ?p0.0 = init_pipeline]) (use m in auto)
  have one: "command_count p = 1" "abs_command (commands p ! 0) = empty_cmd\<lparr>args := [''exit'']\<rparr>"
    using p abs_pipeline_one [OF p(1)] by auto
  have wf: "command_wf (commands p ! 0)" using pipeline_wf_command [OF p(1), of 0] one by simp
  have c: "cmd_argc (commands p ! 0) = 1" "cmd_input (commands p ! 0) = None" "cmd_output (commands p ! 0) = None"
    using abs_command_argc [OF wf, unfolded one(2)] one(2) by (simp_all add: abs_command_def empty_cmd_def)
  have "\<not> force_exec (commands p ! 0)" using c by (simp add: force_exec_def)
  moreover obtain rc sh2 where "builtin_execute bare_os (Some (commands p ! 0)) sh1 = Inr (Some (rc, sh2))" "rc = 1"
    using builtin_execute_returns [OF wf, of bare_os sh1] c one(2) by (auto simp: empty_cmd_def)
  ultimately obtain sh' where fin: "process_line bare_os willing False init_pipeline ''exit'' start_shell = Inr (Some (False, sh'))"
    using run one by (simp add: run_pipeline_def Let_def)
  from run_lines_release_strings [OF bare_os_ok(2,1) _ line fin] m
  have "\<exists>s. sh_scopes sh' = sh_scopes start_shell @ [s] \<and> scope_empty s" by simp
  then show ?thesis using fin by (simp add: start_shell_def)
qed

text \<open>
  \<^verbatim>\<open>fg\<close> returns: if the group of the job is reported (exited, killed or stopped) in one of the batches
  the handler sees while \<^verbatim>\<open>fg\<close> pauses, the waiting loop ends, with the job no longer running.
\<close>

theorem fg_returns_when_reported:
  assumes "jobs_wf t" "job_find_by_pgid g t = Some i" "list_all (list_all (\<lambda>w. 0 < fst w)) ws"
    and "\<exists>b \<in> set ws. \<exists>s. s \<noteq> Continued \<and> (g, s) \<in> set b"
  shows "\<exists>ws' t'. fg_wait i ws t = Some (ws', t') \<and> job_state (job_table t' ! i) \<noteq> JOB_RUNNING \<and> jobs_wf t'"
  using fg_wait_returns [OF assms(2-4)] fg_wait_keeps [OF _ assms(1)] by fast

theorem fg_returns_when_reported_witness:
  "\<exists>ws' t'. fg_wait 0 [[], [(7, Exited)]] (fst (snd (job_add 7 JOB_RUNNING (Some ''a'') jobs_init []))) = Some (ws', t')"
proof -
  let ?t = "fst (snd (job_add 7 JOB_RUNNING (Some ''a'') jobs_init []))"
  have "jobs_wf ?t" using job_add_wf [OF jobs_wf_init] by (metis prod.collapse)
  moreover have "job_find_by_pgid 7 ?t = Some 0"
    by (simp add: job_find_by_pgid_def job_add_def jobs_init_def free_job_def Let_def set_job_def numeral_eq_Suc)
  ultimately show ?thesis using fg_returns_when_reported [of ?t 7 0 "[[], [(7, Exited)]]"] by auto
qed

definition builtin_args_ok :: "os \<Rightarrow> acommand \<Rightarrow> bool" where
  "builtin_args_ok os c \<longleftrightarrow> args c \<noteq> [] \<and>
     (hd (args c) = ''echo'' \<or> hd (args c) \<in> {''pwd'', ''exit''} \<and> length (args c) = 1 \<or>
      hd (args c) = ''cd'' \<and> (length (args c) = 2 \<or> length (args c) = 1 \<and> os_getenv os ''HOME'' \<noteq> None))"

lemma builtin_names:
  assumes "command_wf cmd" "builtin_args_ok os (abs_command cmd)"
  obtains (echo) "cmd_argv cmd ! 0 = Some ''echo''" "0 < cmd_argc cmd"
  | (pwd) "cmd_argv cmd ! 0 = Some ''pwd''" "cmd_argc cmd = 1"
  | (exit) "cmd_argv cmd ! 0 = Some ''exit''" "cmd_argc cmd = 1"
  | (cd_arg) d where "cmd_argv cmd ! 0 = Some ''cd''" "cmd_argc cmd = 2" "cmd_argv cmd ! 1 = Some d"
  | (cd_home) h where "cmd_argv cmd ! 0 = Some ''cd''" "cmd_argc cmd = 1" "os_getenv os ''HOME'' = Some h"
proof -
  have argc: "length (args (abs_command cmd)) = cmd_argc cmd" using abs_command_argc [OF assms(1)] .
  then have pos: "0 < cmd_argc cmd" using assms(2) by (auto simp: builtin_args_ok_def simp flip: argc)
  then obtain name where name: "cmd_argv cmd ! 0 = Some name" "hd (args (abs_command cmd)) = name"
    using abs_command_argv0 [OF assms(1)] by blast
  have arg: "cmd_argc cmd = 2 \<Longrightarrow> \<exists>d. cmd_argv cmd ! 1 = Some d"
    using command_wf_terminated(2) [OF assms(1), of 1] by auto
  from assms(2) consider "name = ''echo''" | "name = ''pwd''" "cmd_argc cmd = 1" | "name = ''exit''" "cmd_argc cmd = 1"
    | "name = ''cd''" "cmd_argc cmd = 2" | "name = ''cd''" "cmd_argc cmd = 1" "os_getenv os ''HOME'' \<noteq> None"
    unfolding builtin_args_ok_def argc name(2) by blast
  then show thesis
  proof cases
    case 4
    with arg name that(4) show thesis by auto
  next
    case 5
    with name that(5) show thesis by auto
  qed (use name pos that(1-3) in simp_all)
qed

text \<open>
  C35: The two implementations of \<^verbatim>\<open>cd\<close>, \<^verbatim>\<open>pwd\<close>, \<^verbatim>\<open>echo\<close> and \<^verbatim>\<open>exit\<close>, in \<^verbatim>\<open>main.c\<close> and in \<^verbatim>\<open>builtin.c\<close>, agree
  wherever the stricter one accepts the arguments: the same result code, the same directory and the
  same text on standard output.
\<close>

theorem builtins_agree:
  assumes "command_wf cmd" "builtin_args_ok os (abs_command cmd)"
    and "execute_builtin os (Some cmd) (sh_cwd sh) = (rc, cwd, es)"
  shows "\<exists>sh'. builtin_execute os (Some cmd) sh = Inr (Some (rc, sh')) \<and> sh_cwd sh' = cwd \<and>
    stdout_text (ex_events (sh_exec sh')) = stdout_text (ex_events (sh_exec sh)) @ stdout_text es"
  using assms(1,2)
proof (cases rule: builtin_names)
  case echo
  have "stdout_text (echo_before cmd) = stdout_text (echo_after cmd)"
    using echo echo_before_text [OF assms(1)] echo_after_text [OF assms(1)] by simp
  with echo assms(3) show ?thesis
    by (auto simp: builtin_execute_def execute_builtin_def say_def emit_def)
qed (use assms(3) in \<open>auto simp: builtin_execute_def execute_builtin_def say_def emit_def change_dir_def Let_def split: option.splits\<close>)

theorem builtins_agree_witness:
  "command_wf (sample_command ''exit'') \<and>
   (\<exists>sh'. builtin_execute bare_os (Some (sample_command ''exit'')) start_shell = Inr (Some (1, sh')) \<and> sh_cwd sh' = ''/'')"
proof -
  have "builtin_args_ok bare_os (abs_command (sample_command ''exit''))"
    "execute_builtin bare_os (Some (sample_command ''exit'')) (sh_cwd start_shell) = (1, ''/'', [])"
    by (simp_all add: builtin_args_ok_def abs_command_def sample_command_def init_command_def numeral_eq_Suc
        execute_builtin_def start_shell_def)
  with builtins_agree [OF sample_command_wf(1) this] show ?thesis using sample_command_wf by auto
qed

end
