(* ===== verification/Nano_Lib.thy ===== *)
theory Nano_Lib
  imports Forge_Prelude
begin

text \<open>
  The support code of the NanoBoot kernel: \<^verbatim>\<open>kernel/string.c\<close> (memory and strings), \<^verbatim>\<open>kernel/uart.c\<close> (the
  console), \<^verbatim>\<open>kernel/ramfs.c\<close> (the file table) and \<^verbatim>\<open>kernel/spinlock.c\<close>. Memory is a function from 64-bit
  addresses to bytes; the UART answers reads of its status register with a list of values, and a
  loop that waits for a status that never comes has the value \<open>None\<close>.
\<close>

unbundle bit_operations_syntax

section \<open>Memory and strings\<close>

type_synonym addr = "64 word"

type_synonym memory = "addr \<Rightarrow> 8 word"

primrec memset :: "addr \<Rightarrow> 8 word \<Rightarrow> nat \<Rightarrow> memory \<Rightarrow> memory" where
  "memset d v 0 m = m"
| "memset d v (Suc n) m = (memset d v n m)(d + of_nat n := v)"

text \<open>Bytes are copied from the first to the last, so an overlap is read as it has been written.\<close>

primrec memcpy :: "addr \<Rightarrow> addr \<Rightarrow> nat \<Rightarrow> memory \<Rightarrow> memory" where
  "memcpy d s 0 m = m"
| "memcpy d s (Suc n) m = (let m' = memcpy d s n m in m'(d + of_nat n := m' (s + of_nat n)))"

fun memcmp :: "8 word list \<Rightarrow> 8 word list \<Rightarrow> nat \<Rightarrow> int" where
  "memcmp (x # xs) (y # ys) (Suc n) = (if x \<noteq> y then (if x < y then -1 else 1) else memcmp xs ys n)"
| "memcmp _ _ _ = 0"

text \<open>The string functions on the characters before the terminator.\<close>

fun strlen :: "string \<Rightarrow> nat" where
  "strlen [] = 0"
| "strlen (c # s) = (if c = NUL then 0 else Suc (strlen s))"

abbreviation byte_val :: "char \<Rightarrow> int" where
  "byte_val c \<equiv> of_char c"

function strcmp :: "string \<Rightarrow> string \<Rightarrow> int" where
  "strcmp a b =
     (if char_at a 0 \<noteq> NUL \<and> char_at a 0 = char_at b 0 then strcmp (drop 1 a) (drop 1 b)
      else byte_val (char_at a 0) - byte_val (char_at b 0))"
  by pat_completeness auto
termination
  by (relation "measure (\<lambda>(a, b). length a)") (auto simp: char_at_def split: if_splits)

declare strcmp.simps [simp del]

primrec strncmp :: "string \<Rightarrow> string \<Rightarrow> nat \<Rightarrow> nat \<Rightarrow> int" where
  "strncmp a b i 0 = 0"
| "strncmp a b i (Suc n) =
     (let x = byte_val (char_at a i); y = byte_val (char_at b i) in
      if x \<noteq> y then (if x < y then -1 else 1) else if x = 0 then 0 else strncmp a b (Suc i) n)"

text \<open>Copying a string up to its terminator; \<open>None\<close> if there is none to stop at.\<close>

partial_function (option) strcpy :: "addr \<Rightarrow> addr \<Rightarrow> memory \<Rightarrow> memory option" where
  "strcpy d s m = (let m' = m(d := m s) in if m s = 0 then Some m' else strcpy (d + 1) (s + 1) m')"

section \<open>The console\<close>

record uart =
  uart_lsr :: "8 word list"     \<comment> \<open>what the next reads of the line status register return\<close>
  uart_rhr :: "char list"       \<comment> \<open>characters received\<close>
  uart_thr :: "char list"       \<comment> \<open>characters written so far\<close>
  uart_ctl :: "nat \<Rightarrow> 8 word"   \<comment> \<open>the control registers, by offset\<close>

definition UART0_IER :: nat where "UART0_IER = 1"
definition UART0_FCR :: nat where "UART0_FCR = 2"
definition UART0_LCR :: nat where "UART0_LCR = 3"
definition UART0_MCR :: nat where "UART0_MCR = 4"

definition uart_write_reg :: "nat \<Rightarrow> 8 word \<Rightarrow> uart \<Rightarrow> uart" where
  "uart_write_reg reg value u = u\<lparr>uart_ctl := (uart_ctl u)(reg := value)\<rparr>"

text \<open>No interrupts from the device, eight bits without parity and one stop bit, FIFOs on.\<close>

definition uart_init :: "uart \<Rightarrow> uart" where
  "uart_init u =
     uart_write_reg UART0_MCR 0x03 (uart_write_reg UART0_FCR 0x01 (uart_write_reg UART0_LCR 0x03 (uart_write_reg UART0_IER 0 u)))"

lemma uart_init_simps [simp]:
  "uart_lsr (uart_init u) = uart_lsr u" "uart_rhr (uart_init u) = uart_rhr u" "uart_thr (uart_init u) = uart_thr u"
  by (simp_all add: uart_init_def uart_write_reg_def)

definition TX_IDLE :: "8 word" where
  "TX_IDLE = 0x20"

definition RX_READY :: "8 word" where
  "RX_READY = 0x01"

text \<open>Polling the status register until a bit of \<open>bits\<close> is set.\<close>

fun poll :: "8 word \<Rightarrow> 8 word list \<Rightarrow> 8 word list option" where
  "poll bits [] = None"
| "poll bits (s # ss) = (if s AND bits = 0 then poll bits ss else Some ss)"

definition uart_send :: "char \<Rightarrow> uart \<Rightarrow> uart option" where
  "uart_send c u =
     map_option (\<lambda>ss. u\<lparr>uart_lsr := ss, uart_thr := uart_thr u @ [c]\<rparr>) (poll TX_IDLE (uart_lsr u))"

definition uart_putc :: "char \<Rightarrow> uart \<Rightarrow> uart option" where
  "uart_putc c u =
     (if c = newline then Option.bind (uart_send (CHR 0x0D) u) (uart_send c) else uart_send c u)"

fun uart_puts :: "string \<Rightarrow> uart \<Rightarrow> uart option" where
  "uart_puts [] u = Some u"
| "uart_puts (c # s) u = (if c = NUL then Some u else Option.bind (uart_putc c u) (uart_puts s))"

definition uart_getc :: "uart \<Rightarrow> (char \<times> uart) option" where
  "uart_getc u =
     (case poll RX_READY (uart_lsr u) of
        None \<Rightarrow> None
      | Some ss \<Rightarrow>
          (case uart_rhr u of
             [] \<Rightarrow> None
           | c # cs \<Rightarrow> Some (c, u\<lparr>uart_lsr := ss, uart_rhr := cs\<rparr>)))"

text \<open>
  The digit loop of \<^verbatim>\<open>uart_print_u64\<close>: digits from the last to the first into a buffer of 32, then out
  in reverse.
\<close>

fun u64_digits :: "64 word \<Rightarrow> nat \<Rightarrow> string \<Rightarrow> string" where
  "u64_digits x 0 buf = buf"
| "u64_digits x (Suc room) buf =
     (if x = 0 then buf else u64_digits (x div 10) room (buf @ [digit_char (unat (x mod 10))]))"

fun put_chars :: "string \<Rightarrow> uart \<Rightarrow> uart option" where
  "put_chars [] u = Some u"
| "put_chars (c # s) u = Option.bind (uart_putc c u) (put_chars s)"

definition uart_print_u64 :: "64 word \<Rightarrow> uart \<Rightarrow> uart option" where
  "uart_print_u64 x u =
     (if x = 0 then uart_putc (CHR ''0'') u else put_chars (rev (u64_digits x 32 [])) u)"

definition uart_print_int :: "64 word \<Rightarrow> uart \<Rightarrow> uart option" where
  "uart_print_int x u =
     (if sint x < 0 then Option.bind (uart_putc (CHR ''-'') u) (uart_print_u64 (- x))
      else uart_print_u64 x u)"

section \<open>The file table\<close>

record ramfile =
  rf_name :: string
  rf_data :: string

definition files :: "ramfile list" where
  "files =
     [\<lparr>rf_name = ''README.txt'',
       rf_data = ''NanoBoot RAMFS'' @ [newline] @ ''This file is stored in kernel memory.'' @ [newline]\<rparr>,
      \<lparr>rf_name = ''hello.txt'', rf_data = ''Hello from the NanoBoot in-memory filesystem!'' @ [newline]\<rparr>,
      \<lparr>rf_name = ''design.txt'',
       rf_data = ''RISC-V + QEMU virt + Sv39 + traps + syscalls + round-robin.'' @ [newline]\<rparr>]"

fun ls_lines :: "ramfile list \<Rightarrow> string" where
  "ls_lines [] = []"
| "ls_lines (f # fs) = ''  '' @ rf_name f @ [newline] @ ls_lines fs"

text \<open>What the kernel sends to the console is given as text; \<open>uart_puts\<close> turns it into characters.\<close>

definition ramfs_ls :: string where
  "ramfs_ls = ''Files:'' @ [newline] @ ls_lines files"

fun cat_in :: "ramfile list \<Rightarrow> string \<Rightarrow> int \<times> string" where
  "cat_in [] name = (-1, ''cat: file not found'' @ [newline])"
| "cat_in (f # fs) name = (if strcmp name (rf_name f) = 0 then (0, rf_data f) else cat_in fs name)"

definition ramfs_cat :: "string \<Rightarrow> int \<times> string" where
  "ramfs_cat name = cat_in files name"

section \<open>Spin locks\<close>

text \<open>
  One atomic swap is one step. A hart outside may start to acquire; a hart that spins swaps 1 in and
  has the lock if it got 0 out; a holder releases by swapping 0 in.
\<close>

datatype hart = Outside | Spinning | Holding

record lock_state =
  lk_locked :: "32 word"
  lk_harts :: "nat \<Rightarrow> hart"

definition spin_init :: lock_state where
  "spin_init = \<lparr>lk_locked = 0, lk_harts = \<lambda>_. Outside\<rparr>"

definition spin_lock_swap :: "nat \<Rightarrow> lock_state \<Rightarrow> lock_state" where
  "spin_lock_swap h s =
     (let expected = lk_locked s in
      s\<lparr>lk_locked := 1, lk_harts := (lk_harts s)(h := if expected \<noteq> 0 then Spinning else Holding)\<rparr>)"

definition spin_unlock :: "nat \<Rightarrow> lock_state \<Rightarrow> lock_state" where
  "spin_unlock h s = s\<lparr>lk_locked := 0, lk_harts := (lk_harts s)(h := Outside)\<rparr>"

inductive lock_step :: "lock_state \<Rightarrow> lock_state \<Rightarrow> bool" where
  enter: "lk_harts s h = Outside \<Longrightarrow> lock_step s (s\<lparr>lk_harts := (lk_harts s)(h := Spinning)\<rparr>)"
| swap: "lk_harts s h = Spinning \<Longrightarrow> lock_step s (spin_lock_swap h s)"
| release: "lk_harts s h = Holding \<Longrightarrow> lock_step s (spin_unlock h s)"

inductive_cases lock_stepE: "lock_step s s'"

section \<open>Facts about memory and strings\<close>

definition region :: "addr \<Rightarrow> nat \<Rightarrow> addr set" where
  "region a n = {a + of_nat i | i. i < n}"

lemma region_Suc: "region a (Suc n) = insert (a + of_nat n) (region a n)"
  by (auto simp: region_def less_Suc_eq)

lemma memset_outside: "x \<notin> region d n \<Longrightarrow> memset d v n m x = m x"
  by (induction n) (auto simp: region_Suc)

lemma memset_inside: "x \<in> region d n \<Longrightarrow> memset d v n m x = v"
  by (induction n) (auto simp: region_Suc, simp add: region_def)

lemma memcpy_outside: "x \<notin> region d n \<Longrightarrow> memcpy d s n m x = m x"
  by (induction n) (auto simp: region_Suc Let_def)

text \<open>A string that ends is copied with its terminator, as \<open>memcpy\<close> would.\<close>

lemma strcpy_memcpy:
  assumes "m (s + of_nat n) = 0" "\<And>i. i < n \<Longrightarrow> m (s + of_nat i) \<noteq> 0" "region d (Suc n) \<inter> region s (Suc n) = {}"
  shows "strcpy d s m = Some (memcpy d s (Suc n) m)"
proof -
  have at: "memcpy d s i m (s + of_nat i) = m (s + of_nat i)" if "i \<le> n" for i
  proof (rule memcpy_outside)
    have "s + of_nat i \<in> region s (Suc n)" "region d i \<subseteq> region d (Suc n)" using that by (auto simp: region_def)
    then show "s + of_nat i \<notin> region d i" using assms(3) by blast
  qed
  have "strcpy (d + of_nat i) (s + of_nat i) (memcpy d s i m) = Some (memcpy d s (Suc n) m)" if "i \<le> n" for i
    using that
  proof (induction rule: inc_induct)
    case base
    show ?case by (subst strcpy.simps) (simp add: at assms(1) Let_def)
  next
    case (step i)
    have "strcpy (d + of_nat i) (s + of_nat i) (memcpy d s i m) = strcpy (d + of_nat (Suc i)) (s + of_nat (Suc i)) (memcpy d s (Suc i) m)"
      using step.hyps at [of i] assms(2) [of i] by (subst strcpy.simps) (simp add: Let_def algebra_simps)
    then show ?case using step.IH by simp
  qed
  from this [of 0] show ?thesis by simp
qed

lemma region_mono: "n \<le> k \<Longrightarrow> region a n \<subseteq> region a k"
  by (auto simp: region_def)

lemma add_of_nat_eq:
  fixes d :: addr
  assumes "d + of_nat i = d + of_nat j" "i < 2 ^ 64" "j < 2 ^ 64"
  shows "i = j"
proof -
  have "unat (of_nat i :: addr) = i" "unat (of_nat j :: addr) = j"
    using assms(2,3) by (simp_all add: unsigned_of_nat take_bit_nat_eq_self)
  with assms(1) show ?thesis by (metis add_left_cancel)
qed

lemma memcpy_inside:
  assumes "region d n \<inter> region s n = {}" "n \<le> 2 ^ 64" "i < n"
  shows "memcpy d s n m (d + of_nat i) = m (s + of_nat i)"
  using assms
proof (induction n)
  case (Suc n)
  have disj: "region d n \<inter> region s n = {}" using Suc.prems(1) by (auto simp: region_Suc)
  have src: "s + of_nat n \<notin> region d n" using Suc.prems(1) by (auto simp: region_Suc)
  show ?case
  proof (cases "i = n")
    case True
    then show ?thesis using memcpy_outside [OF src] by (simp add: Let_def)
  next
    case False
    then have "i < n" using Suc.prems(3) by simp
    moreover have "d + of_nat i \<noteq> d + of_nat n"
      using add_of_nat_eq [of d i n] Suc.prems(2) \<open>i < n\<close> by fastforce
    ultimately show ?thesis using Suc.IH [OF disj] Suc.prems(2) by (simp add: Let_def)
  qed
qed simp

lemma strlen_c_str: "strlen s = length (c_str s)"
  by (induction s) (auto simp: c_str_def)

lemma byte_val_inj: "byte_val a = byte_val b \<longleftrightarrow> a = b"
  by (metis of_char_eq_iff)

lemma c_str_Cons: "c_str (c # s) = (if c = NUL then [] else c # c_str s)"
  by (simp add: c_str_def)

lemma strcmp_eq_0: "strcmp a b = 0 \<longleftrightarrow> c_str a = c_str b"
proof (induction a b rule: strcmp.induct)
  case (1 a b)
  show ?case
  proof (cases "char_at a 0 \<noteq> NUL \<and> char_at a 0 = char_at b 0")
    case True
    then obtain x xs y ys where ab: "a = x # xs" "b = y # ys" "x = y" "x \<noteq> NUL"
      by (cases a; cases b) (auto simp: char_at_def)
    then have "strcmp a b = strcmp (drop 1 a) (drop 1 b)" by (subst strcmp.simps) simp
    with "1.IH" [OF True] ab show ?thesis by (simp add: c_str_Cons)
  next
    case False
    then have "strcmp a b = 0 \<longleftrightarrow> char_at a 0 = NUL \<and> char_at b 0 = NUL"
      by (auto simp: strcmp.simps [of a b] byte_val_inj)
    also have "\<dots> \<longleftrightarrow> c_str a = c_str b"
      using False by (cases a; cases b) (auto simp: char_at_def c_str_Cons c_str_def)
    finally show ?thesis .
  qed
qed

lemma strcmp_antisym: "strcmp b a = - strcmp a b"
proof (induction a b rule: strcmp.induct)
  case (1 a b)
  then show ?case by (auto simp: strcmp.simps [of a b] strcmp.simps [of b a])
qed

section \<open>Facts about the console\<close>

fun crlf :: "string \<Rightarrow> string" where
  "crlf [] = []"
| "crlf (c # s) = (if c = newline then [CHR 0x0D, newline] else [c]) @ crlf s"

lemma crlf_append [simp]: "crlf (a @ b) = crlf a @ crlf b"
  by (induction a) auto

lemma uart_send_thr: "uart_send c u = Some u' \<Longrightarrow> uart_thr u' = uart_thr u @ [c]"
  by (auto simp: uart_send_def)

lemma uart_putc_thr: "uart_putc c u = Some u' \<Longrightarrow> uart_thr u' = uart_thr u @ crlf [c]"
  by (auto simp: uart_putc_def split: if_splits Option.bind_splits dest!: uart_send_thr)

lemma put_chars_thr: "put_chars s u = Some u' \<Longrightarrow> uart_thr u' = uart_thr u @ crlf s"
proof (induction s arbitrary: u)
  case (Cons c s)
  then obtain u1 where "uart_putc c u = Some u1" "put_chars s u1 = Some u'"
    by (auto split: Option.bind_splits)
  with Cons.IH uart_putc_thr [of c u u1] show ?case by simp
qed simp

lemma uart_puts_put_chars: "uart_puts s u = put_chars (c_str s) u"
proof (induction s arbitrary: u)
  case (Cons c s)
  then show ?case by (cases "uart_putc c u") (simp_all add: c_str_Cons)
qed (simp add: c_str_def)

text \<open>A device whose status register always says idle, read often enough, prints everything.\<close>

definition idle_for :: "nat \<Rightarrow> uart \<Rightarrow> bool" where
  "idle_for n u \<longleftrightarrow> n \<le> length (filter (\<lambda>s. s AND TX_IDLE \<noteq> 0) (uart_lsr u))"

lemma poll_idle:
  assumes "0 < length (filter (\<lambda>s. s AND bits \<noteq> 0) ss)"
  shows "\<exists>ss'. poll bits ss = Some ss' \<and>
    length (filter (\<lambda>s. s AND bits \<noteq> 0) ss) = Suc (length (filter (\<lambda>s. s AND bits \<noteq> 0) ss'))"
  using assms by (induction ss) auto

lemma uart_send_idle: "idle_for (Suc n) u \<Longrightarrow> \<exists>u'. uart_send c u = Some u' \<and> idle_for n u'"
  using poll_idle [of TX_IDLE "uart_lsr u"] by (fastforce simp: idle_for_def uart_send_def)

lemma uart_putc_idle: "idle_for (length (crlf [c]) + n) u \<Longrightarrow> \<exists>u'. uart_putc c u = Some u' \<and> idle_for n u'"
proof (cases "c = newline")
  case True
  assume "idle_for (length (crlf [c]) + n) u"
  then obtain u1 where u1: "uart_send (CHR 0x0D) u = Some u1" "idle_for (Suc n) u1"
    using uart_send_idle [of "Suc n" u] True by auto
  then obtain u2 where "uart_send c u1 = Some u2" "idle_for n u2" using uart_send_idle by blast
  with u1 True show ?thesis by (simp add: uart_putc_def)
qed (auto simp: uart_putc_def dest: uart_send_idle)

lemma put_chars_idle: "idle_for (length (crlf s) + n) u \<Longrightarrow> \<exists>u'. put_chars s u = Some u' \<and> idle_for n u'"
proof (induction s arbitrary: u)
  case (Cons c s)
  have "length (crlf (c # s)) + n = length (crlf [c]) + (length (crlf s) + n)" by simp
  with Cons.prems obtain u1 where "uart_putc c u = Some u1" "idle_for (length (crlf s) + n) u1"
    using uart_putc_idle by metis
  with Cons.IH show ?case by fastforce
qed simp

lemma div_10_less: "x \<noteq> 0 \<Longrightarrow> unat (x div 10 :: 64 word) < unat x"
  by (simp add: unat_div_distrib) (metis div_less_dividend gr0I unat_eq_zero one_less_numeral_iff semiring_norm(76))

text \<open>The digits of a number below \<open>10 ^ room\<close> all fit.\<close>

lemma u64_digits_dec:
  assumes "unat x < 10 ^ room" "x \<noteq> 0"
  shows "rev (u64_digits x room buf) = dec_nat (unat x) @ rev buf"
  using assms
proof (induction room arbitrary: x buf)
  case 0
  then show ?case by (simp add: unat_eq_zero)
next
  case (Suc room)
  have dm: "unat (x div 10) = unat x div 10" "unat (x mod 10) = unat x mod 10"
    by (simp_all add: unat_div_distrib unat_mod_distrib)
  show ?case
  proof (cases "x div 10 = 0")
    case True
    then have "unat x div 10 = 0" using dm by simp
    then have "unat x < 10" by auto
    with True Suc.prems(2) dm show ?thesis by (cases room) (simp_all add: dec_nat.simps [of "unat x"])
  next
    case False
    then have big: "\<not> unat x < 10" using dm(1) by (metis div_less unat_eq_zero)
    have "unat (x div 10) < 10 ^ room" using Suc.prems(1) dm(1) by (simp add: less_mult_imp_div_less mult.commute)
    with Suc.IH [OF this False] Suc.prems(2) dm big show ?thesis
      by (simp add: dec_nat.simps [of "unat x"])
  qed
qed

lemma u64_digits_32: "x \<noteq> 0 \<Longrightarrow> rev (u64_digits x 32 []) = dec_nat (unat x)"
proof -
  assume "x \<noteq> 0"
  moreover have "unat x < 10 ^ 32" using unsigned_less [of x, where ?'a = nat] by simp
  ultimately show ?thesis using u64_digits_dec [of x 32 "[]"] by simp
qed

lemma dec_nat_0: "dec_nat 0 = ''0''"
  by code_simp

lemma uart_print_u64_chars: "uart_print_u64 x u = put_chars (dec_nat (unat x)) u"
  by (cases "x = 0") (auto simp: uart_print_u64_def u64_digits_32 dec_nat_0 split: Option.bind_split)

lemma uint_sint_mod: "uint (x :: 64 word) = sint x mod 2 ^ 64"
  by (simp add: uint_sint take_bit_eq_mod)

lemma uart_print_int_chars: "uart_print_int x u = put_chars (dec_int (sint x)) u"
proof (cases "sint x < 0")
  case True
  have "- sint x \<le> 2 ^ 63" "0 < - sint x" using True sint_greater_eq [of x] by simp_all
  moreover have "uint (- x) = (- sint x) mod 2 ^ 64"
    using uint_word_ariths(4) [of x] by (simp add: uint_sint_mod [of x] mod_minus_eq)
  ultimately have "uint (- x) = - sint x" by simp
  then have "unat (- x) = nat (- sint x)" by (simp flip: nat_uint_eq)
  with True show ?thesis
    by (cases "uart_putc (CHR ''-'') u") (simp_all add: uart_print_int_def dec_int_def uart_print_u64_chars)
next
  case False
  then have "uint x = sint x" using sint_less [of x] by (simp add: uint_sint_mod)
  then have "unat x = nat (sint x)" by (simp flip: nat_uint_eq)
  with False show ?thesis by (simp add: uart_print_int_def dec_int_def uart_print_u64_chars)
qed

text \<open>Decimal digits need no translation.\<close>

lemma crlf_dec_nat: "crlf (dec_nat n) = dec_nat n"
proof (induction n rule: dec_nat.induct)
  case (1 n)
  have "digit_char d \<noteq> newline" if "d < 10" for d
  proof
    assume "digit_char d = newline"
    then have "of_char (digit_char d) = (10 :: nat)" by simp
    with that show False by (simp add: digit_char_def)
  qed
  then have "crlf [digit_char d] = [digit_char d]" if "d < 10" for d using that by simp
  with 1 show ?case by (subst (1 2) dec_nat.simps) (simp del: crlf.simps(2))
qed

lemma crlf_dec: "crlf (dec_nat n) = dec_nat n" "crlf (dec_int i) = dec_int i"
  by (simp_all add: crlf_dec_nat dec_int_def)

section \<open>Facts about files and locks\<close>

lemma cat_in_find:
  "cat_in fs name = (case find (\<lambda>f. c_str name = c_str (rf_name f)) fs of
     Some f \<Rightarrow> (0, rf_data f) | None \<Rightarrow> (-1, ''cat: file not found'' @ [newline]))"
  by (induction fs) (simp_all add: strcmp_eq_0)

text \<open>The lock word is 1 exactly while some hart holds the lock, and only one does.\<close>

definition lock_inv :: "lock_state \<Rightarrow> bool" where
  "lock_inv s \<longleftrightarrow> (\<forall>h g. lk_harts s h = Holding \<longrightarrow> lk_harts s g = Holding \<longrightarrow> h = g) \<and>
     (lk_locked s = 0 \<longleftrightarrow> (\<forall>h. lk_harts s h \<noteq> Holding)) \<and> lk_locked s \<in> {0, 1}"

lemma lock_inv_step: "lock_step s s' \<Longrightarrow> lock_inv s \<Longrightarrow> lock_inv s'"
proof (induction rule: lock_step.induct)
  case (enter s h)
  then have "((lk_harts s)(h := Spinning)) g = Holding \<longleftrightarrow> lk_harts s g = Holding" for g by simp
  with enter.prems show ?case by (simp add: lock_inv_def del: fun_upd_apply) blast
next
  case (swap s h)
  show ?case
  proof (cases "lk_locked s = 0")
    case True
    with swap show ?thesis by (auto simp: lock_inv_def spin_lock_swap_def Let_def)
  next
    case False
    from swap.hyps have "((lk_harts s)(h := Spinning)) g = Holding \<longleftrightarrow> lk_harts s g = Holding" for g by simp
    with False swap.prems show ?thesis by (simp add: lock_inv_def spin_lock_swap_def del: fun_upd_apply)
  qed
next
  case (release s h)
  then show ?case by (auto simp: lock_inv_def spin_unlock_def)
qed

lemma lock_inv_reachable: "lock_step\<^sup>*\<^sup>* spin_init s \<Longrightarrow> lock_inv s"
proof (induction rule: rtranclp_induct)
  case base
  then show ?case by (simp add: lock_inv_def spin_init_def)
next
  case (step s s')
  then show ?case using lock_inv_step by blast
qed

section \<open>Properties of the support code\<close>

text \<open>
  \<^verbatim>\<open>memcpy\<close> between regions that do not overlap copies every byte and changes no other; \<^verbatim>\<open>memset\<close>
  fills its region and changes no other byte.
\<close>

theorem memcpy_exact:
  assumes "region d n \<inter> region s n = {}" "n \<le> 2 ^ 64"
  shows "(i < n \<longrightarrow> memcpy d s n m (d + of_nat i) = m (s + of_nat i)) \<and>
    (x \<notin> region d n \<longrightarrow> memcpy d s n m x = m x) \<and>
    memset d v n m x = (if x \<in> region d n then v else m x)"
  using memcpy_inside [OF assms] memcpy_outside memset_inside memset_outside by simp

theorem memcpy_exact_witness:
  "memcpy 100 200 2 (\<lambda>a. if a = 201 then 7 else 0) 101 = 7"
proof -
  have "region a 2 = {a + 1, a}" for a
    using region_Suc [of a 1] region_Suc [of a 0] by (simp add: region_def flip: Suc_1)
  then have "region 100 2 \<inter> region 200 2 = {}" by simp
  with memcpy_exact [of 100 2 200 1 "\<lambda>a. if a = 201 then 7 else 0"] show ?thesis by simp
qed

text \<open>
  \<^verbatim>\<open>strcmp\<close> returns 0 exactly on equal C strings and changes its sign when its arguments are
  swapped; \<^verbatim>\<open>strlen\<close> is the length of the C string; \<^verbatim>\<open>ramfs_cat\<close> prints the data of the first file with the
  given name and returns 0, or returns -1 with its message when there is none.
\<close>

theorem ramfs_cat_finds:
  "(strcmp a b = 0 \<longleftrightarrow> c_str a = c_str b) \<and> strcmp b a = - strcmp a b \<and> strlen a = length (c_str a) \<and>
   ramfs_cat name = (case find (\<lambda>f. c_str name = c_str (rf_name f)) files of
     Some f \<Rightarrow> (0, rf_data f) | None \<Rightarrow> (-1, ''cat: file not found'' @ [newline]))"
  using strcmp_eq_0 strcmp_antisym strlen_c_str cat_in_find unfolding ramfs_cat_def by blast

text \<open>
  On a device that reports itself idle often enough, \<^verbatim>\<open>uart_puts\<close> sends the C string with every
  newline preceded by a carriage return, and \<^verbatim>\<open>uart_print_u64\<close> and \<^verbatim>\<open>uart_print_int\<close> send the decimal digits
  of every 64-bit value, the most negative one included: the digit buffer is always long enough.
\<close>

theorem uart_prints:
  assumes "idle_for (length (crlf (c_str s))) u" "idle_for (length (dec_nat (unat x))) u" "idle_for (length (dec_int (sint x))) u"
  shows "(\<exists>u'. uart_puts s u = Some u' \<and> uart_thr u' = uart_thr u @ crlf (c_str s)) \<and>
    (\<exists>u'. uart_print_u64 x u = Some u' \<and> uart_thr u' = uart_thr u @ dec_nat (unat x)) \<and>
    (\<exists>u'. uart_print_int x u = Some u' \<and> uart_thr u' = uart_thr u @ dec_int (sint x))"
proof -
  have put: "\<exists>u'. put_chars t u = Some u' \<and> uart_thr u' = uart_thr u @ crlf t" if "idle_for (length (crlf t)) u" for t
    using put_chars_idle [of t 0 u] put_chars_thr [of t u] that by auto
  from put [of "c_str s"] put [of "dec_nat (unat x)"] put [of "dec_int (sint x)"] assms show ?thesis
    by (simp add: uart_puts_put_chars uart_print_u64_chars uart_print_int_chars crlf_dec)
qed

theorem uart_prints_witness:
  "\<exists>u'. uart_print_u64 42 \<lparr>uart_lsr = [0x20, 0, 0x60], uart_rhr = [], uart_thr = [], uart_ctl = (\<lambda>r. 0)\<rparr> = Some u' \<and> uart_thr u' = ''42''"
proof -
  let ?u = "\<lparr>uart_lsr = [0x20, 0, 0x60], uart_rhr = [], uart_thr = [], uart_ctl = (\<lambda>r. 0)\<rparr> :: uart"
  have "idle_for n ?u" if "n \<le> 2" for n using that by (simp add: idle_for_def TX_IDLE_def)
  moreover have "dec_nat 42 = ''42''" "dec_int 42 = ''42''" by code_simp+
  ultimately show ?thesis using uart_prints [of "[]" ?u 42] by (auto simp: c_str_def)
qed

text \<open>
  C37: The spin lock excludes: in every reachable state of any number of harts, under every
  interleaving of their atomic swaps, at most one hart holds the lock, and the lock word is 0 exactly
  when none does.
\<close>

theorem spin_lock_excludes:
  assumes "lock_step\<^sup>*\<^sup>* spin_init s"
  shows "(lk_harts s h = Holding \<and> lk_harts s g = Holding \<longrightarrow> h = g) \<and>
    (lk_locked s = 0 \<longleftrightarrow> (\<forall>h. lk_harts s h \<noteq> Holding))"
  using lock_inv_reachable [OF assms] by (auto simp: lock_inv_def)

theorem spin_lock_excludes_witness:
  "lock_step\<^sup>*\<^sup>* spin_init (spin_init\<lparr>lk_harts := (lk_harts spin_init)(3 := Spinning)\<rparr>) \<and>
   lk_locked (spin_init\<lparr>lk_harts := (lk_harts spin_init)(3 := Spinning)\<rparr>) = 0"
proof -
  have "lock_step\<^sup>*\<^sup>* spin_init (spin_init\<lparr>lk_harts := (lk_harts spin_init)(3 := Spinning)\<rparr>)"
    by (intro r_into_rtranclp lock_step.enter) (simp add: spin_init_def)
  with spin_lock_excludes [OF this] show ?thesis by (auto simp: spin_init_def)
qed

end
