(* ===== verification/Nano_Shell.thy ===== *)
theory Nano_Shell
  imports Nano_Lib
begin

text \<open>
  The user program of NanoBoot, \<^verbatim>\<open>user/sh.c\<close>: reading and editing a line, splitting it into tokens, parsing it into a
  command, and the commands. The program talks to the kernel through system calls only: its state holds the
  calls it has made, what each of them returns (a parameter: the reply to the \<open>n\<close>-th call is \<open>u_reply n\<close>), and the
  characters that successive reads deliver. Strings are the characters of a buffer before its
  terminator.
\<close>

section \<open>System calls\<close>

datatype call = Call_read | Call_write string | Call_write_kernel | Call_fork | Call_exit int | Call_wait
  | Call_getpid | Call_sleep "64 word" | Call_ps | Call_ls | Call_cat string

text \<open>A read of one character delivers it, or nothing.\<close>

record user =
  u_calls :: "call list"
  u_reply :: "nat \<Rightarrow> int"
  u_input :: "char option list"
  u_iso_var :: int

definition syscall :: "call \<Rightarrow> user \<Rightarrow> user" where
  "syscall c u = u\<lparr>u_calls := u_calls u @ [c]\<rparr>"

definition reply :: "user \<Rightarrow> int" where
  "reply u = u_reply u (length (u_calls u) - 1)"

text \<open>How a part of the program ends: it returns, the process has exited, or arithmetic overflows.\<close>

datatype flow = Back user | Gone user | Undefined

fun then_do :: "flow \<Rightarrow> (user \<Rightarrow> flow) \<Rightarrow> flow" where
  "then_do (Back u) f = f u"
| "then_do (Gone u) f = Gone u"
| "then_do Undefined f = Undefined"

section \<open>Strings and numbers\<close>

definition print :: "string \<Rightarrow> user \<Rightarrow> user" where
  "print s u = syscall (Call_write (c_str s)) u"

definition LONG_MIN :: int where
  "LONG_MIN = - (2 ^ 63)"

text \<open>The digits of a number, the last first, at most \<open>room\<close> of them.\<close>

fun num_digits :: "nat \<Rightarrow> nat \<Rightarrow> string" where
  "num_digits x 0 = []"
| "num_digits x (Suc room) = (if x = 0 then [] else digit_char (x mod 10) # num_digits (x div 10) room)"

definition print_num :: "int \<Rightarrow> user \<Rightarrow> flow" where
  "print_num x u =
     (if x = 0 then Back (print ''0'' u)
      else if x = LONG_MIN then Undefined
      else
        let u1 = (if x < 0 then print ''-'' u else u) in
        Back (fold (\<lambda>c. syscall (Call_write [c])) (rev (num_digits (nat \<bar>x\<bar>) 31)) u1))"

fun streq :: "string \<Rightarrow> string \<Rightarrow> bool" where
  "streq (a # as) (b # bs) = (if a \<noteq> NUL \<and> b \<noteq> NUL \<and> a = b then streq as bs else a = NUL \<and> b = NUL)"
| "streq as bs \<longleftrightarrow> char_at as 0 = NUL \<and> char_at bs 0 = NUL"

text \<open>\<^verbatim>\<open>str_copy\<close> into a buffer of \<open>room\<close> bytes.\<close>

fun str_copy :: "string \<Rightarrow> nat \<Rightarrow> string" where
  "str_copy [] room = []"
| "str_copy (c # s) room = (if c \<noteq> NUL \<and> room > 1 then c # str_copy s (room - 1) else [])"

definition is_digit :: "char \<Rightarrow> bool" where
  "is_digit c \<longleftrightarrow> 48 \<le> (of_char c :: nat) \<and> (of_char c :: nat) \<le> 57"

fun parse_num_loop :: "string \<Rightarrow> 64 word \<Rightarrow> 64 word" where
  "parse_num_loop [] x = x"
| "parse_num_loop (c # s) x = (if is_digit c then parse_num_loop s (x * 10 + of_nat (of_char c - 48)) else x)"

definition parse_num :: "string \<Rightarrow> 64 word" where
  "parse_num s = parse_num_loop s 0"

section \<open>Tokens\<close>

abbreviation MAX_LINE :: nat where "MAX_LINE \<equiv> 128"
abbreviation MAX_TOKENS :: nat where "MAX_TOKENS \<equiv> 32"
abbreviation MAX_TOKEN_LEN :: nat where "MAX_TOKEN_LEN \<equiv> 64"
abbreviation MAX_WORDS :: nat where "MAX_WORDS \<equiv> 16"

datatype token_type = TOK_END | TOK_WORD | TOK_PIPE | TOK_REDIR_IN | TOK_REDIR_OUT | TOK_REDIR_APPEND | TOK_AMPERSAND | TOK_ERROR

type_synonym token = "token_type \<times> string"

definition is_blank :: "char \<Rightarrow> bool" where
  "is_blank c \<longleftrightarrow> c = CHR '' '' \<or> c = CHR 0x09 \<or> c = CHR 0x0D \<or> c = newline"

definition is_operator :: "char \<Rightarrow> bool" where
  "is_operator c \<longleftrightarrow> c = CHR ''|'' \<or> c = CHR ''<'' \<or> c = CHR ''>'' \<or> c = CHR ''&''"

definition is_quote :: "char \<Rightarrow> bool" where
  "is_quote c \<longleftrightarrow> c = CHR 0x27 \<or> c = CHR 0x22"

text \<open>One more character of a word, dropped when the token is full.\<close>

definition put :: "string \<Rightarrow> char \<Rightarrow> string" where
  "put v c = (if length v < MAX_TOKEN_LEN - 1 then v @ [c] else v)"

text \<open>The loop over a word: the rest of the line, the open quote, and the text.\<close>

fun word_loop :: "string \<Rightarrow> char option \<Rightarrow> string \<Rightarrow> string \<times> char option \<times> string" where
  "word_loop [] q v = ([], q, v)"
| "word_loop (c # cs) None v =
     (if is_quote c then word_loop cs (Some c) v
      else if is_blank c \<or> is_operator c then (c # cs, None, v)
      else word_loop cs None (put v c))"
| "word_loop (c # cs) (Some k) v =
     (if c = k then word_loop cs None v else word_loop cs (Some k) (put v c))"

lemma word_loop_length: "length (fst (word_loop cs q v)) \<le> length cs"
  by (induction cs q v rule: word_loop.induct) (auto simp: le_SucI)

lemma word_loop_shorter: "\<not> is_blank c \<Longrightarrow> \<not> is_operator c \<Longrightarrow> length (fst (word_loop (c # cs) None v)) < Suc (length cs)"
  using word_loop_length [of cs] by (auto simp: less_Suc_eq_le)

lemma line_step:
  assumes "p = dropWhile is_blank line" "p \<noteq> []"
  shows "length (tl p) < length line" "length (tl (tl p)) < length line" "\<not> is_blank (hd p)"
    "\<not> is_operator (hd p) \<Longrightarrow> word_loop p None [] = (rest, q, v) \<Longrightarrow> length rest < length line"
proof -
  have le: "length p \<le> length line" using assms(1) by (simp add: length_dropWhile_le)
  obtain c cs where p: "p = c # cs" using assms(2) by (cases p) auto
  then show "length (tl p) < length line" "length (tl (tl p)) < length line" using le by auto
  show nb: "\<not> is_blank (hd p)" using assms hd_dropWhile by metis
  show "length rest < length line" if "\<not> is_operator (hd p)" "word_loop p None [] = (rest, q, v)"
    using word_loop_shorter [of c cs "[]"] nb le p that by auto
qed

definition err_tokens :: string where
  "err_tokens = ''error: command exceeds maximum token limit''"

definition err_quote :: string where
  "err_quote = ''syntax error: unclosed quote''"

text \<open>
  \<^verbatim>\<open>tokenize\<close> with room for \<open>max_tokens\<close> tokens, on the characters of the line before its terminator; the tokens are
  those before the end token.
\<close>

function tokenize :: "string \<Rightarrow> token list \<Rightarrow> nat \<Rightarrow> nat \<Rightarrow> string + token list" where
  "tokenize line toks max_tokens err_max =
     (let p = dropWhile is_blank line in
      if p = [] then Inr toks
      else if length toks \<ge> max_tokens - 1 then Inl (str_copy err_tokens err_max)
      else
        let c = hd p; ps = tl p in
        if c = CHR ''|'' then tokenize ps (toks @ [(TOK_PIPE, ''|'')]) max_tokens err_max
        else if c = CHR ''<'' then tokenize ps (toks @ [(TOK_REDIR_IN, ''<'')]) max_tokens err_max
        else if c = CHR ''>'' then
          (if ps \<noteq> [] \<and> hd ps = CHR ''>'' then tokenize (tl ps) (toks @ [(TOK_REDIR_APPEND, ''>>'')]) max_tokens err_max
           else tokenize ps (toks @ [(TOK_REDIR_OUT, ''>'')]) max_tokens err_max)
        else if c = CHR ''&'' then tokenize ps (toks @ [(TOK_AMPERSAND, ''&'')]) max_tokens err_max
        else
          let (rest, q, v) = word_loop p None [] in
          if q \<noteq> None then Inl (str_copy err_quote err_max)
          else tokenize rest (toks @ [(TOK_WORD, v)]) max_tokens err_max)"
  by pat_completeness auto
termination
proof (relation "measure (\<lambda>(line, _). length line)", goal_cases)
  case (7 line toks max_tokens err_max p c ps wl rest r q v)
  then have w: "word_loop p None [] = (rest, q, v)" and o: "\<not> is_operator (hd p)" by (simp_all add: is_operator_def)
  show ?case using line_step(4) [OF 7(1,2) o w] by simp
qed (use line_step(1,2) in auto)

declare tokenize.simps [simp del]

section \<open>Commands\<close>

record command =
  c_argv :: "string list"
  c_redir_in :: string
  c_redir_out :: string
  c_append :: bool
  c_background :: bool
  c_has_pipe :: bool

definition empty_command :: command where
  "empty_command = \<lparr>c_argv = [], c_redir_in = [], c_redir_out = [], c_append = False, c_background = False, c_has_pipe = False\<rparr>"

text \<open>The loop of \<^verbatim>\<open>parse_command\<close> over the tokens that are left; \<open>err_max\<close> is the size of the buffer for the message.\<close>

fun parse_loop :: "token list \<Rightarrow> command \<Rightarrow> nat \<Rightarrow> string + command" where
  "parse_loop [] cmd err_max = Inr cmd"
| "parse_loop ((ty, v) # ts) cmd err_max =
     (case ty of
        TOK_END \<Rightarrow> Inr cmd
      | TOK_WORD \<Rightarrow>
          if length (c_argv cmd) \<ge> MAX_WORDS - 1 then Inl (str_copy ''error: too many arguments'' err_max)
          else parse_loop ts (cmd\<lparr>c_argv := c_argv cmd @ [v]\<rparr>) err_max
      | TOK_REDIR_IN \<Rightarrow>
          (case ts of
             (TOK_WORD, w) # ts' \<Rightarrow> parse_loop ts' (cmd\<lparr>c_redir_in := str_copy w MAX_TOKEN_LEN\<rparr>) err_max
           | _ \<Rightarrow> Inl (str_copy (''syntax error: missing file for '' @ [CHR 0x27, CHR ''<'', CHR 0x27]) err_max))
      | TOK_PIPE \<Rightarrow>
          (case ts of
             (TOK_WORD, w) # ts' \<Rightarrow> parse_loop ts (cmd\<lparr>c_has_pipe := True\<rparr>) err_max
           | _ \<Rightarrow> Inl (str_copy (''syntax error: missing command after '' @ [CHR 0x27, CHR ''|'', CHR 0x27]) err_max))
      | TOK_AMPERSAND \<Rightarrow>
          if ts \<noteq> [] \<and> fst (hd ts) \<noteq> TOK_END
          then Inl (str_copy (''syntax error: '' @ [CHR 0x27, CHR ''&'', CHR 0x27] @ '' must be at end of command'') err_max)
          else parse_loop ts (cmd\<lparr>c_background := True\<rparr>) err_max
      | TOK_ERROR \<Rightarrow> parse_loop ts cmd err_max
      | _ \<Rightarrow>
          (case ts of
             (TOK_WORD, w) # ts' \<Rightarrow>
               parse_loop ts' (cmd\<lparr>c_redir_out := str_copy w MAX_TOKEN_LEN, c_append := (ty = TOK_REDIR_APPEND)\<rparr>) err_max
           | _ \<Rightarrow> Inl (str_copy ''syntax error: missing file for redirection'' err_max)))"

definition parse_command :: "token list \<Rightarrow> nat \<Rightarrow> string + command" where
  "parse_command tokens err_max =
     (case parse_loop tokens empty_command err_max of
        Inl e \<Rightarrow> Inl e
      | Inr cmd \<Rightarrow>
          if c_argv cmd = [] \<and> (c_has_pipe cmd \<or> c_redir_in cmd \<noteq> [] \<or> c_redir_out cmd \<noteq> [])
          then Inl (str_copy ''syntax error: missing command'' err_max)
          else Inr cmd)"

section \<open>What the commands do\<close>

definition nl :: "string \<Rightarrow> string" where
  "nl s = s @ [newline]"

definition show_help :: "user \<Rightarrow> user" where
  "show_help u = fold print
     [nl ''Commands:'',
      nl ''  help                 show this help'',
      nl ''  getpid               show current process id'',
      nl ''  ps                   show process table'',
      nl ''  echo TEXT            print TEXT'',
      nl ''  sleep N              sleep for N timer ticks'',
      nl ''  forktest             demonstrate fork/wait/exit'',
      nl ''  schedtest            demonstrate round-robin scheduler interleaving'',
      nl ''  ls                   list RAMFS files'',
      nl ''  cat FILE             print RAMFS file'',
      nl ''  isotest              verify kernel/user memory isolation'',
      nl ''  exit                 terminate this shell''] u"

definition forktest :: "user \<Rightarrow> flow" where
  "forktest u =
     (let u1 = syscall Call_fork u; pid = reply u1 in
      if pid < 0 then Back (print (nl ''fork failed'') u1)
      else if pid = 0 then
        let u2 = syscall Call_getpid (print ''forktest: child running, pid='' u1) in
        then_do (print_num (reply u2) u2) (\<lambda>u3.
          Gone (syscall (Call_exit 42) (print (nl ''forktest: child exiting'') (syscall (Call_sleep 2) (print (nl []) u3)))))
      else
        then_do (print_num pid (print ''forktest: parent created child pid='' u1)) (\<lambda>u2.
          let u3 = syscall Call_wait (print (nl '', waiting...'') u2); got = reply u3 in
          then_do (print_num got (print ''forktest: wait returned pid='' u3)) (\<lambda>u4. Back (print (nl []) u4))))"

text \<open>The loop both processes of \<^verbatim>\<open>schedtest\<close> run, three times.\<close>

definition sched_turn :: "string \<Rightarrow> int \<Rightarrow> user \<Rightarrow> flow" where
  "sched_turn who i u = then_do (print_num i (print who u)) (\<lambda>u1. Back (syscall (Call_sleep 1) (print ''] '' u1)))"

definition sched_turns :: "string \<Rightarrow> user \<Rightarrow> flow" where
  "sched_turns who u = then_do (then_do (sched_turn who 0 u) (sched_turn who 1)) (sched_turn who 2)"

definition schedtest :: "user \<Rightarrow> flow" where
  "schedtest u =
     (let u1 = syscall Call_fork (print (nl ''schedtest: starting round-robin scheduler test'') u); pid = reply u1 in
      if pid < 0 then Back (print (nl ''schedtest: fork failed'') u1)
      else if pid = 0 then
        then_do (sched_turns ''[child '' u1) (\<lambda>u2. Gone (syscall (Call_exit 0) (print (nl ''schedtest: child finished'') u2)))
      else
        then_do (sched_turns ''[parent '' u1) (\<lambda>u2.
          Back (print (nl ''schedtest: round-robin interleaving PASS'') (syscall Call_wait u2))))"

text \<open>The variable of the parent is its own: the child writes its copy.\<close>

definition run_isotest :: "user \<Rightarrow> flow" where
  "run_isotest u =
     (let u1 = syscall Call_write_kernel u;
          u2 = (if reply u1 < 0 then print (nl ''isolation PASS: kernel address rejected'') u1
                else print (nl ''isolation: kernel address accepted (FAIL)'') u1);
          u3 = syscall Call_fork (u2\<lparr>u_iso_var := 1234\<rparr>); pid = reply u3 in
      if pid < 0 then Back (print (nl ''isotest: fork failed'') u3)
      else if pid = 0 then Gone (syscall (Call_exit 0) (u3\<lparr>u_iso_var := 9999\<rparr>))
      else
        let u4 = syscall Call_wait u3 in
        if u_iso_var u4 = 1234
        then Back (print (nl ''isolation PASS: per-process Sv39 isolation verified'')
               (print (nl ''isolation: parent memory protected from child write (PASS)'') u4))
        else Back (print (nl ''isolation FAIL: parent memory corrupted'') u4))"

fun echo_args :: "string list \<Rightarrow> user \<Rightarrow> user" where
  "echo_args [] u = u"
| "echo_args [a] u = print a u"
| "echo_args (a # as) u = echo_args as (print '' '' (print a u))"

definition execute_command :: "command \<Rightarrow> user \<Rightarrow> flow" where
  "execute_command cmd u =
     (if c_argv cmd = [] then Back u
      else if c_has_pipe cmd then Back (print (nl ''pipe: not supported by NanoBoot architecture (no pipe syscall)'') u)
      else if c_redir_in cmd \<noteq> [] \<or> c_redir_out cmd \<noteq> []
      then Back (print (nl ''redirection: not supported by NanoBoot architecture (read-only RAMFS)'') u)
      else if c_background cmd then Back (print (nl ''background: not supported by NanoBoot architecture'') u)
      else
        let prog = hd (c_argv cmd); args = tl (c_argv cmd) in
        if streq prog ''help'' then Back (show_help u)
        else if streq prog ''getpid'' then
          let u1 = syscall Call_getpid (print ''pid='' u) in
          then_do (print_num (reply u1) u1) (\<lambda>u2. Back (print (nl []) u2))
        else if streq prog ''ps'' then Back (syscall Call_ps u)
        else if streq prog ''echo'' then Back (print (nl []) (echo_args args u))
        else if streq prog ''sleep'' then
          (if args = [] then Back (print (nl ''sleep: missing operand'') u)
           else Back (print (nl ''awake'') (syscall (Call_sleep (parse_num (hd args))) (print (nl ''sleeping...'') u))))
        else if streq prog ''forktest'' then forktest u
        else if streq prog ''ls'' then Back (syscall Call_ls u)
        else if streq prog ''cat'' then
          (if args = [] then Back (print (nl ''cat: missing file operand'') u) else Back (syscall (Call_cat (hd args)) u))
        else if streq prog ''schedtest'' then schedtest u
        else if streq prog ''isotest'' then run_isotest u
        else if streq prog ''exit'' then Gone (syscall (Call_exit 0) (print (nl ''shell exiting'') u))
        else Back (print (nl (''unknown command; type '' @ [CHR 0x27] @ ''help'' @ [CHR 0x27])) u))"

section \<open>The main loop\<close>

definition erase :: string where
  "erase = [CHR 0x08, CHR '' '', CHR 0x08]"

text \<open>The loop that reads a line; without further input it waits, which is \<open>Inl\<close>.\<close>

fun read_line :: "char option list \<Rightarrow> string \<Rightarrow> user \<Rightarrow> user + string \<times> user" where
  "read_line ins line u =
     (if length line \<ge> MAX_LINE - 1 then Inr (line, u\<lparr>u_input := ins\<rparr>)
      else case ins of
        [] \<Rightarrow> Inl (u\<lparr>u_input := []\<rparr>)
      | None # ins' \<Rightarrow> read_line ins' line (syscall Call_read u)
      | Some ch # ins' \<Rightarrow>
          let u1 = syscall Call_read u; c = (if ch = CHR 0x0D then newline else ch) in
          if c = newline then Inr (line, (print [newline] u1)\<lparr>u_input := ins'\<rparr>)
          else if c = CHR 0x08 \<or> c = CHR 0x7F then
            (if line \<noteq> [] then read_line ins' (butlast line) (print erase u1) else read_line ins' line u1)
          else read_line ins' (line @ [c]) (syscall (Call_write [c]) u1))"

declare read_line.simps [simp del]

definition process_line :: "string \<Rightarrow> user \<Rightarrow> flow" where
  "process_line line u =
     (case tokenize (c_str line) [] MAX_TOKENS 64 of
        Inl e \<Rightarrow> Back (print [newline] (print e u))
      | Inr tokens \<Rightarrow>
          (case parse_command tokens 64 of
             Inl e \<Rightarrow> Back (print [newline] (print e u))
           | Inr cmd \<Rightarrow> execute_command cmd u))"

lemma calls_keep [simp]:
  "u_input (syscall c u) = u_input u" "u_input (print s u) = u_input u" "u_reply (syscall c u) = u_reply u" "u_reply (print s u) = u_reply u"
  "u_calls (syscall c u) = u_calls u @ [c]" "u_calls (print s u) = u_calls u @ [Call_write (c_str s)]"
  by (simp_all add: syscall_def print_def)

lemma fold_calls [simp]:
  "u_input (fold (\<lambda>c. syscall (f c)) cs u) = u_input u" "u_reply (fold (\<lambda>c. syscall (f c)) cs u) = u_reply u"
  "u_calls (fold (\<lambda>c. syscall (f c)) cs u) = u_calls u @ map f cs"
  by (induction cs arbitrary: u) simp_all

lemma fold_print [simp]:
  "u_input (fold print ss u) = u_input u" "u_reply (fold print ss u) = u_reply u"
  "u_calls (fold print ss u) = u_calls u @ map (\<lambda>s. Call_write (c_str s)) ss"
  by (induction ss arbitrary: u) simp_all

lemma echo_args_keep [simp]: "u_input (echo_args as u) = u_input u" "u_reply (echo_args as u) = u_reply u"
  by (induction as u rule: echo_args.induct) simp_all

section \<open>What a part of the program keeps\<close>

text \<open>The calls other than writes that a program makes.\<close>

definition may_call :: "string \<Rightarrow> call \<Rightarrow> bool" where
  "may_call prog c \<longleftrightarrow>
     (case c of
        Call_write s \<Rightarrow> True
      | Call_read \<Rightarrow> False
      | Call_write_kernel \<Rightarrow> prog = ''isotest''
      | Call_fork \<Rightarrow> prog \<in> {''forktest'', ''schedtest'', ''isotest''}
      | Call_wait \<Rightarrow> prog \<in> {''forktest'', ''schedtest'', ''isotest''}
      | Call_exit n \<Rightarrow> prog \<in> {''forktest'', ''schedtest'', ''isotest'', ''exit''}
      | Call_getpid \<Rightarrow> prog \<in> {''getpid'', ''forktest''}
      | Call_sleep n \<Rightarrow> prog \<in> {''sleep'', ''forktest'', ''schedtest''}
      | Call_ps \<Rightarrow> prog = ''ps''
      | Call_ls \<Rightarrow> prog = ''ls''
      | Call_cat f \<Rightarrow> prog = ''cat'')"

lemma may_call_write [simp]: "may_call prog (Call_write s)"
  by (simp add: may_call_def)

lemma char_at_0: "char_at s 0 = NUL \<longleftrightarrow> c_str s = []"
  by (cases s) (simp_all add: char_at_def c_str_def)

lemma streq_c_str: "streq a b \<longleftrightarrow> c_str a = c_str b"
proof (induction a b rule: streq.induct)
  case (1 a as b bs)
  then show ?case by (auto simp: c_str_Cons)
qed (auto simp: char_at_0 simp: c_str_def)

lemma programs_plain [simp]:
  "c_str ''help'' = ''help''" "c_str ''getpid'' = ''getpid''" "c_str ''ps'' = ''ps''" "c_str ''echo'' = ''echo''" "c_str ''sleep'' = ''sleep''"
  "c_str ''forktest'' = ''forktest''" "c_str ''ls'' = ''ls''" "c_str ''cat'' = ''cat''" "c_str ''schedtest'' = ''schedtest''"
  "c_str ''isotest'' = ''isotest''" "c_str ''exit'' = ''exit''"
  by (simp_all add: c_str_def)

text \<open>The commands that are run; the others have no program, or ask for what the kernel does not have.\<close>

definition supported :: "command \<Rightarrow> bool" where
  "supported cmd \<longleftrightarrow> c_argv cmd \<noteq> [] \<and> \<not> c_has_pipe cmd \<and> c_redir_in cmd = [] \<and> c_redir_out cmd = [] \<and> \<not> c_background cmd"

text \<open>
  The part of the program that starts at \<open>u\<close> ends in a related state, exits in a state with a given property, or
  overflows where this is allowed.
\<close>

fun ends :: "(user \<Rightarrow> user \<Rightarrow> bool) \<Rightarrow> (user \<Rightarrow> bool) \<Rightarrow> (user \<Rightarrow> bool) \<Rightarrow> user \<Rightarrow> flow \<Rightarrow> bool" where
  "ends R G V u (Back u') = R u u'"
| "ends R G V u (Gone u') = (R u u' \<and> G u')"
| "ends R G V u Undefined = V u"

text \<open>
  A contract of the system calls, under which every part of the program keeps a relation between states: the calls of a kind
  keep it, an exit establishes its property, and an overflow needs a call that returned the smallest
  number.
\<close>

locale flow_contract =
  fixes R :: "user \<Rightarrow> user \<Rightarrow> bool" and G :: "user \<Rightarrow> bool" and V :: "user \<Rightarrow> bool" and P :: "call \<Rightarrow> bool"
  assumes same: "R u u"
    and chain: "R u v \<Longrightarrow> R v w \<Longrightarrow> R u w"
    and call: "P c \<Longrightarrow> R u (syscall c u)"
    and writes: "P (Call_write s)"
    and variable: "R u (u\<lparr>u_iso_var := x\<rparr>)"
    and exits: "G (syscall (Call_exit n) u)"
    and overflow: "reply u = LONG_MIN \<Longrightarrow> V u"
    and backward: "R u v \<Longrightarrow> V v \<Longrightarrow> V u"
begin

lemma ends_from: "R u v \<Longrightarrow> ends R G V v fl \<Longrightarrow> ends R G V u fl"
  by (cases fl) (auto intro: chain backward)

lemma ends_then_do: "ends R G V u fl \<Longrightarrow> (\<And>v. R u v \<Longrightarrow> ends R G V v (f v)) \<Longrightarrow> ends R G V u (then_do fl f)"
  by (cases fl) (auto intro: ends_from)

lemma after_call: "P c \<Longrightarrow> R u v \<Longrightarrow> R u (syscall c v)"
  by (rule chain [OF _ call])

lemma after_print: "R u v \<Longrightarrow> R u (print s v)"
  unfolding print_def by (rule after_call [OF writes])

lemma after_variable: "R u v \<Longrightarrow> R u (v\<lparr>u_iso_var := x\<rparr>)"
  by (rule chain [OF _ variable])

lemma after_prints: "R u v \<Longrightarrow> R u (fold print ss v)"
  by (induction ss arbitrary: v) (simp_all add: after_print)

lemma after_writes: "R u v \<Longrightarrow> R u (fold (\<lambda>c. syscall (Call_write [c])) cs v)"
  by (induction cs arbitrary: v) (simp_all add: after_call [OF writes])

lemma after_echo: "R u v \<Longrightarrow> R u (echo_args as v)"
  by (induction as v rule: echo_args.induct) (simp_all add: after_print)

lemmas after = same after_call after_print after_variable after_prints after_writes after_echo

lemma ends_num:
  assumes "R u v" "x = LONG_MIN \<Longrightarrow> V u" "\<And>w. R u w \<Longrightarrow> ends R G V u (f w)"
  shows "ends R G V u (then_do (print_num x v) f)"
proof -
  have "R u (print ''0'' v)" "R u (fold (\<lambda>c. syscall (Call_write [c])) ds (if x < 0 then print ''-'' v else v))" for ds
    using assms(1) by (simp_all add: after)
  then show ?thesis using assms(2,3) by (simp add: print_num_def Let_def)
qed

lemma overflow_after: "R u v \<Longrightarrow> reply v = LONG_MIN \<Longrightarrow> V u"
  using overflow backward by blast

lemma ends_forktest:
  assumes "P Call_fork" "P Call_getpid" "P (Call_sleep 2)" "P (Call_exit 42)" "P Call_wait"
  shows "ends R G V u (forktest u)"
  unfolding forktest_def Let_def
  using assms by (auto intro!: ends_num after exits elim!: overflow_after [rotated])

lemma ends_sched_turn: "0 \<le> i \<Longrightarrow> P (Call_sleep 1) \<Longrightarrow> ends R G V u (sched_turn who i u)"
  unfolding sched_turn_def by (auto intro!: ends_num after simp: LONG_MIN_def)

lemma ends_schedtest:
  assumes "P Call_fork" "P (Call_sleep 1)" "P (Call_exit 0)" "P Call_wait"
  shows "ends R G V u (schedtest u)"
proof -
  have turns: "ends R G V v (sched_turns who v)" for v who
    unfolding sched_turns_def using assms(2) by (intro ends_then_do ends_sched_turn) simp_all
  have go: "ends R G V u (then_do (sched_turns who v) f)" if "R u v" "\<And>w. R v w \<Longrightarrow> ends R G V w (f w)" for v who f
    using ends_from [OF that(1) ends_then_do [OF turns that(2)]] .
  show ?thesis
    unfolding schedtest_def Let_def using assms by (auto intro!: go after exits)
qed

lemma ends_isotest:
  assumes "P Call_write_kernel" "P Call_fork" "P (Call_exit 0)" "P Call_wait"
  shows "ends R G V u (run_isotest u)"
  unfolding run_isotest_def Let_def using assms by (auto intro!: after exits)

lemma ends_refused: "\<not> supported cmd \<Longrightarrow> ends R G V u (execute_command cmd u)"
  by (auto simp: execute_command_def supported_def intro!: after)

lemma ends_command:
  assumes "\<And>c. may_call (c_str (hd (c_argv cmd))) c \<Longrightarrow> P c"
  shows "ends R G V u (execute_command cmd u)"
proof (cases "supported cmd")
  case True
  define prog where "prog = c_str (hd (c_argv cmd))"
  have P: "prog = ''getpid'' \<Longrightarrow> P Call_getpid" "prog = ''ps'' \<Longrightarrow> P Call_ps" "prog = ''ls'' \<Longrightarrow> P Call_ls" "prog = ''exit'' \<Longrightarrow> P (Call_exit 0)"
    "prog = ''sleep'' \<Longrightarrow> P (Call_sleep n)" "prog = ''cat'' \<Longrightarrow> P (Call_cat f)" for n f
    using assms unfolding prog_def [symmetric] by (simp_all add: may_call_def)
  have F: "prog = ''forktest'' \<Longrightarrow> ends R G V u (forktest u)" "prog = ''schedtest'' \<Longrightarrow> ends R G V u (schedtest u)"
    "prog = ''isotest'' \<Longrightarrow> ends R G V u (run_isotest u)"
    using assms unfolding prog_def [symmetric] by (auto intro!: ends_forktest ends_schedtest ends_isotest simp: may_call_def)
  have num: "ends R G V u (then_do (print_num (reply v) v) (\<lambda>w. Back (print s w)))" if "R u v" for v s
    using that by (auto intro!: ends_num after elim!: overflow_after [rotated])
  show ?thesis
    using True unfolding execute_command_def supported_def streq_c_str programs_plain prog_def [symmetric] Let_def show_help_def
    by (auto intro!: num F P after exits)
qed (rule ends_refused)

lemma ends_process_line:
  assumes "\<And>c. P c"
  shows "ends R G V u (process_line line u)"
  unfolding process_line_def by (auto split: sum.splits intro!: after ends_command assms)

end

text \<open>
  Every part of the program leaves the input and the replies alone, exits by the call, and overflows only when a
  call returns the smallest number.
\<close>

definition no_min :: "user \<Rightarrow> bool" where
  "no_min u \<longleftrightarrow> (\<forall>n. u_reply u n \<noteq> LONG_MIN)"

definition same_world :: "user \<Rightarrow> user \<Rightarrow> bool" where
  "same_world u u' \<longleftrightarrow> u_input u' = u_input u \<and> u_reply u' = u_reply u"

definition has_exited :: "user \<Rightarrow> bool" where
  "has_exited u \<longleftrightarrow> (\<exists>cs s. u_calls u = cs @ [Call_exit s])"

interpretation tame: flow_contract same_world has_exited "\<lambda>u. \<not> no_min u" "\<lambda>c. True"
  by unfold_locales (auto simp: same_world_def has_exited_def no_min_def reply_def)

text \<open>A program only adds calls of its own.\<close>

definition adds_calls :: "(call \<Rightarrow> bool) \<Rightarrow> user \<Rightarrow> user \<Rightarrow> bool" where
  "adds_calls P u u' \<longleftrightarrow> (\<exists>cs. u_calls u' = u_calls u @ cs \<and> list_all P cs)"

interpretation own: flow_contract "adds_calls (may_call prog)" "\<lambda>u. True" "\<lambda>u. True" "may_call prog" for prog
  by unfold_locales (auto simp: adds_calls_def)

lemma tame_process_line: "ends same_world has_exited (\<lambda>u. \<not> no_min u) u (process_line line u)"
  by (rule tame.ends_process_line) simp

lemma read_line_input:
  assumes "read_line ins line u = Inr (line', u')"
  shows "length (u_input u') \<le> length ins \<and> u_reply u' = u_reply u \<and> (length line < MAX_LINE - 1 \<longrightarrow> length (u_input u') < length ins)"
  using assms
proof (induction ins arbitrary: line u)
  case Nil
  then show ?case by (auto simp: read_line.simps [of "[]"] split: if_splits)
next
  case (Cons i ins)
  show ?case
  proof (cases "length line < MAX_LINE - 1")
    case False
    then show ?thesis using Cons.prems by (auto simp: read_line.simps [of "i # ins"])
  next
    case True
    have step: "length (u_input u') \<le> length (i # ins) \<and> u_reply u' = u_reply u \<and> length (u_input u') < length (i # ins)"
      if "read_line ins line2 u2 = Inr (line', u')" "u_reply u2 = u_reply u" for line2 u2
      using Cons.IH [OF that(1)] that(2) by simp
    show ?thesis
    proof (cases i)
      case None
      then have "read_line ins line (syscall Call_read u) = Inr (line', u')" using Cons.prems True by (simp add: read_line.simps [of "None # ins"])
      from step [OF this] show ?thesis by simp
    next
      case (Some ch)
      then show ?thesis
        using Cons.prems True step by (auto simp: read_line.simps [of "Some ch # ins"] Let_def split: if_splits)
    qed
  qed
qed

datatype outcome = Waits user | Exits user | Overflows

text \<open>The endless loop of \<^verbatim>\<open>main\<close>; every line takes a character from the input.\<close>

function shell_loop :: "user \<Rightarrow> outcome" where
  "shell_loop u =
     (case read_line (u_input u) [] (print ''nb$ '' u) of
        Inl u1 \<Rightarrow> Waits u1
      | Inr (line, u1) \<Rightarrow>
          (case process_line line u1 of Back u2 \<Rightarrow> shell_loop u2 | Gone u2 \<Rightarrow> Exits u2 | Undefined \<Rightarrow> Overflows))"
  by pat_completeness auto
termination
proof (relation "measure (\<lambda>u. length (u_input u))")
  fix u r line u1 u2
  assume r: "read_line (u_input u) [] (print ''nb$ '' u) = Inr r" "(line, u1) = r" and p: "process_line line u1 = Back u2"
  then have "length (u_input u1) < length (u_input u)" using read_line_input [of "u_input u" "[]" "print ''nb$ '' u" line u1] by simp
  moreover have "u_input u2 = u_input u1" using tame_process_line [of u1 line] p by (simp add: same_world_def)
  ultimately show "(u2, u) \<in> measure (\<lambda>u. length (u_input u))" by simp
qed simp

declare shell_loop.simps [simp del]

definition shell_main :: "user \<Rightarrow> outcome" where
  "shell_main u =
     shell_loop (print (nl (nl (''Type '' @ [CHR 0x27] @ ''help'' @ [CHR 0x27] @ '' for commands.'')))
       (print ([newline] @ nl ''Welcome to NanoBoot user shell.'') u))"

end
