(* ===== verification/Nano_Session.thy ===== *)
theory Nano_Session
  imports Nano_Shell
begin

text \<open>
  What the user shell of NanoBoot guarantees: the tokens of a line fit the arrays, a command printed as a line runs as that
  command, the screen shows the line being edited, numbers print and read back, and what the
  kernel cannot do is refused.
\<close>

section \<open>Tokens\<close>

lemma put_length: "length v \<le> 63 \<Longrightarrow> length (put v c) \<le> 63"
  by (simp add: put_def)

lemma word_loop_text: "length v \<le> 63 \<Longrightarrow> length (snd (snd (word_loop cs q v))) \<le> 63"
  by (induction cs q v rule: word_loop.induct) (auto simp: put_length)

lemma word_loop_set:
  "x \<notin> set cs \<Longrightarrow> x \<notin> set v \<Longrightarrow> x \<notin> set (snd (snd (word_loop cs q v)))" "x \<notin> set cs \<Longrightarrow> x \<notin> set (fst (word_loop cs q v))"
  by (induction cs q v rule: word_loop.induct) (simp_all add: put_def)

text \<open>The text of a word fits its token, terminator included.\<close>

definition word_ok :: "string \<Rightarrow> bool" where
  "word_ok w \<longleftrightarrow> length w < MAX_TOKEN_LEN \<and> NUL \<notin> set w"

text \<open>The tokens a line can have.\<close>

definition token_ok :: "token \<Rightarrow> bool" where
  "token_ok t \<longleftrightarrow>
     (case fst t of
        TOK_WORD \<Rightarrow> word_ok (snd t)
      | TOK_PIPE \<Rightarrow> snd t = ''|'' | TOK_REDIR_IN \<Rightarrow> snd t = ''<'' | TOK_REDIR_OUT \<Rightarrow> snd t = ''>''
      | TOK_REDIR_APPEND \<Rightarrow> snd t = ''>>'' | TOK_AMPERSAND \<Rightarrow> snd t = ''&''
      | _ \<Rightarrow> False)"

text \<open>One token of a line that starts with it, and the rest; none for an unclosed quote.\<close>

definition lex_one :: "string \<Rightarrow> (token \<times> string) option" where
  "lex_one p =
     (let c = hd p; ps = tl p in
      if c = CHR ''|'' then Some ((TOK_PIPE, ''|''), ps)
      else if c = CHR ''<'' then Some ((TOK_REDIR_IN, ''<''), ps)
      else if c = CHR ''>'' then
        (if ps \<noteq> [] \<and> hd ps = CHR ''>'' then Some ((TOK_REDIR_APPEND, ''>>''), tl ps) else Some ((TOK_REDIR_OUT, ''>''), ps))
      else if c = CHR ''&'' then Some ((TOK_AMPERSAND, ''&''), ps)
      else case word_loop p None [] of (rest, None, v) \<Rightarrow> Some ((TOK_WORD, v), rest) | _ \<Rightarrow> None)"

lemma tokenize_empty: "dropWhile is_blank line = [] \<Longrightarrow> tokenize line toks n e = Inr toks"
  by (simp add: tokenize.simps [of line])

lemma tokenize_full: "dropWhile is_blank line \<noteq> [] \<Longrightarrow> n - 1 \<le> length toks \<Longrightarrow> tokenize line toks n e = Inl (str_copy err_tokens e)"
  unfolding tokenize.simps [of line] Let_def by simp

lemma tokenize_step:
  assumes "dropWhile is_blank line = p" "p \<noteq> []" "length toks < n - 1"
  shows "tokenize line toks n e =
    (case lex_one p of None \<Rightarrow> Inl (str_copy err_quote e) | Some (t, rest) \<Rightarrow> tokenize rest (toks @ [t]) n e)"
  using assms(2,3) unfolding tokenize.simps [of line] assms(1) lex_one_def Let_def
  by (auto split: prod.splits option.splits)

lemma lex_one_shorter:
  assumes "dropWhile is_blank line = p" "p \<noteq> []" "lex_one p = Some (t, rest)"
  shows "length rest < length line"
proof -
  note l = line_step [OF assms(1) [symmetric] assms(2)]
  show ?thesis
    using assms(3) l(1,2,4) by (auto simp: lex_one_def Let_def is_operator_def split: if_splits prod.splits option.splits)
qed

lemma lex_one_ok:
  assumes "lex_one p = Some (t, rest)" "NUL \<notin> set p" "p \<noteq> []"
  shows "token_ok t" "NUL \<notin> set rest"
proof -
  have "NUL \<notin> set (tl p)" "NUL \<notin> set (tl (tl p))" using assms(2) by (cases p; cases "tl p"; auto)+
  then show "token_ok t" "NUL \<notin> set rest"
    using assms word_loop_text [of "[]" p None] word_loop_set(1) [of NUL p "[]" None] word_loop_set(2) [of NUL p None "[]"]
    by (auto simp: lex_one_def Let_def token_ok_def word_ok_def split: if_splits prod.splits option.splits)
qed

lemma tokenize_fits:
  assumes "tokenize line toks n e = Inr toks'" "list_all token_ok toks" "length toks < n" "NUL \<notin> set line"
  shows "list_all token_ok toks' \<and> length toks' < n"
  using assms
proof (induction "length line" arbitrary: line toks rule: less_induct)
  case less
  let ?p = "dropWhile is_blank line"
  consider "?p = []" | "?p \<noteq> []" "n - 1 \<le> length toks" | "?p \<noteq> []" "length toks < n - 1" by linarith
  then show ?case
  proof cases
    case 1
    then show ?thesis using less.prems by (simp add: tokenize_empty)
  next
    case 2
    then show ?thesis using less.prems(1) by (simp add: tokenize_full)
  next
    case 3
    then obtain t rest where t: "lex_one ?p = Some (t, rest)" "tokenize rest (toks @ [t]) n e = Inr toks'"
      using less.prems(1) by (auto simp: tokenize_step [OF refl] split: option.splits)
    have "NUL \<notin> set ?p" using less.prems(4) set_dropWhileD by metis
    note ok = lex_one_ok [OF t(1) this 3(1)]
    show ?thesis using less.hyps [OF lex_one_shorter [OF refl 3(1) t(1)] t(2)] less.prems(2) ok 3(2) by simp
  qed
qed

section \<open>Commands as lines\<close>

text \<open>Any text is a word when each of its characters is quoted.\<close>

definition quote_char :: "char \<Rightarrow> string" where
  "quote_char c = (if c = CHR 0x27 then [CHR 0x22, c, CHR 0x22] else [CHR 0x27, c, CHR 0x27])"

definition print_word :: "string \<Rightarrow> string" where
  "print_word w = [CHR 0x27, CHR 0x27] @ concat (map quote_char w)"

fun print_token :: "token \<Rightarrow> string" where
  "print_token (ty, v) = (if ty = TOK_WORD then print_word v else v)"

definition print_tokens :: "token list \<Rightarrow> string" where
  "print_tokens ts = concat (map (\<lambda>t. print_token t @ '' '') ts)"

lemma word_loop_quoted:
  assumes "length (v @ w) < MAX_TOKEN_LEN"
  shows "word_loop (concat (map quote_char w) @ CHR '' '' # rest) None v = (CHR '' '' # rest, None, v @ w)"
  using assms
proof (induction w arbitrary: v)
  case Nil
  then show ?case by (simp add: is_quote_def is_blank_def)
next
  case (Cons c w)
  let ?tail = "concat (map quote_char w) @ CHR '' '' # rest"
  have p: "put v c = v @ [c]" using Cons.prems by (simp add: put_def)
  have "word_loop (quote_char c @ ?tail) None v = word_loop ?tail None (put v c)"
    by (cases "c = CHR 0x27") (simp_all add: quote_char_def is_quote_def)
  then show ?case using Cons.IH [of "v @ [c]"] Cons.prems p by simp
qed

lemma lex_one_printed:
  assumes "token_ok t"
  shows "lex_one (print_token t @ CHR '' '' # rest) = Some (t, CHR '' '' # rest)"
    "dropWhile is_blank (print_token t @ xs) = print_token t @ xs" "print_token t \<noteq> []"
proof -
  obtain ty v where t: "t = (ty, v)" by fastforce
  have "lex_one (print_token t @ CHR '' '' # rest) = Some (t, CHR '' '' # rest) \<and>
      dropWhile is_blank (print_token t @ xs) = print_token t @ xs \<and> print_token t \<noteq> []"
  proof (cases "ty = TOK_WORD")
    case True
    then have "word_loop (print_word v @ CHR '' '' # rest) None [] = (CHR '' '' # rest, None, v)"
      using assms t word_loop_quoted [of "[]" v rest] by (simp add: token_ok_def word_ok_def print_word_def is_quote_def)
    then show ?thesis using True t by (simp add: lex_one_def print_word_def is_blank_def Let_def)
  next
    case False
    then show ?thesis
      using assms t by (cases ty) (auto simp: token_ok_def word_ok_def lex_one_def is_blank_def Let_def)
  qed
  then show "lex_one (print_token t @ CHR '' '' # rest) = Some (t, CHR '' '' # rest)"
    "dropWhile is_blank (print_token t @ xs) = print_token t @ xs" "print_token t \<noteq> []" by blast+
qed

lemma tokenize_printed:
  assumes "list_all token_ok ts" "length toks + length ts < n"
  shows "tokenize (CHR '' '' # print_tokens ts) toks n e = Inr (toks @ ts)" "tokenize (print_tokens ts) toks n e = Inr (toks @ ts)"
proof -
  have blank: "is_blank (CHR '' '')" by (simp add: is_blank_def)
  have "tokenize xs toks n e = Inr (toks @ ts)" if "dropWhile is_blank xs = dropWhile is_blank (print_tokens ts)" for xs
    using assms that
  proof (induction ts arbitrary: toks xs)
    case Nil
    then show ?case by (simp add: tokenize_empty print_tokens_def)
  next
    case (Cons t ts)
    have pt: "token_ok t" using Cons.prems(1) by simp
    let ?rest = "CHR '' '' # print_tokens ts"
    have e: "print_tokens (t # ts) = print_token t @ ?rest" by (simp add: print_tokens_def)
    have p: "dropWhile is_blank xs = print_token t @ ?rest" using Cons.prems(3) lex_one_printed(2) [OF pt] e by simp
    have ne: "print_token t @ ?rest \<noteq> []" by simp
    have r: "length toks < n - 1" using Cons.prems(2) by simp
    have "tokenize xs toks n e = tokenize ?rest (toks @ [t]) n e"
      unfolding tokenize_step [OF p ne r] lex_one_printed(1) [OF pt] by simp
    also have "\<dots> = Inr ((toks @ [t]) @ ts)" using Cons.prems(1,2) blank by (intro Cons.IH) simp_all
    finally show ?case by simp
  qed
  then show "tokenize (CHR '' '' # print_tokens ts) toks n e = Inr (toks @ ts)" "tokenize (print_tokens ts) toks n e = Inr (toks @ ts)"
    using blank by simp_all
qed

text \<open>
  The grammar of a command: arguments and redirections in any order, bars each before an argument, and
  an ampersand at the end.
\<close>

datatype item = Arg string | In_file string | Out_file bool string | Bar

fun item_tokens :: "item \<Rightarrow> token list" where
  "item_tokens (Arg w) = [(TOK_WORD, w)]"
| "item_tokens (In_file w) = [(TOK_REDIR_IN, ''<''), (TOK_WORD, w)]"
| "item_tokens (Out_file app w) = [(if app then (TOK_REDIR_APPEND, ''>>'') else (TOK_REDIR_OUT, ''>'')), (TOK_WORD, w)]"
| "item_tokens Bar = [(TOK_PIPE, ''|'')]"

fun item_word :: "item \<Rightarrow> string" where
  "item_word (Arg w) = w"
| "item_word (In_file w) = w"
| "item_word (Out_file app w) = w"
| "item_word Bar = []"

fun bars_ok :: "item list \<Rightarrow> bool" where
  "bars_ok [] = True"
| "bars_ok (Bar # its) = ((\<exists>w its'. its = Arg w # its') \<and> bars_ok its)"
| "bars_ok (it # its) = bars_ok its"

fun args_of :: "item list \<Rightarrow> string list" where
  "args_of [] = []"
| "args_of (Arg w # its) = w # args_of its"
| "args_of (it # its) = args_of its"

text \<open>What a command line means: the last redirection of each kind counts.\<close>

fun add_item :: "item \<Rightarrow> command \<Rightarrow> command" where
  "add_item (Arg w) cmd = cmd\<lparr>c_argv := c_argv cmd @ [w]\<rparr>"
| "add_item (In_file w) cmd = cmd\<lparr>c_redir_in := w\<rparr>"
| "add_item (Out_file app w) cmd = cmd\<lparr>c_redir_out := w, c_append := app\<rparr>"
| "add_item Bar cmd = cmd\<lparr>c_has_pipe := True\<rparr>"

definition meaning :: "item list \<Rightarrow> bool \<Rightarrow> command" where
  "meaning its bg = (fold add_item its empty_command)\<lparr>c_background := bg\<rparr>"

definition line_tokens :: "item list \<Rightarrow> bool \<Rightarrow> token list" where
  "line_tokens its bg = concat (map item_tokens its) @ (if bg then [(TOK_AMPERSAND, ''&'')] else [])"

definition grammatical :: "item list \<Rightarrow> bool" where
  "grammatical its \<longleftrightarrow> bars_ok its \<and> list_all (\<lambda>it. word_ok (item_word it)) its \<and> length (args_of its) < MAX_WORDS \<and>
     (args_of its \<noteq> [] \<or> c_redir_in (meaning its False) = [] \<and> c_redir_out (meaning its False) = [])"

lemma str_copy_word: "word_ok w \<Longrightarrow> str_copy w MAX_TOKEN_LEN = w"
proof -
  have "length w < n \<Longrightarrow> NUL \<notin> set w \<Longrightarrow> str_copy w n = w" for n by (induction w n rule: str_copy.induct) auto
  then show "word_ok w \<Longrightarrow> str_copy w MAX_TOKEN_LEN = w" by (simp add: word_ok_def)
qed

lemma line_tokens_Cons [simp]: "line_tokens (it # its) bg = item_tokens it @ line_tokens its bg"
  by (simp add: line_tokens_def)

lemma parse_loop_items:
  assumes "bars_ok its" "list_all (\<lambda>it. word_ok (item_word it)) its" "length (c_argv cmd) + length (args_of its) < MAX_WORDS"
    "\<not> c_background cmd"
  shows "parse_loop (line_tokens its bg) cmd e = Inr ((fold add_item its cmd)\<lparr>c_background := bg\<rparr>)"
  using assms
proof (induction its arbitrary: cmd)
  case Nil
  then show ?case by (simp add: line_tokens_def)
next
  case (Cons it its)
  have ih: "parse_loop (line_tokens its bg) (add_item it cmd) e = Inr ((fold add_item (it # its) cmd)\<lparr>c_background := bg\<rparr>)"
    using Cons by (cases it) auto
  show ?case
  proof (cases it)
    case Bar
    then obtain w its' where "its = Arg w # its'" using Cons.prems(1) by auto
    then show ?thesis using ih Bar by simp
  next
    case (Out_file app w)
    then show ?thesis using ih Cons.prems by (cases app) (simp_all add: str_copy_word)
  qed (use ih Cons.prems in \<open>simp_all add: str_copy_word\<close>)
qed

lemma line_tokens_word: "line_tokens its bg = (TOK_WORD, w) # ts \<Longrightarrow> \<exists>its'. its = Arg w # its'"
proof (cases its)
  case (Cons it its')
  then show "line_tokens its bg = (TOK_WORD, w) # ts \<Longrightarrow> \<exists>its'. its = Arg w # its'" by (cases it) (auto split: if_splits)
qed (auto simp: line_tokens_def split: if_splits)

text \<open>The tokens that are left are those of items, which are what the loop adds.\<close>

definition loop_accepts :: "token list \<Rightarrow> command \<Rightarrow> command \<Rightarrow> bool" where
  "loop_accepts toks cmd cmd' \<longleftrightarrow>
     (\<exists>its bg. toks = line_tokens its bg \<and> bars_ok its \<and> list_all (\<lambda>it. word_ok (item_word it)) its \<and>
       length (c_argv cmd) + length (args_of its) < MAX_WORDS \<and> cmd' = (fold add_item its cmd)\<lparr>c_background := bg\<rparr>)"

lemma loop_accepts_item:
  assumes "loop_accepts toks (add_item it cmd) cmd'" "word_ok (item_word it)"
    "it = Bar \<Longrightarrow> fst (hd toks) = TOK_WORD \<and> toks \<noteq> []"
  shows "loop_accepts (item_tokens it @ toks) cmd cmd'"
proof -
  obtain its bg where i: "toks = line_tokens its bg" "bars_ok its" "list_all (\<lambda>it. word_ok (item_word it)) its"
    "length (c_argv (add_item it cmd)) + length (args_of its) < MAX_WORDS" "cmd' = (fold add_item its (add_item it cmd))\<lparr>c_background := bg\<rparr>"
    using assms(1) by (auto simp: loop_accepts_def)
  have "bars_ok (it # its)"
  proof (cases it)
    case Bar
    then obtain w ts where "toks = (TOK_WORD, w) # ts" using assms(3) by (cases toks) auto
    then show ?thesis using Bar i(1,2) line_tokens_word [of its bg w ts] by auto
  qed (use i(2) in simp_all)
  moreover have "length (c_argv cmd) + length (args_of (it # its)) < MAX_WORDS" using i(4) by (cases it) auto
  ultimately show ?thesis
    unfolding loop_accepts_def using i assms(2) by (intro exI [of _ "it # its"] exI [of _ bg]) simp
qed

lemma parse_loop_accepts:
  assumes "parse_loop toks cmd e = Inr cmd'" "list_all token_ok toks" "length (c_argv cmd) < MAX_WORDS" "\<not> c_background cmd"
  shows "loop_accepts toks cmd cmd'"
  using assms
proof (induction "length toks" arbitrary: toks cmd rule: less_induct)
  case less
  note step = less.hyps [THEN loop_accepts_item]
  have stop: "loop_accepts [] cmd cmd"
    using less.prems(3,4) unfolding loop_accepts_def by (intro exI [of _ "[]"] exI [of _ False]) (simp add: line_tokens_def)
  have word: "word_ok w" if "token_ok (TOK_WORD, w)" for w using that by (simp add: token_ok_def)
  show ?case
  proof (cases toks)
    case Nil
    then show ?thesis using less.prems(1) stop by simp
  next
    case (Cons t ts)
    obtain ty v where t: "t = (ty, v)" by fastforce
    have ok: "token_ok (ty, v)" "list_all token_ok ts" using less.prems(2) Cons t by simp_all
    show ?thesis
    proof (cases ty)
      case TOK_WORD
      then show ?thesis using less.prems step [of ts "Arg v" cmd] word [of v] Cons t ok by (auto split: if_splits)
    next
      case TOK_PIPE
      then obtain w ts' where "ts = (TOK_WORD, w) # ts'" "parse_loop ts (add_item Bar cmd) e = Inr cmd'"
        using less.prems(1) Cons t by (auto split: list.splits token_type.splits)
      then show ?thesis using less.prems step [of ts Bar cmd] Cons t ok TOK_PIPE by (simp add: token_ok_def word_ok_def)
    next
      case TOK_REDIR_IN
      then obtain w ts' where w: "ts = (TOK_WORD, w) # ts'" "parse_loop ts' (cmd\<lparr>c_redir_in := str_copy w MAX_TOKEN_LEN\<rparr>) e = Inr cmd'"
        using less.prems(1) Cons t by (auto split: list.splits token_type.splits)
      then show ?thesis
        using less.prems step [of ts' "In_file w" cmd] Cons t ok word [of w] TOK_REDIR_IN by (simp add: str_copy_word token_ok_def)
    next
      case TOK_REDIR_OUT
      then obtain w ts' where w: "ts = (TOK_WORD, w) # ts'"
        "parse_loop ts' (cmd\<lparr>c_redir_out := str_copy w MAX_TOKEN_LEN, c_append := False\<rparr>) e = Inr cmd'"
        using less.prems(1) Cons t by (auto split: list.splits token_type.splits)
      then show ?thesis
        using less.prems step [of ts' "Out_file False w" cmd] Cons t ok word [of w] TOK_REDIR_OUT by (simp add: str_copy_word token_ok_def)
    next
      case TOK_REDIR_APPEND
      then obtain w ts' where w: "ts = (TOK_WORD, w) # ts'"
        "parse_loop ts' (cmd\<lparr>c_redir_out := str_copy w MAX_TOKEN_LEN, c_append := True\<rparr>) e = Inr cmd'"
        using less.prems(1) Cons t by (auto split: list.splits token_type.splits)
      then show ?thesis
        using less.prems step [of ts' "Out_file True w" cmd] Cons t ok word [of w] TOK_REDIR_APPEND by (simp add: str_copy_word token_ok_def)
    next
      case TOK_AMPERSAND
      then have "ts = []" "cmd' = cmd\<lparr>c_background := True\<rparr>"
        using less.prems(1) Cons t ok by (cases ts; auto simp: token_ok_def split: if_splits)+
      then show ?thesis
        using less.prems(3) Cons t ok TOK_AMPERSAND unfolding loop_accepts_def
        by (intro exI [of _ "[]"] exI [of _ True]) (simp add: line_tokens_def token_ok_def)
    qed (use ok in \<open>simp_all add: token_ok_def\<close>)
  qed
qed

lemma fold_argv: "c_argv (fold add_item its cmd) = c_argv cmd @ args_of its"
proof (induction its arbitrary: cmd)
  case (Cons it its)
  then show ?case by (cases it) simp_all
qed simp

lemma bars_have_args: "bars_ok its \<Longrightarrow> args_of its = [] \<Longrightarrow> c_has_pipe (fold add_item its cmd) = c_has_pipe cmd"
proof (induction its arbitrary: cmd)
  case (Cons it its)
  show ?case
  proof (cases it)
    case Bar
    then obtain w its' where "its = Arg w # its'" using Cons.prems(1) by auto
    then show ?thesis using Cons.prems(2) Bar by simp
  qed (use Cons in simp_all)
qed simp

lemma redirections_fit:
  assumes "list_all (\<lambda>it. word_ok (item_word it)) its" "word_ok (c_redir_in cmd)" "word_ok (c_redir_out cmd)"
  shows "word_ok (c_redir_in (fold add_item its cmd)) \<and> word_ok (c_redir_out (fold add_item its cmd))"
  using assms
proof (induction its arbitrary: cmd)
  case (Cons it its)
  then show ?case by (cases it) auto
qed simp

lemma parse_command_items:
  assumes "list_all token_ok toks"
  shows "parse_command toks e = Inr cmd \<longleftrightarrow> (\<exists>its bg. grammatical its \<and> toks = line_tokens its bg \<and> cmd = meaning its bg)"
proof
  assume "parse_command toks e = Inr cmd"
  then have l: "parse_loop toks empty_command e = Inr cmd"
    and c: "c_argv cmd \<noteq> [] \<or> \<not> (c_has_pipe cmd \<or> c_redir_in cmd \<noteq> [] \<or> c_redir_out cmd \<noteq> [])"
    by (auto simp: parse_command_def split: sum.splits if_splits)
  have "loop_accepts toks empty_command cmd" using parse_loop_accepts [OF l assms] by (simp add: empty_command_def)
  then obtain its bg where i: "toks = line_tokens its bg" "bars_ok its" "list_all (\<lambda>it. word_ok (item_word it)) its"
    "length (args_of its) < MAX_WORDS" "cmd = meaning its bg"
    by (auto simp: loop_accepts_def meaning_def empty_command_def)
  have "grammatical its" using i c by (auto simp: grammatical_def meaning_def fold_argv empty_command_def)
  then show "\<exists>its bg. grammatical its \<and> toks = line_tokens its bg \<and> cmd = meaning its bg" using i by auto
next
  assume "\<exists>its bg. grammatical its \<and> toks = line_tokens its bg \<and> cmd = meaning its bg"
  then obtain its bg where i: "grammatical its" "toks = line_tokens its bg" "cmd = meaning its bg" by auto
  have "parse_loop toks empty_command e = Inr cmd"
    using parse_loop_items [of its empty_command bg e] i by (simp add: grammatical_def meaning_def empty_command_def)
  moreover have "c_argv cmd = args_of its" using i(3) by (simp add: meaning_def fold_argv empty_command_def)
  moreover have "\<not> c_has_pipe cmd \<and> c_redir_in cmd = [] \<and> c_redir_out cmd = []" if "args_of its = []"
    using i(1,3) that bars_have_args [of its empty_command] by (simp add: grammatical_def meaning_def empty_command_def)
  ultimately show "parse_command toks e = Inr cmd" by (auto simp: parse_command_def)
qed

lemma print_tokens_NUL: "list_all token_ok ts \<Longrightarrow> NUL \<notin> set (print_tokens ts)"
proof (induction ts)
  case (Cons t ts)
  obtain ty v where t: "t = (ty, v)" by fastforce
  have "NUL \<notin> set (print_token t)"
    using Cons.prems t by (cases ty) (auto simp: token_ok_def word_ok_def print_word_def quote_char_def split: if_splits)
  then show ?case using Cons t by (simp add: print_tokens_def)
qed (simp add: print_tokens_def)

lemma line_tokens_ok: "list_all (\<lambda>it. word_ok (item_word it)) its \<Longrightarrow> list_all token_ok (line_tokens its bg)"
proof (induction its)
  case (Cons it its)
  then show ?case by (cases it) (simp_all add: token_ok_def)
qed (simp add: line_tokens_def token_ok_def)

section \<open>The line editor\<close>

text \<open>The line that keys leave: backspace and delete take the last character away.\<close>

definition is_rubout :: "char \<Rightarrow> bool" where
  "is_rubout c \<longleftrightarrow> c = CHR 0x08 \<or> c = CHR 0x7F"

definition edit :: "string \<Rightarrow> string \<Rightarrow> string" where
  "edit line raw = foldl (\<lambda>l c. if is_rubout c then butlast l else l @ [c]) line raw"

definition typeable :: "char \<Rightarrow> bool" where
  "typeable c \<longleftrightarrow> is_rubout c \<or> 32 \<le> (of_char c :: nat) \<and> (of_char c :: nat) < 127"

text \<open>The keys that reads deliver, and that the line never fills the buffer while they are typed.\<close>

definition keys :: "char option list \<Rightarrow> string" where
  "keys ins = concat (map (\<lambda>i. case i of None \<Rightarrow> [] | Some c \<Rightarrow> [c]) ins)"

definition has_room :: "string \<Rightarrow> string \<Rightarrow> bool" where
  "has_room line raw \<longleftrightarrow> (\<forall>k \<le> length raw. length (edit line (take k raw)) < MAX_LINE - 1)"

text \<open>
  A terminal: what is left of the cursor and what is right of it in its line. A backspace moves the cursor, any other
  character replaces what is under it.
\<close>

fun show_char :: "char \<Rightarrow> string \<times> string \<Rightarrow> string \<times> string" where
  "show_char c (l, r) =
     (if c = CHR 0x08 then (if l = [] then (l, r) else (butlast l, last l # r))
      else if c = newline then (l @ [newline], [])
      else (l @ [c], tl r))"

fun written :: "call \<Rightarrow> string" where
  "written (Call_write s) = s"
| "written _ = []"

definition screen :: "user \<Rightarrow> string \<times> string" where
  "screen u = fold show_char (concat (map written (u_calls u))) ([], [])"

lemma screen_calls:
  "screen (syscall c u) = fold show_char (written c) (screen u)" "screen (print s u) = fold show_char (c_str s) (screen u)"
  "screen (u\<lparr>u_input := ins\<rparr>) = screen u"
  by (simp_all add: screen_def)

lemma screen_erase: "screen u = (l @ [c], r) \<Longrightarrow> screen (print erase u) = (l, CHR '' '' # r)"
  by (simp add: screen_calls erase_def c_str_def)

lemma edit_simps: "edit line [] = line" "edit line (c # raw) = edit (if is_rubout c then butlast line else line @ [c]) raw"
  by (simp_all add: edit_def)

lemma keys_simps [simp]: "keys [] = []" "keys (None # ins) = keys ins" "keys (Some c # ins) = c # keys ins"
  by (simp_all add: keys_def)

lemma has_room_Nil: "has_room line [] \<longleftrightarrow> length line < MAX_LINE - 1"
  by (simp add: has_room_def edit_def)

lemma has_room_Cons: "has_room line (c # raw) \<longleftrightarrow> length line < MAX_LINE - 1 \<and> has_room (if is_rubout c then butlast line else line @ [c]) raw"
proof -
  have "(\<forall>k \<le> Suc n. P k) \<longleftrightarrow> P 0 \<and> (\<forall>k \<le> n. P (Suc k))" for P :: "nat \<Rightarrow> bool" and n
    by (metis Suc_le_mono le0 not0_implies_Suc)
  then show ?thesis by (simp add: has_room_def edit_simps)
qed

lemma typeable_plain:
  assumes "typeable c"
  shows "c \<noteq> newline" "c \<noteq> CHR 0x0D" "is_rubout c \<or> c \<noteq> CHR 0x08"
proof -
  have "of_char newline = (10 :: nat)" "of_char (CHR 0x0D) = (13 :: nat)" by simp_all
  then show "c \<noteq> newline" "c \<noteq> CHR 0x0D" "is_rubout c \<or> c \<noteq> CHR 0x08" using assms by (auto simp: typeable_def is_rubout_def)
qed

text \<open>While the keys of a line are read, the screen shows the line.\<close>

lemma read_line_edits:
  assumes "list_all typeable (keys ins)" "has_room line (keys ins)" "fst (screen u) = s @ line"
    "e = newline \<or> e = CHR 0x0D"
  shows "\<exists>u'. read_line (ins @ Some e # rest) line u = Inr (edit line (keys ins), u') \<and> u_input u' = rest \<and>
    fst (screen u') = s @ edit line (keys ins) @ [newline]"
  using assms(1-3)
proof (induction ins arbitrary: line u)
  case Nil
  then have "length line < MAX_LINE - 1" by (simp add: has_room_Nil)
  then show ?case
    using assms(4) Nil(3) by (cases "screen u") (auto simp: read_line.simps [of "Some e # rest"] edit_def screen_calls c_str_def)
next
  case (Cons i ins)
  show ?case
  proof (cases i)
    case None
    have room: "length line < MAX_LINE - 1" using Cons.prems(2) unfolding has_room_def by (auto simp: edit_def dest: spec [of _ 0])
    have "fst (screen (syscall Call_read u)) = s @ line" using Cons.prems(3) by (simp add: screen_calls)
    with None room Cons.IH [of line "syscall Call_read u"] Cons.prems(1,2) show ?thesis
      by (simp add: read_line.simps [of "None # _"])
  next
    case (Some c)
    let ?line = "if is_rubout c then butlast line else line @ [c]" and ?u = "syscall Call_read u"
    have c: "typeable c" "list_all typeable (keys ins)" "length line < MAX_LINE - 1" "has_room ?line (keys ins)"
      using Cons.prems(1,2) Some by (simp_all add: has_room_Cons)
    define v where "v = (if is_rubout c then if line = [] then ?u else print erase ?u else syscall (Call_write [c]) ?u)"
    have read: "read_line (Some c # ins @ Some e # rest) line u = read_line (ins @ Some e # rest) ?line v"
      using c(3) typeable_plain [OF c(1)] by (simp add: read_line.simps [of "Some c # _"] v_def is_rubout_def)
    have "fst (screen v) = s @ ?line"
    proof (cases "is_rubout c \<and> line \<noteq> []")
      case True
      then have "screen ?u = ((s @ butlast line) @ [last line], snd (screen u))" using Cons.prems(3) by (cases "screen u") (simp add: screen_calls)
      from screen_erase [OF this] show ?thesis using True by (simp add: v_def)
    next
      case False
      then show ?thesis
        using Cons.prems(3) typeable_plain [OF c(1)] by (cases "screen u") (auto simp: v_def screen_calls)
    qed
    from Cons.IH [OF c(2,4) this] show ?thesis using Some read by (simp add: edit_simps)
  qed
qed

section \<open>Numbers\<close>

lemma num_digits_dec: "0 < x \<Longrightarrow> x < 10 ^ room \<Longrightarrow> rev (num_digits x room) = dec_nat x"
proof (induction x room rule: num_digits.induct)
  case (2 x room)
  show ?case
  proof (cases "x < 10")
    case True
    then show ?thesis using 2(2) by (cases room) (simp_all add: dec_nat.simps [of x])
  next
    case False
    then have "0 < x div 10" "x div 10 < 10 ^ room" using 2(3) by (simp_all add: div_greater_zero_iff less_mult_imp_div_less)
    then show ?thesis using 2 False by (simp add: dec_nat.simps [of x])
  qed
qed simp

lemma of_digit: "d < 10 \<Longrightarrow> of_char (digit_char d) = 48 + (d :: nat)"
  by (simp add: digit_char_def)

lemma parse_num_loop_append: "list_all is_digit s \<Longrightarrow> parse_num_loop (s @ t) x = parse_num_loop t (parse_num_loop s x)"
  by (induction s arbitrary: x) simp_all

lemma parse_dec_nat: "list_all is_digit (dec_nat n) \<and> parse_num (dec_nat n) = of_nat n"
proof (induction n rule: dec_nat.induct)
  case (1 n)
  have d: "is_digit (digit_char d)" "of_char (digit_char d) - 48 = d" if "d < 10" for d
    using of_digit [OF that] that by (simp_all add: is_digit_def)
  show ?case
  proof (cases "n < 10")
    case True
    then show ?thesis using d [of n] by (simp add: dec_nat.simps [of n] parse_num_def)
  next
    case False
    then have ih: "list_all is_digit (dec_nat (n div 10))" "parse_num_loop (dec_nat (n div 10)) 0 = of_nat (n div 10)"
      using "1.IH" by (simp_all add: parse_num_def)
    have "of_nat (n div 10) * 10 + of_nat (n mod 10) = (of_nat n :: 64 word)"
      by (metis div_mult_mod_eq of_nat_add of_nat_mult of_nat_numeral)
    then show ?thesis
      using False ih d [of "n mod 10"] by (simp add: dec_nat.simps [of n] parse_num_def parse_num_loop_append)
  qed
qed

lemma print_num_writes:
  assumes "LONG_MIN < x" "x < 2 ^ 63"
  shows "\<exists>u'. print_num x u = Back u' \<and> concat (map written (u_calls u')) = concat (map written (u_calls u)) @ dec_int x"
proof (cases "x = 0")
  case True
  then show ?thesis by (simp add: print_num_def c_str_def dec_int_def dec_nat_0)
next
  case False
  have "rev (num_digits (nat \<bar>x\<bar>) 31) = dec_nat (nat \<bar>x\<bar>)" using assms False by (intro num_digits_dec) (auto simp: LONG_MIN_def)
  then show ?thesis
    using assms(1) False by (cases "x < 0") (simp_all add: print_num_def dec_int_def c_str_def o_def)
qed

text \<open>A number printed by \<^verbatim>\<open>print_num\<close> reads back by \<^verbatim>\<open>parse_num\<close>; the smallest number cannot be negated.\<close>

lemma print_num_round_trip:
  assumes "0 \<le> x" "x < 2 ^ 63"
  shows "\<exists>u'. print_num x u = Back u' \<and> concat (map written (u_calls u')) = concat (map written (u_calls u)) @ dec_int x"
    "parse_num (dec_int x) = of_int x" "print_num LONG_MIN u = Undefined"
  using print_num_writes [of x u] parse_dec_nat [of "nat x"] assms by (simp_all add: dec_int_def LONG_MIN_def print_num_def)

section \<open>The calls of a command\<close>

lemma refused_prints:
  assumes "\<not> supported cmd"
  shows "\<exists>ms. execute_command cmd u = Back (fold print ms u)"
proof -
  have "execute_command cmd u = Back (fold print [] u)" if "c_argv cmd = []" using that by (simp add: execute_command_def)
  moreover have "\<exists>m. execute_command cmd u = Back (fold print [m] u)" if "c_argv cmd \<noteq> []"
    using that assms by (auto simp: execute_command_def supported_def)
  ultimately show ?thesis by blast
qed

text \<open>The command that a line runs, if any.\<close>

definition line_command :: "string \<Rightarrow> command option" where
  "line_command line =
     (case tokenize (c_str line) [] MAX_TOKENS 64 of
        Inl e \<Rightarrow> None
      | Inr toks \<Rightarrow> (case parse_command toks 64 of Inl e \<Rightarrow> None | Inr cmd \<Rightarrow> if supported cmd then Some cmd else None))"

lemma process_line_command:
  "line_command line = Some cmd \<Longrightarrow> process_line line u = execute_command cmd u"
  "line_command line = None \<Longrightarrow> \<exists>ms. process_line line u = Back (fold print ms u)"
proof -
  show "line_command line = Some cmd \<Longrightarrow> process_line line u = execute_command cmd u"
    by (auto simp: line_command_def process_line_def split: sum.splits if_splits)
  have err: "\<exists>ms. Back (print [newline] (print e u)) = Back (fold print ms u)" for e
    by (rule exI [of _ "[e, [newline]]"]) simp
  show "line_command line = None \<Longrightarrow> \<exists>ms. process_line line u = Back (fold print ms u)"
    using err refused_prints by (auto simp: line_command_def process_line_def split: sum.splits if_splits)
qed

section \<open>The main loop\<close>

lemma read_line_waits: "read_line ins line u = Inl u' \<Longrightarrow> u_input u' = []"
proof (induction ins arbitrary: line u)
  case Nil
  then show ?case by (auto simp: read_line.simps [of "[]"] split: if_splits)
next
  case (Cons i ins)
  then show ?case by (cases i) (auto simp: read_line.simps [of "_ # _"] Let_def split: if_splits)
qed

lemma shell_loop_ends:
  "(shell_loop u = Overflows \<longrightarrow> \<not> no_min u) \<and>
   (\<forall>u'. shell_loop u = Exits u' \<longrightarrow> (\<exists>cs s. u_calls u' = cs @ [Call_exit s])) \<and>
   (\<forall>u'. shell_loop u = Waits u' \<longrightarrow> u_input u' = [])"
proof (induction u rule: shell_loop.induct)
  case (1 u)
  show ?case
  proof (cases "read_line (u_input u) [] (print ''nb$ '' u)")
    case (Inl u1)
    then show ?thesis using read_line_waits [OF Inl] by (simp add: shell_loop.simps [of u])
  next
    case (Inr r)
    obtain line u1 where r: "r = (line, u1)" by fastforce
    have same: "u_reply u1 = u_reply u" using read_line_input [OF Inr [unfolded r]] by simp
    note t = tame_process_line [of u1 line]
    show ?thesis
    proof (cases "process_line line u1")
      case (Back u2)
      then have "no_min u2 = no_min u" using t same by (simp add: no_min_def same_world_def)
      moreover note "1.IH" [OF Inr r [symmetric] Back]
      ultimately show ?thesis using Inr r Back by (simp add: shell_loop.simps [of u])
    qed (use Inr r t same in \<open>auto simp: shell_loop.simps [of u] no_min_def has_exited_def\<close>)
  qed
qed

text \<open>A user program before its first call.\<close>

definition fresh_user :: "char option list \<Rightarrow> user" where
  "fresh_user ins = \<lparr>u_calls = [], u_reply = (\<lambda>n. 1), u_input = ins, u_iso_var = 1234\<rparr>"

section \<open>The properties\<close>

text \<open>
  C23: The tokens of any line the tokenizer accepts fit the array of tokens with the end token, every word with its terminator
  fits the text of its token, and whatever command the parser makes of them has at most fifteen arguments (the array holds them
  and the null pointer) and file names that fit their buffers.
\<close>

theorem tokens_fit_arrays:
  assumes "tokenize (c_str line) [] MAX_TOKENS e = Inr toks"
  shows "length toks < MAX_TOKENS \<and> list_all token_ok toks \<and>
    (\<forall>cmd. parse_command toks e' = Inr cmd \<longrightarrow>
       length (c_argv cmd) < MAX_WORDS \<and> word_ok (c_redir_in cmd) \<and> word_ok (c_redir_out cmd))"
proof -
  have "NUL \<notin> set (c_str line)" unfolding c_str_def by (auto dest: set_takeWhileD)
  then have t: "list_all token_ok toks" "length toks < MAX_TOKENS" using tokenize_fits [OF assms] by simp_all
  have "length (c_argv cmd) < MAX_WORDS \<and> word_ok (c_redir_in cmd) \<and> word_ok (c_redir_out cmd)" if p: "parse_command toks e' = Inr cmd" for cmd
  proof -
    obtain its bg where i: "grammatical its" "cmd = meaning its bg" using p parse_command_items [OF t(1)] by auto
    then show ?thesis
      using redirections_fit [of its empty_command] by (simp add: grammatical_def meaning_def fold_argv empty_command_def word_ok_def)
  qed
  then show ?thesis using t by blast
qed

text \<open>
  C18: The parser accepts exactly the token sequences of the grammar, arguments and redirections in any order, bars each before
  an argument, an ampersand at the end, at most fifteen arguments, and a command unless there are no redirections: and the
  command it makes is the meaning of the sequence.
\<close>

theorem parse_command_accepts_grammar:
  assumes "list_all token_ok toks"
  shows "parse_command toks e = Inr cmd \<longleftrightarrow> (\<exists>its bg. grammatical its \<and> toks = line_tokens its bg \<and> cmd = meaning its bg)"
  using parse_command_items [OF assms] .

text \<open>
  C17: A command written as a line, with every character of its words in quotes, runs as that command: whatever its words hold
  (blanks, quotes, operators), the line is split and parsed back into exactly this command.
\<close>

theorem written_line_runs_command:
  assumes "grammatical its" "length (line_tokens its bg) < MAX_TOKENS"
  shows "process_line (print_tokens (line_tokens its bg)) u = execute_command (meaning its bg) u"
proof -
  have ok: "list_all token_ok (line_tokens its bg)" using assms(1) line_tokens_ok by (simp add: grammatical_def)
  have "c_str (print_tokens (line_tokens its bg)) = print_tokens (line_tokens its bg)"
    using print_tokens_NUL [OF ok] unfolding c_str_def by (auto simp: takeWhile_eq_all_conv)
  moreover have "parse_command (line_tokens its bg) 64 = Inr (meaning its bg)" using parse_command_items [OF ok] assms(1) by blast
  ultimately show ?thesis using tokenize_printed(2) [OF ok, of "[]" MAX_TOKENS 64] assms(2) by (simp add: process_line_def)
qed

theorem tokens_fit_arrays_witness:
  "length [(TOK_WORD, ''cat''), (TOK_WORD, ''a b'')] < MAX_TOKENS \<and> list_all token_ok [(TOK_WORD, ''cat''), (TOK_WORD, ''a b'')]"
proof -
  have "tokenize (c_str (''cat '' @ [CHR 0x27] @ ''a b'' @ [CHR 0x27])) [] MAX_TOKENS 64 = Inr [(TOK_WORD, ''cat''), (TOK_WORD, ''a b'')]"
    by (simp add: c_str_def tokenize.simps is_blank_def is_quote_def is_operator_def put_def Let_def)
  from tokens_fit_arrays [OF this] show ?thesis by blast
qed

theorem parse_command_accepts_grammar_witness:
  "parse_command [(TOK_WORD, ''ls''), (TOK_PIPE, ''|''), (TOK_WORD, ''wc''), (TOK_REDIR_OUT, ''>''), (TOK_WORD, ''f'')] 64
     = Inr (meaning [Arg ''ls'', Bar, Arg ''wc'', Out_file False ''f''] False)"
proof -
  let ?toks = "[(TOK_WORD, ''ls''), (TOK_PIPE, ''|''), (TOK_WORD, ''wc''), (TOK_REDIR_OUT, ''>''), (TOK_WORD, ''f'')]"
  have "list_all token_ok ?toks" by (simp add: token_ok_def word_ok_def)
  moreover have "grammatical [Arg ''ls'', Bar, Arg ''wc'', Out_file False ''f'']" by (simp add: grammatical_def word_ok_def)
  moreover have "?toks = line_tokens [Arg ''ls'', Bar, Arg ''wc'', Out_file False ''f''] False" by (simp add: line_tokens_def)
  ultimately show ?thesis using parse_command_accepts_grammar [of ?toks 64] by blast
qed

theorem written_line_runs_command_witness:
  "process_line (print_tokens (line_tokens [Arg ''echo'', Arg ''a > b''] False)) (fresh_user []) =
     Back (fold print [''a > b'', [newline]] (fresh_user []))"
proof -
  have "process_line (print_tokens (line_tokens [Arg ''echo'', Arg ''a > b''] False)) (fresh_user []) =
      execute_command (meaning [Arg ''echo'', Arg ''a > b''] False) (fresh_user [])"
    by (rule written_line_runs_command) (simp_all add: grammatical_def word_ok_def line_tokens_def)
  then show ?thesis
    by (simp add: meaning_def empty_command_def execute_command_def streq_c_str c_str_def nl_def)
qed

text \<open>
  C19: A line makes the calls of its own program only. A line that is not split or parsed, or asks for a pipe, a redirection or a
  background job, which this kernel does not have, makes no call but writes of a message and returns to the prompt.
\<close>

theorem line_makes_own_calls:
  "(\<forall>cmd. line_command line = Some cmd \<longrightarrow>
      supported cmd \<and> process_line line u = execute_command cmd u \<and>
      ends (adds_calls (may_call (c_str (hd (c_argv cmd))))) (\<lambda>u. True) (\<lambda>u. True) u (process_line line u)) \<and>
   (line_command line = None \<longrightarrow> (\<exists>ms. process_line line u = Back (fold print ms u)))"
proof -
  have "supported cmd" if "line_command line = Some cmd" for cmd
    using that by (auto simp: line_command_def split: sum.splits if_splits)
  then show ?thesis using process_line_command [of line] own.ends_command by metis
qed

theorem line_makes_own_calls_witness:
  "(\<exists>ms. process_line ''ls | cat'' (fresh_user []) = Back (fold print ms (fresh_user []))) \<and>
   ends (adds_calls (may_call ''ps'')) (\<lambda>u. True) (\<lambda>u. True) (fresh_user []) (process_line ''ps'' (fresh_user []))"
proof -
  note evaluate = line_command_def c_str_def tokenize.simps is_blank_def is_quote_def is_operator_def put_def Let_def
    parse_command_def empty_command_def supported_def
  have none: "line_command ''ls | cat'' = None" by (simp add: evaluate)
  have some: "line_command ''ps'' = Some (empty_command\<lparr>c_argv := [''ps'']\<rparr>)" by (simp add: evaluate)
  have "ends (adds_calls (may_call ''ps'')) (\<lambda>u. True) (\<lambda>u. True) (fresh_user []) (process_line ''ps'' (fresh_user []))"
    using line_makes_own_calls [of "''ps''" "fresh_user []"] some by auto
  then show ?thesis using line_makes_own_calls [of "''ls | cat''" "fresh_user []"] none by blast
qed

text \<open>
  C20: The line editor: keys that are printable characters, backspaces and deletes, with failed reads in between, and an
  end of line give the line that editing leaves, provided it never fills the buffer; the input after
  them is left, and the screen shows what it showed, that line and a new line.
\<close>

theorem read_line_shows_line:
  assumes "list_all typeable (keys ins)" "has_room [] (keys ins)" "e = newline \<or> e = CHR 0x0D"
  shows "\<exists>u'. read_line (ins @ Some e # rest) [] u = Inr (edit [] (keys ins), u') \<and> u_input u' = rest \<and>
    fst (screen u') = fst (screen u) @ edit [] (keys ins) @ [newline]"
  using read_line_edits [OF assms(1,2) _ assms(3)] by simp

theorem read_line_shows_line_witness:
  "\<exists>u'. read_line ([Some (CHR ''p''), None, Some (CHR ''x''), Some (CHR 0x7F), Some (CHR ''s'')] @ Some (CHR 0x0D) # []) [] (fresh_user [])
     = Inr (''ps'', u') \<and> fst (screen u') = ''ps'' @ [newline]"
proof -
  let ?ins = "[Some (CHR ''p''), None, Some (CHR ''x''), Some (CHR 0x7F), Some (CHR ''s'')]"
  have "list_all typeable (keys ?ins)" by (simp add: typeable_def is_rubout_def)
  moreover have "has_room [] (keys ?ins)" by (simp add: has_room_Cons has_room_Nil is_rubout_def)
  moreover have "edit [] (keys ?ins) = ''ps''" by (simp add: edit_def is_rubout_def)
  ultimately show ?thesis
    using read_line_shows_line [of ?ins "CHR 0x0D" "[]" "fresh_user []"] by (auto simp: screen_def fresh_user_def)
qed



end
