(* ===== verification/Nano_VM.thy ===== *)
theory Nano_VM
  imports Nano_Lib
begin

text \<open>
  Virtual memory of NanoBoot, \<^verbatim>\<open>kernel/vm.h\<close> and \<^verbatim>\<open>kernel/vm.c\<close>: three-level Sv39 page tables whose pages come
  from a fixed pool, the address spaces of user processes, and the copies between user and kernel
  memory. Page-table entries and addresses are 64-bit words. The addresses the linker chooses (the
  pool, the memory of the user slots, the end of the kernel) are the argument \<open>layout\<close>.
\<close>

unbundle bit_operations_syntax

section \<open>Constants and entries\<close>

type_synonym pte = "64 word"

definition PGSIZE :: "64 word" where "PGSIZE = 4096"
definition PTE_V :: pte where "PTE_V = 1"
definition PTE_R :: pte where "PTE_R = 2"
definition PTE_W :: pte where "PTE_W = 4"
definition PTE_X :: pte where "PTE_X = 8"
definition PTE_U :: pte where "PTE_U = 16"
definition PTE_A :: pte where "PTE_A = 64"
definition PTE_D :: pte where "PTE_D = 128"

definition USER_BASE :: addr where "USER_BASE = 0x40000000"
definition USER_STACK_TOP :: addr where "USER_STACK_TOP = 0x80000000"
definition UART0 :: addr where "UART0 = 0x10000000"
definition KERNEL_START :: addr where "KERNEL_START = 0x80000000"

declare PGSIZE_def [layout_defs] USER_BASE_def [layout_defs] USER_STACK_TOP_def [layout_defs]

abbreviation NPROC :: nat where "NPROC \<equiv> 8"
abbreviation PT_POOL_PAGES :: nat where "PT_POOL_PAGES \<equiv> 1024"
abbreviation USER_IMAGE_PAGES :: nat where "USER_IMAGE_PAGES \<equiv> 4"
abbreviation USER_TOTAL_PAGES :: nat where "USER_TOTAL_PAGES \<equiv> 5"

definition vpn :: "addr \<Rightarrow> nat \<Rightarrow> nat" where
  "vpn va level = unat (drop_bit (12 + 9 * level) va AND 0x1FF)"

definition pa2pte :: "addr \<Rightarrow> pte" where
  "pa2pte pa = push_bit 10 (drop_bit 12 pa)"

definition pte2pa :: "pte \<Rightarrow> addr" where
  "pte2pa e = push_bit 12 (drop_bit 10 e)"

section \<open>The page-table pool\<close>

record layout =
  lay_pool :: addr
  lay_user :: addr
  lay_kernel_end :: addr

text \<open>\<open>vm_pool\<close> gives the entries of each page of the pool, \<open>vm_kernel_pt\<close> the kernel's table (0 is \<^verbatim>\<open>NULL\<close>).\<close>

record vm =
  vm_pool :: "nat \<Rightarrow> nat \<Rightarrow> pte"
  vm_used :: "bool list"
  vm_kernel_pt :: addr
  vm_mem :: memory

definition page_addr :: "layout \<Rightarrow> nat \<Rightarrow> addr" where
  "page_addr L i = lay_pool L + of_nat i * PGSIZE"

text \<open>The page of the pool an address lies in.\<close>

definition page_of :: "layout \<Rightarrow> addr \<Rightarrow> nat option" where
  "page_of L a =
     (if a < lay_pool L \<or> a \<ge> lay_pool L + of_nat PT_POOL_PAGES * PGSIZE then None
      else Some (unat ((a - lay_pool L) div PGSIZE)))"

definition pt_alloc :: "layout \<Rightarrow> vm \<Rightarrow> addr \<times> vm" where
  "pt_alloc L v =
     (case first_index (\<lambda>u. \<not> u) (vm_used v) of
        None \<Rightarrow> (0, v)
      | Some i \<Rightarrow> (page_addr L i,
          v\<lparr>vm_used := (vm_used v)[i := True], vm_pool := (vm_pool v)(i := \<lambda>_. 0)\<rparr>))"

definition pt_release :: "layout \<Rightarrow> addr \<Rightarrow> vm \<Rightarrow> vm" where
  "pt_release L p v =
     (if p = 0 then v
      else (case page_of L p of
          None \<Rightarrow> v
        | Some i \<Rightarrow> v\<lparr>vm_used := (vm_used v)[i := False]\<rparr>))"

text \<open>Reading and writing entry \<open>idx\<close> of the table at an address; a table outside the pool is a fault.\<close>

definition read_pte :: "layout \<Rightarrow> addr \<Rightarrow> nat \<Rightarrow> vm \<Rightarrow> pte res" where
  "read_pte L p idx v = (case page_of L p of None \<Rightarrow> Inl OutOfBounds | Some i \<Rightarrow> Inr (vm_pool v i idx))"

definition write_pte :: "layout \<Rightarrow> addr \<Rightarrow> nat \<Rightarrow> pte \<Rightarrow> vm \<Rightarrow> vm res" where
  "write_pte L p idx e v =
     (case page_of L p of
        None \<Rightarrow> Inl OutOfBounds
      | Some i \<Rightarrow> Inr (v\<lparr>vm_pool := (vm_pool v)(i := (vm_pool v i)(idx := e))\<rparr>))"

section \<open>Building and destroying tables\<close>

text \<open>Going down one level, making the table below if there is none: its address, or \<open>None\<close> without a free page.\<close>

definition descend :: "layout \<Rightarrow> addr \<Rightarrow> nat \<Rightarrow> vm \<Rightarrow> (addr option \<times> vm) res" where
  "descend L p idx v =
     (case read_pte L p idx v of
        Inl f \<Rightarrow> Inl f
      | Inr e \<Rightarrow>
          if e AND PTE_V = 0 then
            (case pt_alloc L v of (child, v1) \<Rightarrow>
               if child = 0 then Inr (None, v1)
               else let e1 = pa2pte child OR PTE_V in
                 (case write_pte L p idx e1 v1 of
                    Inl f \<Rightarrow> Inl f
                  | Inr v2 \<Rightarrow> Inr (Some (pte2pa e1), v2)))
          else Inr (Some (pte2pa e), v))"

definition leaf_entry :: "addr \<Rightarrow> pte \<Rightarrow> pte" where
  "leaf_entry pa perm =
     (let e = pa2pte pa OR perm OR PTE_V OR PTE_A in if perm AND PTE_W \<noteq> 0 then e OR PTE_D else e)"

text \<open>One round of the loop of \<^verbatim>\<open>mappages\<close>: the page at \<open>a\<close>.\<close>

definition map_page :: "layout \<Rightarrow> addr \<Rightarrow> addr \<Rightarrow> addr \<Rightarrow> pte \<Rightarrow> vm \<Rightarrow> (int \<times> vm) res" where
  "map_page L pt a pa perm v =
     (case descend L pt (vpn a 2) v of
        Inl f \<Rightarrow> Inl f
      | Inr (None, v1) \<Rightarrow> Inr (-1, v1)
      | Inr (Some p1, v1) \<Rightarrow>
          (case descend L p1 (vpn a 1) v1 of
             Inl f \<Rightarrow> Inl f
           | Inr (None, v2) \<Rightarrow> Inr (-1, v2)
           | Inr (Some p0, v2) \<Rightarrow>
               (case read_pte L p0 (vpn a 0) v2 of
                  Inl f \<Rightarrow> Inl f
                | Inr e \<Rightarrow>
                    if e AND PTE_V \<noteq> 0 then Inr (-1, v2)
                    else (case write_pte L p0 (vpn a 0) (leaf_entry pa perm) v2 of
                        Inl f \<Rightarrow> Inl f
                      | Inr v3 \<Rightarrow> Inr (0, v3)))))"

primrec map_loop :: "layout \<Rightarrow> addr \<Rightarrow> nat \<Rightarrow> addr \<Rightarrow> addr \<Rightarrow> pte \<Rightarrow> vm \<Rightarrow> (int \<times> vm) res" where
  "map_loop L pt 0 a pa perm v = Inr (0, v)"
| "map_loop L pt (Suc n) a pa perm v =
     (case map_page L pt a pa perm v of
        Inl f \<Rightarrow> Inl f
      | Inr (rc, v1) \<Rightarrow> if rc \<noteq> 0 then Inr (-1, v1) else map_loop L pt n (a + PGSIZE) (pa + PGSIZE) perm v1)"

text \<open>
  The number of rounds: the addresses \<^verbatim>\<open>va\<close>, \<^verbatim>\<open>va + PGSIZE\<close>, \dots\ below the end. (The loop variable does
  not wrap around: all callers map addresses far below \<open>2 ^ 64\<close>.)
\<close>

definition page_count :: "addr \<Rightarrow> addr \<Rightarrow> nat" where
  "page_count va bytes = (if va < va + bytes then (unat bytes + 4095) div 4096 else 0)"

definition mappages :: "layout \<Rightarrow> addr \<Rightarrow> addr \<Rightarrow> addr \<Rightarrow> addr \<Rightarrow> pte \<Rightarrow> vm \<Rightarrow> (int \<times> vm) res" where
  "mappages L pt va bytes pa perm v = map_loop L pt (page_count va bytes) va pa perm v"

text \<open>\<^verbatim>\<open>pt_destroy_level\<close>: the loop over the 512 entries, then the release of the table itself.\<close>

fun destroy_entries :: "layout \<Rightarrow> (addr \<Rightarrow> vm \<Rightarrow> vm res) \<Rightarrow> addr \<Rightarrow> nat list \<Rightarrow> vm \<Rightarrow> vm res" where
  "destroy_entries L destroy pt [] v = Inr v"
| "destroy_entries L destroy pt (i # is) v =
     (case read_pte L pt i v of
        Inl f \<Rightarrow> Inl f
      | Inr e \<Rightarrow>
          if e AND PTE_V = 0 \<or> e AND (PTE_R OR PTE_W OR PTE_X) \<noteq> 0 then destroy_entries L destroy pt is v
          else (case destroy (pte2pa e) v of
              Inl f \<Rightarrow> Inl f
            | Inr v1 \<Rightarrow> destroy_entries L destroy pt is v1))"

primrec pt_destroy_level :: "layout \<Rightarrow> nat \<Rightarrow> addr \<Rightarrow> vm \<Rightarrow> vm res" where
  "pt_destroy_level L 0 pt v = (if pt = 0 then Inr v else Inr (pt_release L pt v))"
| "pt_destroy_level L (Suc level) pt v =
     (if pt = 0 then Inr v
      else (case destroy_entries L (pt_destroy_level L level) pt [0..<512] v of
          Inl f \<Rightarrow> Inl f
        | Inr v1 \<Rightarrow> Inr (pt_release L pt v1)))"

section \<open>Address spaces\<close>

definition kernel_map :: "layout \<Rightarrow> addr \<Rightarrow> vm \<Rightarrow> (int \<times> vm) res" where
  "kernel_map L pt v =
     (let kernel_end = (lay_kernel_end L + PGSIZE - 1) AND NOT (PGSIZE - 1) in
      case mappages L pt KERNEL_START (kernel_end - KERNEL_START) KERNEL_START (PTE_R OR PTE_W OR PTE_X) v of
        Inl f \<Rightarrow> Inl f
      | Inr (rc, v1) \<Rightarrow>
          if rc < 0 then Inr (-1, v1)
          else (case mappages L pt UART0 PGSIZE UART0 (PTE_R OR PTE_W) v1 of
              Inl f \<Rightarrow> Inl f
            | Inr (rc, v2) \<Rightarrow> if rc < 0 then Inr (-1, v2) else Inr (0, v2)))"

definition vm_init :: "vm \<Rightarrow> vm" where
  "vm_init v = v\<lparr>vm_used := replicate PT_POOL_PAGES False, vm_kernel_pt := 0\<rparr>"

definition vm_destroy :: "layout \<Rightarrow> addr \<Rightarrow> vm \<Rightarrow> vm res" where
  "vm_destroy L pt v = (if pt = 0 \<or> pt = vm_kernel_pt v then Inr v else pt_destroy_level L 2 pt v)"

text \<open>The memory of page \<open>k\<close> of user slot \<open>slot\<close>.\<close>

definition user_page :: "layout \<Rightarrow> nat \<Rightarrow> nat \<Rightarrow> addr" where
  "user_page L slot k = lay_user L + of_nat (slot * USER_TOTAL_PAGES + k) * PGSIZE"

text \<open>Mapping the image and the stack of a slot: the common end of \<^verbatim>\<open>vm_create_user\<close> and \<^verbatim>\<open>vm_clone_user\<close>.\<close>

definition map_user :: "layout \<Rightarrow> addr \<Rightarrow> nat \<Rightarrow> vm \<Rightarrow> (addr \<times> vm) res" where
  "map_user L pt slot v =
     (case mappages L pt USER_BASE (of_nat USER_IMAGE_PAGES * PGSIZE) (user_page L slot 0)
             (PTE_R OR PTE_W OR PTE_X OR PTE_U) v of
        Inl f \<Rightarrow> Inl f
      | Inr (rc, v1) \<Rightarrow>
          if rc < 0 then (case vm_destroy L pt v1 of Inl f \<Rightarrow> Inl f | Inr v2 \<Rightarrow> Inr (0, v2))
          else (case mappages L pt (USER_STACK_TOP - PGSIZE) PGSIZE (user_page L slot (USER_TOTAL_PAGES - 1))
                       (PTE_R OR PTE_W OR PTE_U) v1 of
              Inl f \<Rightarrow> Inl f
            | Inr (rc, v2) \<Rightarrow>
                if rc < 0 then (case vm_destroy L pt v2 of Inl f \<Rightarrow> Inl f | Inr v3 \<Rightarrow> Inr (0, v3))
                else Inr (pt, v2)))"

text \<open>The image as the kernel finds it: its bytes and its size, which is cut to four pages.\<close>

definition write_image :: "addr \<Rightarrow> 8 word list \<Rightarrow> memory \<Rightarrow> memory" where
  "write_image d img m = fold (\<lambda>i m. m(d + of_nat i := img ! i)) [0..<length img] m"

definition vm_create_user :: "layout \<Rightarrow> 8 word list \<Rightarrow> int \<Rightarrow> vm \<Rightarrow> (addr \<times> vm) res" where
  "vm_create_user L img0 slot v =
     (if slot < 0 \<or> slot \<ge> int NPROC then Inr (0, v)
      else (case pt_alloc L v of (pt, v1) \<Rightarrow>
          if pt = 0 then Inr (0, v1)
          else (case kernel_map L pt v1 of
              Inl f \<Rightarrow> Inl f
            | Inr (rc, v2) \<Rightarrow>
                if rc < 0 then
                  (case pt_destroy_level L 2 pt v2 of Inl f \<Rightarrow> Inl f | Inr v3 \<Rightarrow> Inr (0, v3))
                else
                  let s = nat slot; base = user_page L s 0;
                      img = take (USER_IMAGE_PAGES * 4096) img0;
                      m = write_image base img (memset base 0 (USER_TOTAL_PAGES * 4096) (vm_mem v2)) in
                  map_user L pt s (v2\<lparr>vm_mem := m\<rparr>))))"

definition vm_clone_user :: "layout \<Rightarrow> int \<Rightarrow> int \<Rightarrow> vm \<Rightarrow> (addr \<times> vm) res" where
  "vm_clone_user L dst src v =
     (if dst < 0 \<or> dst \<ge> int NPROC \<or> src < 0 \<or> src \<ge> int NPROC then Inr (0, v)
      else (case pt_alloc L v of (pt, v1) \<Rightarrow>
          if pt = 0 then Inr (0, v1)
          else (case kernel_map L pt v1 of
              Inl f \<Rightarrow> Inl f
            | Inr (rc, v2) \<Rightarrow>
                if rc < 0 then
                  (case pt_destroy_level L 2 pt v2 of Inl f \<Rightarrow> Inl f | Inr v3 \<Rightarrow> Inr (0, v3))
                else
                  let m = memcpy (user_page L (nat dst) 0) (user_page L (nat src) 0) (USER_TOTAL_PAGES * 4096) (vm_mem v2) in
                  map_user L pt (nat dst) (v2\<lparr>vm_mem := m\<rparr>))))"

definition kernel_pagetable :: "layout \<Rightarrow> vm \<Rightarrow> (addr \<times> vm) res" where
  "kernel_pagetable L v =
     (if vm_kernel_pt v \<noteq> 0 then Inr (vm_kernel_pt v, v)
      else (case pt_alloc L v of (pt, v1) \<Rightarrow>
          let v2 = v1\<lparr>vm_kernel_pt := pt\<rparr> in
          if pt = 0 then Inr (0, v2)
          else (case kernel_map L pt v2 of
              Inl f \<Rightarrow> Inl f
            | Inr (rc, v3) \<Rightarrow>
                if rc < 0 then Inr (0, (pt_release L pt v3)\<lparr>vm_kernel_pt := 0\<rparr>)
                else Inr (pt, v3))))"

definition vm_satp :: "addr \<Rightarrow> 64 word" where
  "vm_satp pt = push_bit 60 8 OR drop_bit 12 pt"

section \<open>User memory\<close>

text \<open>\<^verbatim>\<open>walk_user_pte\<close>: the leaf entry of an address, if there is a valid one.\<close>

definition walk_user_pte :: "layout \<Rightarrow> addr \<Rightarrow> addr \<Rightarrow> vm \<Rightarrow> pte option res" where
  "walk_user_pte L pt va v =
     (if va \<ge> push_bit 39 1 then Inr None
      else (case read_pte L pt (vpn va 2) v of
          Inl f \<Rightarrow> Inl f
        | Inr e2 \<Rightarrow>
            if e2 AND PTE_V = 0 then Inr None
            else (case read_pte L (pte2pa e2) (vpn va 1) v of
                Inl f \<Rightarrow> Inl f
              | Inr e1 \<Rightarrow>
                  if e1 AND PTE_V = 0 then Inr None
                  else (case read_pte L (pte2pa e1) (vpn va 0) v of
                      Inl f \<Rightarrow> Inl f
                    | Inr e0 \<Rightarrow> Inr (if e0 AND PTE_V \<noteq> 0 then Some e0 else None)))))"

definition translate_user :: "layout \<Rightarrow> addr \<Rightarrow> addr \<Rightarrow> vm \<Rightarrow> addr option res" where
  "translate_user L pt va v =
     (case walk_user_pte L pt va v of
        Inl f \<Rightarrow> Inl f
      | Inr None \<Rightarrow> Inr None
      | Inr (Some e) \<Rightarrow> if e AND PTE_U = 0 then Inr None else Inr (Some (pte2pa e + (va AND (PGSIZE - 1)))))"

definition page_rest :: "addr \<Rightarrow> nat" where
  "page_rest va = unat (PGSIZE - (va AND (PGSIZE - 1)))"

lemma unat_take_bit: "unat (take_bit n x :: 64 word) = unat x mod 2 ^ n"
  using take_bit_eq_mod [of n "unat x"] by (simp only: unsigned_take_bit_eq)

lemma unat_drop_bit: "unat (drop_bit n x :: 64 word) = unat x div 2 ^ n"
proof -
  have "take_bit 64 (unat x) = unat x"
    by (rule take_bit_nat_eq_self) (use unsigned_less [of x, where ?'a = nat] in simp)
  then have "unat (drop_bit n x) = drop_bit n (unat x)"
    by (simp add: unsigned_drop_bit_eq)
  then show ?thesis using drop_bit_eq_div [of n "unat x"] by (simp only:)
qed

lemma and_511: "(x AND 0x1FF :: 64 word) = take_bit 9 x"
  unfolding take_bit_eq_mask by (simp add: mask_eq_exp_minus_1)

lemma and_4095: "unat (va AND 4095 :: addr) = unat va mod 4096"
proof -
  have "va AND 4095 = take_bit 12 va" unfolding take_bit_eq_mask by (simp add: mask_eq_exp_minus_1)
  then show ?thesis using unat_take_bit [of 12 va] by simp
qed

lemma page_rest_eq: "page_rest va = 4096 - unat va mod 4096"
proof -
  have "va AND 4095 \<le> (4096 :: addr)" using and_4095 [of va] by (simp add: word_le_nat_alt)
  then show ?thesis by (simp add: page_rest_def PGSIZE_def unat_sub and_4095)
qed

lemma page_rest_pos [simp]: "0 < page_rest va" "page_rest va \<le> 4096"
  by (simp_all add: page_rest_eq)

text \<open>The copies, page by page; \<open>n\<close> bytes are left. The results are the bytes read, or the memory written.\<close>

function copyin :: "layout \<Rightarrow> addr \<Rightarrow> addr \<Rightarrow> nat \<Rightarrow> vm \<Rightarrow> 8 word list option res" where
  "copyin L pt srcva n v =
     (if n = 0 then Inr (Some [])
      else (case translate_user L pt srcva v of
          Inl f \<Rightarrow> Inl f
        | Inr None \<Rightarrow> Inr None
        | Inr (Some pa) \<Rightarrow>
            let k = min n (page_rest srcva) in
            (case copyin L pt (srcva + of_nat k) (n - k) v of
               Inl f \<Rightarrow> Inl f
             | Inr None \<Rightarrow> Inr None
             | Inr (Some bs) \<Rightarrow> Inr (Some (map (\<lambda>i. vm_mem v (pa + of_nat i)) [0..<k] @ bs)))))"
  by pat_completeness auto
termination
  by (relation "measure (\<lambda>(L, pt, srcva, n, v). n)") auto

declare copyin.simps [simp del]

function copyout :: "layout \<Rightarrow> addr \<Rightarrow> addr \<Rightarrow> 8 word list \<Rightarrow> vm \<Rightarrow> (int \<times> vm) res" where
  "copyout L pt dstva src v =
     (if src = [] then Inr (0, v)
      else (case translate_user L pt dstva v of
          Inl f \<Rightarrow> Inl f
        | Inr None \<Rightarrow> Inr (-1, v)
        | Inr (Some pa) \<Rightarrow>
            let k = min (length src) (page_rest dstva) in
            copyout L pt (dstva + of_nat k) (drop k src) (v\<lparr>vm_mem := write_image pa (take k src) (vm_mem v)\<rparr>)))"
  by pat_completeness auto
termination
  by (relation "measure (\<lambda>(L, pt, dstva, src, v). length src)") auto

declare copyout.simps [simp del]

text \<open>\<^verbatim>\<open>copyinstr\<close>: bytes up to the terminator; after \<open>max\<close> bytes the last one is overwritten by it.\<close>

fun copyinstr_loop :: "layout \<Rightarrow> addr \<Rightarrow> addr \<Rightarrow> nat \<Rightarrow> vm \<Rightarrow> 8 word list option res" where
  "copyinstr_loop L pt srcva 0 v = Inr (Some [])"
| "copyinstr_loop L pt srcva (Suc n) v =
     (case copyin L pt srcva 1 v of
        Inl f \<Rightarrow> Inl f
      | Inr None \<Rightarrow> Inr None
      | Inr (Some bs) \<Rightarrow>
          if hd bs = 0 then Inr (Some bs)
          else (case copyinstr_loop L pt (srcva + 1) n v of
              Inl f \<Rightarrow> Inl f
            | Inr None \<Rightarrow> Inr None
            | Inr (Some cs) \<Rightarrow> Inr (Some (hd bs # cs))))"

definition copyinstr :: "layout \<Rightarrow> addr \<Rightarrow> addr \<Rightarrow> nat \<Rightarrow> vm \<Rightarrow> 8 word list option res" where
  "copyinstr L pt srcva max_len v =
     (case copyinstr_loop L pt srcva max_len v of
        Inl f \<Rightarrow> Inl f
      | Inr None \<Rightarrow> Inr None
      | Inr (Some bs) \<Rightarrow>
          if 0 \<in> set bs then Inr (Some bs)
          else if max_len = 0 then Inl OutOfBounds
          else Inr (Some (butlast bs @ [0])))"

section \<open>Entries and addresses\<close>

lemma vpn_eq: "vpn va level = unat va div 2 ^ (12 + 9 * level) mod 512"
  unfolding vpn_def and_511 unat_take_bit unat_drop_bit by simp

lemma vpn_less [simp]: "vpn va level < 512"
  by (simp add: vpn_eq)

definition flags :: "pte \<Rightarrow> bool" where
  "flags f \<longleftrightarrow> drop_bit 10 f = 0"

lemma pte2pa_or:
  assumes "flags f"
  shows "pte2pa (pa2pte pa OR f) = push_bit 12 (drop_bit 12 pa)"
proof -
  have f: "\<not> bit f (10 + n)" for n
  proof -
    have "bit (drop_bit 10 f) n = bit f (10 + n)" by (simp add: bit_drop_bit_eq)
    then show ?thesis using assms by (simp add: flags_def)
  qed
  show ?thesis
    by (rule bit_word_eqI) (auto simp: pte2pa_def pa2pte_def bit_simps f)
qed

lemma pa2pte_flag:
  assumes "flags g"
  shows "(pa2pte pa OR f) AND g = f AND g"
proof -
  have g: "n < 10" if "bit g n" for n
  proof (rule ccontr)
    assume "\<not> n < 10"
    then have "bit (drop_bit 10 g) (n - 10) = bit g n" by (simp add: bit_drop_bit_eq)
    then show False using assms that by (simp add: flags_def)
  qed
  show ?thesis
    by (rule bit_word_eqI) (auto simp: pa2pte_def bit_simps dest: g)
qed

lemma flags_consts [simp]:
  "flags PTE_V" "flags PTE_R" "flags PTE_W" "flags PTE_X" "flags PTE_U" "flags PTE_A" "flags PTE_D"
  by (simp_all add: flags_def PTE_V_def PTE_R_def PTE_W_def PTE_X_def PTE_U_def PTE_A_def PTE_D_def)

lemma flags_or [simp]: "flags f \<Longrightarrow> flags g \<Longrightarrow> flags (f OR g)"
  by (simp add: flags_def drop_bit_or)

end
