(* ===== verification/Nano_Tables.thy ===== *)
theory Nano_Tables
  imports Nano_VM
begin

text \<open>
  Correctness of the page tables of \<^verbatim>\<open>kernel/vm.c\<close>. A table is described by the position of each of its
  pages: the list of the indices that lead from the root to it. The operations keep this shape, touch no
  page of another table, and change the set of mapped pages exactly as they should.
\<close>

unbundle bit_operations_syntax

section \<open>Addresses of the pool\<close>

definition layout_ok :: "layout \<Rightarrow> bool" where
  "layout_ok L \<longleftrightarrow>
     unat (lay_pool L) mod 4096 = 0 \<and> lay_pool L \<noteq> 0 \<and> unat (lay_pool L) + PT_POOL_PAGES * 4096 < 2 ^ 64 \<and>
     unat (lay_user L) mod 4096 = 0 \<and> unat (lay_user L) + NPROC * USER_TOTAL_PAGES * 4096 < 2 ^ 64 \<and>
     KERNEL_START \<le> lay_kernel_end L \<and> lay_kernel_end L < push_bit 38 1"

lemma unat_scaled:
  fixes b :: addr
  assumes "unat b + n * 4096 < 2 ^ 64"
  shows "unat (b + of_nat n * PGSIZE) = unat b + n * 4096"
proof -
  have "b + of_nat n * PGSIZE = of_nat (unat b + n * 4096)" by (simp add: PGSIZE_def)
  also have "unat (of_nat (unat b + n * 4096) :: addr) = unat b + n * 4096"
    using assms unat_of_nat [of "unat b + n * 4096", where ?'a = 64] by (simp del: of_nat_add of_nat_mult)
  finally show ?thesis .
qed

lemma unat_page_addr:
  assumes "layout_ok L" and "i < PT_POOL_PAGES"
  shows "unat (page_addr L i) = unat (lay_pool L) + i * 4096"
  using assms unfolding page_addr_def layout_ok_def by (intro unat_scaled) simp

lemma page_addr_not_null [simp]:
  assumes "layout_ok L" and "i < PT_POOL_PAGES"
  shows "page_addr L i \<noteq> 0"
proof -
  have "lay_pool L \<noteq> 0" using assms by (simp add: layout_ok_def)
  then have "unat (lay_pool L) \<noteq> 0" by (simp add: unat_eq_0)
  then show ?thesis using unat_page_addr [OF assms] by auto
qed

lemma page_of_addr [simp]:
  assumes "layout_ok L" and "i < PT_POOL_PAGES"
  shows "page_of L (page_addr L i) = Some i"
proof -
  have a: "unat (page_addr L i) = unat (lay_pool L) + i * 4096"
    using unat_page_addr [OF assms] .
  have e: "unat (lay_pool L + of_nat PT_POOL_PAGES * PGSIZE) = unat (lay_pool L) + PT_POOL_PAGES * 4096"
    using assms(1) by (intro unat_scaled) (simp add: layout_ok_def)
  have le: "lay_pool L \<le> page_addr L i" using a by (simp add: word_le_nat_alt)
  have lt: "page_addr L i < lay_pool L + of_nat PT_POOL_PAGES * PGSIZE"
    using a e assms(2) by (simp add: word_less_nat_alt)
  have "unat ((page_addr L i - lay_pool L) div PGSIZE) = i"
    using a le by (simp add: unat_div unat_sub PGSIZE_def)
  then show ?thesis using le lt by (simp add: page_of_def not_le not_less)
qed

lemma page_aligned: "unat a mod 4096 = 0 \<Longrightarrow> push_bit 12 (drop_bit 12 a) = (a :: addr)"
proof -
  assume "unat a mod 4096 = 0"
  then have "unat (take_bit 12 a) = 0" by (simp add: unat_take_bit)
  then have "take_bit 12 a = 0" by (simp add: unat_eq_0)
  then show ?thesis using bits_ident [of 12 a] by simp
qed

lemma page_addr_aligned [simp]:
  assumes "layout_ok L" and "i < PT_POOL_PAGES"
  shows "push_bit 12 (drop_bit 12 (page_addr L i)) = page_addr L i"
  using assms by (intro page_aligned) (simp add: unat_page_addr layout_ok_def mod_add_eq)

text \<open>An entry that points to page \<open>c\<close> of the pool.\<close>

definition node_entry :: "layout \<Rightarrow> nat \<Rightarrow> pte" where
  "node_entry L c = pa2pte (page_addr L c) OR PTE_V"

lemma node_entry_simps [simp]:
  "node_entry L c AND PTE_V \<noteq> 0"
  "node_entry L c AND (PTE_R OR PTE_W OR PTE_X) = 0"
  "layout_ok L \<Longrightarrow> c < PT_POOL_PAGES \<Longrightarrow> pte2pa (node_entry L c) = page_addr L c"
  unfolding node_entry_def
    apply (subst pa2pte_flag, simp, simp add: PTE_V_def)
   apply (subst pa2pte_flag, simp, simp add: PTE_V_def PTE_R_def PTE_W_def PTE_X_def)
  by (simp add: pte2pa_or)

lemma valid_odd: "e AND PTE_V \<noteq> 0 \<longleftrightarrow> odd e"
  by (simp add: PTE_V_def and_one_eq odd_iff_mod_2_eq_one)

lemma leaf_entry_form:
  assumes "flags perm"
  obtains f where "flags f" "leaf_entry pa perm = pa2pte pa OR (perm OR f)" "odd f" "f AND PTE_U = 0"
proof (cases "perm AND PTE_W = 0")
  case True
  have "odd (PTE_V OR PTE_A)" "(PTE_V OR PTE_A) AND PTE_U = 0"
    by (simp_all add: PTE_V_def PTE_A_def PTE_U_def)
  then show thesis
    by (intro that [of "PTE_V OR PTE_A"]) (simp_all add: leaf_entry_def Let_def True or.assoc)
next
  case False
  have "odd (PTE_V OR PTE_A OR PTE_D)" "(PTE_V OR PTE_A OR PTE_D) AND PTE_U = 0"
    by (simp_all add: PTE_V_def PTE_A_def PTE_U_def PTE_D_def)
  then show thesis
    by (intro that [of "PTE_V OR PTE_A OR PTE_D"]) (simp_all add: leaf_entry_def Let_def False or.assoc)
qed

lemma leaf_entry_flags:
  assumes "flags perm"
  shows "leaf_entry pa perm AND PTE_V \<noteq> 0"
    and "leaf_entry pa perm AND PTE_U = perm AND PTE_U"
    and "unat pa mod 4096 = 0 \<Longrightarrow> pte2pa (leaf_entry pa perm) = pa"
proof -
  obtain f where f: "flags f" "leaf_entry pa perm = pa2pte pa OR (perm OR f)" "odd f" "f AND PTE_U = 0"
    using leaf_entry_form [OF assms] by blast
  show "leaf_entry pa perm AND PTE_V \<noteq> 0"
    unfolding valid_odd f(2) using f(3) by (simp add: even_or_iff)
  show "leaf_entry pa perm AND PTE_U = perm AND PTE_U"
    unfolding f(2) pa2pte_flag [OF flags_consts(5)] using f(4) by (simp add: bit.conj_disj_distrib2)
  show "unat pa mod 4096 = 0 \<Longrightarrow> pte2pa (leaf_entry pa perm) = pa"
    using assms f(1) by (simp add: f(2) pte2pa_or page_aligned)
qed

section \<open>The shape of a table\<close>

text \<open>
  \<open>pos\<close> gives the path of every page of one table: the root has the empty path, and an entry that is
  valid in a page above the last level points to the page one step further.
\<close>

definition tree :: "layout \<Rightarrow> vm \<Rightarrow> nat \<Rightarrow> (nat \<rightharpoonup> nat list) \<Rightarrow> bool" where
  "tree L v r pos \<longleftrightarrow>
     pos r = Some [] \<and>
     (\<forall>p path. pos p = Some path \<longrightarrow> p < PT_POOL_PAGES \<and> length path \<le> 2 \<and> set path \<subseteq> {..<512}) \<and>
     (\<forall>p path i. pos p = Some path \<longrightarrow> length path < 2 \<longrightarrow> i < 512 \<longrightarrow> vm_pool v p i AND PTE_V \<noteq> 0 \<longrightarrow>
        (\<exists>c. vm_pool v p i = node_entry L c \<and> pos c = Some (path @ [i]))) \<and>
     (\<forall>c path i. pos c = Some (path @ [i]) \<longrightarrow>
        (\<exists>p. pos p = Some path \<and> vm_pool v p i = node_entry L c)) \<and>
     (\<forall>p. pos p = Some [] \<longrightarrow> p = r)"

text \<open>The pages of the table are allocated.\<close>

definition used :: "vm \<Rightarrow> nat set" where
  "used v = {i. i < length (vm_used v) \<and> vm_used v ! i}"

definition vm_ok :: "vm \<Rightarrow> bool" where
  "vm_ok v \<longleftrightarrow> length (vm_used v) = PT_POOL_PAGES"

lemma used_bound: "vm_ok v \<Longrightarrow> i \<in> used v \<Longrightarrow> i < PT_POOL_PAGES"
  by (simp add: used_def vm_ok_def)

definition shaped :: "layout \<Rightarrow> vm \<Rightarrow> nat \<Rightarrow> (nat \<rightharpoonup> nat list) \<Rightarrow> bool" where
  "shaped L v r pos \<longleftrightarrow> tree L v r pos \<and> dom pos \<subseteq> used v \<and> vm_ok v"

lemma treeD:
  assumes "tree L v r pos"
  shows "pos r = Some []"
    and "pos p = Some path \<Longrightarrow> p < PT_POOL_PAGES"
    and "pos p = Some path \<Longrightarrow> length path \<le> 2"
    and "pos p = Some [] \<Longrightarrow> p = r"
    and "pos p = Some path \<Longrightarrow> set path \<subseteq> {..<512}"
  using assms unfolding tree_def by blast+

lemma tree_child:
  assumes "tree L v r pos" "pos p = Some path" "length path < 2" "i < 512" "vm_pool v p i AND PTE_V \<noteq> 0"
  obtains c where "vm_pool v p i = node_entry L c" "pos c = Some (path @ [i])"
  using assms unfolding tree_def by blast

lemma tree_parent:
  assumes "tree L v r pos" "pos c = Some (path @ [i])"
  obtains p where "pos p = Some path" "vm_pool v p i = node_entry L c"
  using assms unfolding tree_def by blast

lemma tree_cong:
  assumes "tree L v r pos" and same: "\<And>q path. pos q = Some path \<Longrightarrow> vm_pool v' q = vm_pool v q"
  shows "tree L v' r pos"
proof -
  have "\<exists>c. vm_pool v' p i = node_entry L c \<and> pos c = Some (path @ [i])"
    if "pos p = Some path" "length path < 2" "i < 512" "vm_pool v' p i AND PTE_V \<noteq> 0" for p path i
    using tree_child [OF assms(1) that(1-3)] that(4) unfolding same [OF that(1)] by blast
  moreover have "\<exists>p. pos p = Some path \<and> vm_pool v' p i = node_entry L c" if c: "pos c = Some (path @ [i])" for c path i
  proof -
    obtain p where "pos p = Some path" "vm_pool v p i = node_entry L c" by (rule tree_parent [OF assms(1) c])
    then show ?thesis using same by metis
  qed
  ultimately show ?thesis using assms(1) unfolding tree_def by blast
qed

lemma node_entry_inj:
  assumes "layout_ok L" "c < PT_POOL_PAGES" "d < PT_POOL_PAGES" "node_entry L c = node_entry L d"
  shows "c = d"
proof -
  have "page_addr L c = page_addr L d" using assms node_entry_simps(3) by metis
  then show ?thesis using page_of_addr assms by (metis option.inject)
qed

lemma tree_inj:
  assumes "layout_ok L" "tree L v r pos" "pos p = Some path" "pos q = Some path"
  shows "p = q"
  using assms(3,4)
proof (induction path arbitrary: p q rule: rev_induct)
  case Nil
  then show ?case using treeD(4) [OF assms(2)] by blast
next
  case (snoc i path)
  obtain a where a: "pos a = Some path" "vm_pool v a i = node_entry L p"
    using tree_parent [OF assms(2) snoc.prems(1)] by blast
  obtain b where b: "pos b = Some path" "vm_pool v b i = node_entry L q"
    using tree_parent [OF assms(2) snoc.prems(2)] by blast
  have "a = b" using snoc.IH a(1) b(1) .
  then have "node_entry L p = node_entry L q" using a b by simp
  then show ?case
    by (rule node_entry_inj [OF assms(1) treeD(2) [OF assms(2) snoc.prems(1)] treeD(2) [OF assms(2) snoc.prems(2)]])
qed

text \<open>Page number \<open>n\<close> (an address divided by the page size) is mapped by the leaf entry \<open>e\<close>.\<close>

definition top_path :: "nat \<Rightarrow> nat list" where
  "top_path n = [n div 2 ^ 18 mod 512, n div 512 mod 512]"

definition leaf :: "vm \<Rightarrow> (nat \<rightharpoonup> nat list) \<Rightarrow> nat \<Rightarrow> pte \<Rightarrow> bool" where
  "leaf v pos n e \<longleftrightarrow>
     (\<exists>p. pos p = Some (top_path n) \<and> vm_pool v p (n mod 512) = e \<and> e AND PTE_V \<noteq> 0)"

text \<open>
  What an operation that grows the table from \<open>(v, pos)\<close> to \<open>(v', pos')\<close> leaves alone: the pages of other tables,
  the memory of the user slots and the kernel's table.
\<close>

definition grows :: "vm \<Rightarrow> (nat \<rightharpoonup> nat list) \<Rightarrow> vm \<Rightarrow> (nat \<rightharpoonup> nat list) \<Rightarrow> bool" where
  "grows v pos v' pos' \<longleftrightarrow>
     pos \<subseteq>\<^sub>m pos' \<and> (\<forall>q \<in> used v - dom pos. vm_pool v' q = vm_pool v q) \<and>
     used v' = used v \<union> dom pos' \<and> (dom pos' - dom pos) \<inter> used v = {} \<and>
     vm_mem v' = vm_mem v \<and> vm_kernel_pt v' = vm_kernel_pt v"

lemma grows_refl: "dom pos \<subseteq> used v \<Longrightarrow> grows v pos v pos"
  by (auto simp: grows_def)

lemma grows_trans:
  assumes "grows v pos v1 pos1" "grows v1 pos1 v2 pos2"
  shows "grows v pos v2 pos2"
proof -
  have le: "pos \<subseteq>\<^sub>m pos1" "pos1 \<subseteq>\<^sub>m pos2" using assms by (auto simp: grows_def)
  have d: "dom pos \<subseteq> dom pos1" "dom pos1 \<subseteq> dom pos2"
    using le by (auto dest: map_le_implies_dom_le)
  have "vm_pool v2 q = vm_pool v q" if "q \<in> used v - dom pos" for q
  proof -
    have "q \<notin> dom pos1" using that assms(1) by (auto simp: grows_def)
    then show ?thesis using that assms by (auto simp: grows_def)
  qed
  moreover have "pos \<subseteq>\<^sub>m pos2" using le by (rule map_le_trans)
  moreover have "used v2 = used v \<union> dom pos2" using assms d unfolding grows_def by blast
  moreover have "(dom pos2 - dom pos) \<inter> used v = {}" using assms unfolding grows_def by blast
  moreover have "vm_mem v2 = vm_mem v" "vm_kernel_pt v2 = vm_kernel_pt v"
    using assms unfolding grows_def by simp_all
  ultimately show ?thesis unfolding grows_def by blast
qed

lemma grows_same_mapping:
  assumes "grows v pos v' pos'" "q \<in> used v" "q \<notin> dom pos"
  shows "vm_pool v' q = vm_pool v q \<and> q \<notin> dom pos' \<and> q \<in> used v'"
  using assms unfolding grows_def by blast

section \<open>Allocation\<close>

lemma pt_alloc_cases:
  assumes "vm_ok v"
  obtains (full) "pt_alloc L v = (0, v)" "used v = {..<PT_POOL_PAGES}"
    | (page) i where "i < PT_POOL_PAGES" "i \<notin> used v"
      "pt_alloc L v = (page_addr L i,
         v\<lparr>vm_used := (vm_used v)[i := True], vm_pool := (vm_pool v)(i := \<lambda>_. 0)\<rparr>)"
proof (cases "first_index (\<lambda>u. \<not> u) (vm_used v)")
  case None
  then have "used v = {..<PT_POOL_PAGES}"
    using assms by (auto simp: used_def vm_ok_def first_index_None)
  then show thesis using full None by (simp add: pt_alloc_def)
next
  case (Some i)
  then have "i < PT_POOL_PAGES" "i \<notin> used v"
    using assms first_index_SomeD [OF Some] by (simp_all add: used_def vm_ok_def)
  then show thesis using page Some by (simp add: pt_alloc_def)
qed

lemma used_set:
  assumes "vm_ok v" "i < PT_POOL_PAGES"
  shows "used (v\<lparr>vm_used := (vm_used v)[i := True], vm_pool := P\<rparr>) = insert i (used v)"
    and "used (v\<lparr>vm_used := (vm_used v)[i := False]\<rparr>) = used v - {i}"
  using assms by (auto simp: used_def vm_ok_def nth_list_update)

text \<open>Hanging the fresh page \<open>i\<close> into entry \<open>idx\<close> of page \<open>p\<close>.\<close>

definition hang :: "layout \<Rightarrow> nat \<Rightarrow> nat \<Rightarrow> nat \<Rightarrow> vm \<Rightarrow> vm" where
  "hang L p idx i v =
     v\<lparr>vm_used := (vm_used v)[i := True],
       vm_pool := (vm_pool v)(i := \<lambda>_. 0, p := (vm_pool v p)(idx := node_entry L i))\<rparr>"

lemma hang_pool:
  assumes "i \<noteq> p"
  shows "vm_pool (hang L p idx i v) q j =
    (if q = i then 0 else if q = p \<and> j = idx then node_entry L i else vm_pool v q j)"
  using assms by (simp add: hang_def)

lemma hang_tree:
  assumes "tree L v r pos" "pos p = Some path" "length path < 2" "idx < 512"
    and "vm_pool v p idx AND PTE_V = 0" "i \<notin> dom pos" "i < PT_POOL_PAGES"
  shows "tree L (hang L p idx i v) r (pos(i \<mapsto> path @ [idx]))"
proof -
  let ?pos = "pos(i \<mapsto> path @ [idx])" and ?v = "hang L p idx i v"
  have ip: "i \<noteq> p" using assms by auto
  note pool = hang_pool [OF ip, of L idx v]
  have "?pos r = Some []" using assms(6) treeD(1) [OF assms(1)] by auto
  moreover have "q < PT_POOL_PAGES \<and> length pq \<le> 2 \<and> set pq \<subseteq> {..<512}" if "?pos q = Some pq" for q pq
  proof (cases "q = i")
    case True
    then show ?thesis using that assms(3,4,7) treeD(5) [OF assms(1,2)] by auto
  next
    case False
    then show ?thesis using that treeD(2,3,5) [OF assms(1), of q pq] by simp
  qed
  moreover have "\<exists>c. vm_pool ?v q j = node_entry L c \<and> ?pos c = Some (pq @ [j])"
    if "?pos q = Some pq" "length pq < 2" "j < 512" "vm_pool ?v q j AND PTE_V \<noteq> 0" for q pq j
  proof -
    note short = that(2) and j = that(3) and valid = that(4)
    have qi: "q \<noteq> i" using that(4) pool by auto
    then have q: "pos q = Some pq" using that(1) by simp
    show ?thesis
    proof (cases "q = p \<and> j = idx")
      case True
      then show ?thesis using q assms(2) pool [of q j] qi by auto
    next
      case False
      then have same: "vm_pool ?v q j = vm_pool v q j" using pool [of q j] qi by auto
      obtain c where c: "vm_pool v q j = node_entry L c" "pos c = Some (pq @ [j])"
        by (rule tree_child [OF assms(1) q short j]) (use same valid in auto)
      then have "c \<noteq> i" using assms(6) by auto
      then show ?thesis using c same by auto
    qed
  qed
  moreover have "\<exists>q. ?pos q = Some pq \<and> vm_pool ?v q j = node_entry L c"
    if "?pos c = Some (pq @ [j])" for c pq j
  proof (cases "c = i")
    case True
    then show ?thesis using that assms(2) pool [of p idx] ip by (intro exI [of _ p]) auto
  next
    case False
    then have "pos c = Some (pq @ [j])" using that by simp
    then obtain q where q: "pos q = Some pq" "vm_pool v q j = node_entry L c"
      by (rule tree_parent [OF assms(1)])
    then have "q \<noteq> i" "\<not> (q = p \<and> j = idx)" using assms(5,6) node_entry_simps(1) [of L c] by (blast, metis)
    then have "?pos q = Some pq" "vm_pool ?v q j = node_entry L c" using q pool [of q j] by (simp, force)
    then show ?thesis by blast
  qed
  moreover have "q = r" if "?pos q = Some []" for q
    using that treeD(4) [OF assms(1)] by (auto split: if_splits)
  ultimately show ?thesis unfolding tree_def by blast
qed

lemma hang_leaf:
  assumes "pos p = Some path" "length path < 2" "i \<notin> dom pos"
  shows "leaf (hang L p idx i v) (pos(i \<mapsto> path @ [idx])) = leaf v pos"
proof (intro ext iffI)
  have ip: "i \<noteq> p" using assms by auto
  note pool = hang_pool [OF ip, of L idx v]
  have np: "q \<noteq> p" if "pos q = Some (top_path n)" for q n
    using that assms by (auto simp: top_path_def)
  fix n e
  show "leaf v pos n e" if l: "leaf (hang L p idx i v) (pos(i \<mapsto> path @ [idx])) n e"
  proof -
    obtain q where q: "(pos(i \<mapsto> path @ [idx])) q = Some (top_path n)"
      "vm_pool (hang L p idx i v) q (n mod 512) = e" "e AND PTE_V \<noteq> 0"
      using l unfolding leaf_def by blast
    then have "q \<noteq> i" using pool [of q "n mod 512"] by auto
    then show ?thesis using q np [of q n] pool [of q "n mod 512"] unfolding leaf_def by auto
  qed
  show "leaf (hang L p idx i v) (pos(i \<mapsto> path @ [idx])) n e" if l: "leaf v pos n e"
  proof -
    obtain q where q: "pos q = Some (top_path n)" "vm_pool v q (n mod 512) = e" "e AND PTE_V \<noteq> 0"
      using l unfolding leaf_def by blast
    then have "q \<noteq> i" using assms(3) by auto
    then show ?thesis using q np [of q n] pool [of q "n mod 512"] unfolding leaf_def by auto
  qed
qed

lemma hang_grows:
  assumes "shaped L v r pos" "p \<in> dom pos" "i \<notin> used v" "i < PT_POOL_PAGES"
  shows "grows v pos (hang L p idx i v) (pos(i \<mapsto> path))" "vm_ok (hang L p idx i v)"
    "used (hang L p idx i v) = insert i (used v)"
proof -
  have ok: "vm_ok v" and d: "dom pos \<subseteq> used v" using assms(1) by (auto simp: shaped_def)
  show ok': "vm_ok (hang L p idx i v)" using ok by (simp add: vm_ok_def hang_def)
  show u: "used (hang L p idx i v) = insert i (used v)"
    using ok assms(4) unfolding hang_def by (rule used_set)
  have ip: "i \<noteq> p" using assms d by auto
  have "pos \<subseteq>\<^sub>m pos(i \<mapsto> path)" using assms(3) d by (auto simp: map_le_def)
  moreover have "vm_pool (hang L p idx i v) q = vm_pool v q" if "q \<in> used v - dom pos" for q
    using that assms hang_pool [OF ip, of L idx v q] by (intro ext) auto
  moreover have "(dom (pos(i \<mapsto> path)) - dom pos) \<inter> used v = {}" using assms(3) by auto
  moreover have "used (hang L p idx i v) = used v \<union> dom (pos(i \<mapsto> path))" using u d by auto
  ultimately show "grows v pos (hang L p idx i v) (pos(i \<mapsto> path))"
    unfolding grows_def by (simp add: hang_def)
qed

lemma descend_cases:
  assumes "layout_ok L" "shaped L v r pos" "pos p = Some path" "length path < 2" "idx < 512"
  obtains (full) "descend L (page_addr L p) idx v = Inr (None, v)" "used v = {..<PT_POOL_PAGES}"
    | (down) v' pos' c where "descend L (page_addr L p) idx v = Inr (Some (page_addr L c), v')"
      "shaped L v' r pos'" "grows v pos v' pos'" "pos' c = Some (path @ [idx])" "leaf v' pos' = leaf v pos"
      "ran pos' \<subseteq> ran pos \<union> {path @ [idx]}"
proof -
  have t: "tree L v r pos" and d: "dom pos \<subseteq> used v" and ok: "vm_ok v"
    using assms(2) by (auto simp: shaped_def)
  have p: "p < PT_POOL_PAGES" using treeD(2) [OF t assms(3)] .
  have rd: "read_pte L (page_addr L p) idx v = Inr (vm_pool v p idx)"
    using assms(1) p by (simp add: read_pte_def)
  show thesis
  proof (cases "vm_pool v p idx AND PTE_V = 0")
    case False
    obtain c where c: "vm_pool v p idx = node_entry L c" "pos c = Some (path @ [idx])"
      using tree_child [OF t assms(3-5) False] by blast
    have "descend L (page_addr L p) idx v = Inr (Some (page_addr L c), v)"
      using False rd c assms(1) treeD(2) [OF t c(2)] by (simp add: descend_def)
    then show thesis using down [OF _ assms(2) grows_refl [OF d] c(2) refl] by blast
  next
    case True
    show thesis
    proof (cases rule: pt_alloc_cases [OF ok, of L])
      case 1
      then show thesis using full True rd by (simp add: descend_def)
    next
      case (2 i)
      let ?v = "hang L p idx i v"
      have i: "i \<notin> dom pos" using 2(2) d by blast
      then have ip: "i \<noteq> p" and pd: "p \<in> dom pos" using assms(3) by auto
      have "descend L (page_addr L p) idx v = Inr (Some (page_addr L i), ?v)"
        using True rd 2 assms(1) p ip unfolding descend_def
        by (simp add: write_pte_def hang_def fun_upd_twist flip: node_entry_def)
      moreover have "shaped L ?v r (pos(i \<mapsto> path @ [idx]))"
        using hang_tree [OF t assms(3-5) True i 2(1)] hang_grows(2,3) [OF assms(2) pd 2(2,1)] d
        by (auto simp: shaped_def)
      moreover have "grows v pos ?v (pos(i \<mapsto> path @ [idx]))"
        using hang_grows(1) [OF assms(2) pd 2(2,1)] .
      moreover have "leaf ?v (pos(i \<mapsto> path @ [idx])) = leaf v pos"
        using hang_leaf [OF assms(3,4) i] .
      moreover have "ran (pos(i \<mapsto> path @ [idx])) \<subseteq> ran pos \<union> {path @ [idx]}" by (auto simp: ran_def)
      ultimately show thesis by (intro down [of i ?v "pos(i \<mapsto> path @ [idx])"]) auto
    qed
  qed
qed

section \<open>Mapping pages\<close>

definition page_number :: "addr \<Rightarrow> nat" where
  "page_number a = unat a div 4096"

lemma vpn_page_number:
  "vpn a 2 = page_number a div 2 ^ 18 mod 512" "vpn a 1 = page_number a div 512 mod 512"
  "vpn a 0 = page_number a mod 512"
  unfolding vpn_eq page_number_def by (simp_all flip: div_mult2_eq)

lemma top_path_vpn: "[vpn a 2, vpn a 1] = top_path (page_number a)"
  unfolding top_path_def vpn_page_number by (rule refl)

lemma page_split:
  fixes n :: nat
  assumes "n < 2 ^ 27"
  shows "n = (n div 2 ^ 18 mod 512) * 2 ^ 18 + (n div 512 mod 512) * 512 + n mod 512"
proof -
  have "n div 2 ^ 18 < 512" using assms by (simp add: less_mult_imp_div_less)
  moreover have "n div 2 ^ 18 = n div 512 div 512" by (simp flip: div_mult2_eq)
  moreover have "n = n div 512 * 512 + n mod 512" "n div 512 = n div 512 div 512 * 512 + n div 512 mod 512"
    by simp_all
  ultimately have "n = (n div 2 ^ 18 * 512 + n div 512 mod 512) * 512 + n mod 512" "n div 2 ^ 18 mod 512 = n div 2 ^ 18"
    by simp_all
  then show ?thesis by (simp add: algebra_simps)
qed

lemma top_path_inj:
  assumes "m < 2 ^ 27" "n < 2 ^ 27" "top_path m = top_path n" "m mod 512 = n mod 512"
  shows "m = n"
  using assms page_split [OF assms(1)] page_split [OF assms(2)] by (simp add: top_path_def)

text \<open>Setting a leaf entry.\<close>

definition set_leaf :: "nat \<Rightarrow> nat \<Rightarrow> pte \<Rightarrow> vm \<Rightarrow> vm" where
  "set_leaf p j e v = v\<lparr>vm_pool := (vm_pool v)(p := (vm_pool v p)(j := e))\<rparr>"

lemma set_leaf_pool: "vm_pool (set_leaf p j e v) q k = (if q = p \<and> k = j then e else vm_pool v q k)"
  by (simp add: set_leaf_def)

lemma set_leaf_tree:
  assumes "tree L v r pos" "pos p = Some (top_path n)"
  shows "tree L (set_leaf p j e v) r pos"
proof -
  have np: "q \<noteq> p" if "pos q = Some path" "length path < 2" for q path
    using that assms(2) by (auto simp: top_path_def)
  have same: "vm_pool (set_leaf p j e v) q = vm_pool v q" if "q \<noteq> p" for q
    using that by (simp add: set_leaf_def)
  have "\<exists>c. vm_pool (set_leaf p j e v) q i = node_entry L c \<and> pos c = Some (path @ [i])"
    if "pos q = Some path" "length path < 2" "i < 512" "vm_pool (set_leaf p j e v) q i AND PTE_V \<noteq> 0" for q path i
    using tree_child [OF assms(1) that(1-3)] that(4) same [OF np [OF that(1,2)]] by (metis (no_types))
  moreover have "\<exists>q. pos q = Some path \<and> vm_pool (set_leaf p j e v) q i = node_entry L c"
    if c: "pos c = Some (path @ [i])" for c path i
  proof -
    have "length path < 2" using treeD(3) [OF assms(1) c] by simp
    moreover obtain q where "pos q = Some path" "vm_pool v q i = node_entry L c"
      by (rule tree_parent [OF assms(1) c])
    ultimately show ?thesis using same np by metis
  qed
  ultimately show ?thesis
    using assms(1) unfolding tree_def by blast
qed

lemma set_leaf_shaped:
  assumes "shaped L v r pos" "pos p = Some (top_path n)"
  shows "shaped L (set_leaf p j e v) r pos"
proof -
  have "used (set_leaf p j e v) = used v" "vm_ok (set_leaf p j e v) = vm_ok v"
    by (simp_all add: used_def vm_ok_def set_leaf_def)
  then show ?thesis using assms set_leaf_tree [of L v r pos p n] by (simp add: shaped_def)
qed

lemma set_leaf_grows:
  assumes "shaped L v r pos" "pos p = Some path"
  shows "grows v pos (set_leaf p j e v) pos"
proof -
  have "vm_pool (set_leaf p j e v) q = vm_pool v q" if "q \<noteq> p" for q
    using that by (simp add: set_leaf_def)
  moreover have "used (set_leaf p j e v) = used v" by (simp add: used_def set_leaf_def)
  moreover have "p \<in> dom pos" "dom pos \<subseteq> used v" using assms by (auto simp: shaped_def)
  ultimately show ?thesis by (auto simp: grows_def set_leaf_def)
qed

lemma set_leaf_leaf:
  assumes "layout_ok L" "tree L v r pos" "pos p = Some (top_path n)" "n < 2 ^ 27" "m < 2 ^ 27" "e AND PTE_V \<noteq> 0"
  shows "leaf (set_leaf p (n mod 512) e v) pos m x \<longleftrightarrow> (if m = n then x = e else leaf v pos m x)"
proof (cases "m = n")
  case True
  have "q = p" if "pos q = Some (top_path n)" for q
    using tree_inj [OF assms(1,2)] that assms(3) by blast
  then have "(pos q = Some (top_path n)) = (q = p)" for q using assms(3) by blast
  then have "leaf (set_leaf p (n mod 512) e v) pos n x \<longleftrightarrow> e = x \<and> x AND PTE_V \<noteq> 0"
    by (simp add: leaf_def set_leaf_pool)
  then show ?thesis using True assms(6) by auto
next
  case False
  then have "\<not> (q = p \<and> m mod 512 = n mod 512)" if "pos q = Some (top_path m)" for q
    using that assms(3) top_path_inj [OF assms(5,4)] by auto
  then show ?thesis using False unfolding leaf_def set_leaf_pool by auto
qed

text \<open>
  One page: the new leaf, or nothing when it was mapped already or no page was free. The table grows
  along the path of the page only.
\<close>

definition prefixes :: "nat \<Rightarrow> nat list set" where
  "prefixes n = {take 1 (top_path n), top_path n}"

lemma map_page_cases:
  assumes "layout_ok L" "shaped L v r pos" "unat a < 2 ^ 39" "flags perm"
  obtains (no) v' pos' where "map_page L (page_addr L r) a pa perm v = Inr (-1, v')"
      "shaped L v' r pos'" "grows v pos v' pos'" "ran pos' \<subseteq> ran pos \<union> prefixes (page_number a)"
      "used v' = {..<PT_POOL_PAGES} \<or> (\<exists>e. leaf v pos (page_number a) e)"
    | (yes) v' pos' where "map_page L (page_addr L r) a pa perm v = Inr (0, v')"
      "shaped L v' r pos'" "grows v pos v' pos'" "ran pos' \<subseteq> ran pos \<union> prefixes (page_number a)"
      "\<And>m e. m < 2 ^ 27 \<Longrightarrow> leaf v' pos' m e \<longleftrightarrow> (if m = page_number a then e = leaf_entry pa perm else leaf v pos m e)"
proof -
  have root: "pos r = Some []" using assms(2) treeD(1) by (auto simp: shaped_def)
  show thesis
  proof (cases rule: descend_cases [OF assms(1,2) root, of "vpn a 2"])
    case 3
    then show thesis
      using no [of v pos] assms(2) grows_refl [of pos v] by (auto simp: map_page_def shaped_def)
  next
    case (4 v1 pos1 p1)
    note d1 = 4
    have r1: "ran pos1 \<subseteq> ran pos \<union> prefixes (page_number a)"
      using d1(6) top_path_vpn [of a, symmetric] by (auto simp: prefixes_def)
    show thesis
    proof (cases rule: descend_cases [OF assms(1) d1(2,4), of "vpn a 1"])
      case 3
      then show thesis using no [of v1 pos1] d1 r1 by (auto simp: map_page_def)
    next
      case (4 v2 pos2 p0)
      have g: "grows v pos v2 pos2" using grows_trans [OF d1(3) 4(3)] .
      have r2: "ran pos2 \<subseteq> ran pos \<union> prefixes (page_number a)"
        using 4(6) r1 top_path_vpn [of a, symmetric] by (auto simp: prefixes_def)
      have p0: "pos2 p0 = Some (top_path (page_number a))" using 4(4) top_path_vpn [of a] by simp
      have t: "tree L v2 r pos2" using 4(2) by (simp add: shaped_def)
      have lt: "p0 < PT_POOL_PAGES" using treeD(2) [OF t p0] .
      have n: "page_number a < 2 ^ 27" using assms(3) by (simp add: page_number_def less_mult_imp_div_less)
      let ?e = "leaf_entry pa perm" and ?j = "page_number a mod 512"
      let ?v = "set_leaf p0 ?j ?e v2"
      show thesis
      proof (cases "vm_pool v2 p0 ?j AND PTE_V = 0")
        case False
        then have "map_page L (page_addr L r) a pa perm v = Inr (-1, v2)"
          using d1(1) 4(1) lt assms(1) by (simp add: map_page_def read_pte_def vpn_page_number(3))
        moreover have "leaf v pos (page_number a) (vm_pool v2 p0 ?j)"
          unfolding d1(5) [symmetric] 4(5) [symmetric] leaf_def using p0 False by blast
        ultimately show thesis using no 4(2) g r2 by blast
      next
        case True
        then have "map_page L (page_addr L r) a pa perm v = Inr (0, ?v)"
          using d1(1) 4(1) lt assms(1)
          by (simp add: map_page_def read_pte_def write_pte_def vpn_page_number(3) set_leaf_def)
        moreover have "grows v pos ?v pos2"
          using grows_trans [OF g set_leaf_grows [OF 4(2) p0]] .
        moreover have "leaf ?v pos2 m e \<longleftrightarrow> (if m = page_number a then e = ?e else leaf v pos m e)"
          if "m < 2 ^ 27" for m e
          using set_leaf_leaf [OF assms(1) t p0 n that leaf_entry_flags(1) [OF assms(4)]] 4(5) d1(5) by simp
        ultimately show thesis using yes set_leaf_shaped [OF 4(2) p0] r2 by blast
      qed
    qed (simp_all)
  qed (simp_all)
qed

text \<open>A range of pages. \<open>mapped\<close> says what the table maps after mapping \<open>k\<close> pages at \<open>a\<close>.\<close>

definition mapped :: "addr \<Rightarrow> nat \<Rightarrow> addr \<Rightarrow> pte \<Rightarrow> (nat \<Rightarrow> pte \<Rightarrow> bool) \<Rightarrow> nat \<Rightarrow> pte \<Rightarrow> bool" where
  "mapped a k pa perm old m e \<longleftrightarrow>
     (if page_number a \<le> m \<and> m < page_number a + k
      then e = leaf_entry (pa + of_nat (m - page_number a) * PGSIZE) perm else old m e)"

lemma mapped_0 [simp]: "mapped a 0 pa perm old = old"
  by (intro ext) (auto simp: mapped_def)

lemma mapped_cong: "old m e = old' m e \<Longrightarrow> mapped a k pa perm old m e = mapped a k pa perm old' m e"
  by (simp add: mapped_def)

lemma page_number_Suc:
  assumes "unat a + 4096 \<le> 2 ^ 39"
  shows "unat (a + PGSIZE) = unat a + 4096" "page_number (a + PGSIZE) = Suc (page_number a)"
proof -
  show "unat (a + PGSIZE) = unat a + 4096" using unat_scaled [of a 1] assms by simp
  then show "page_number (a + PGSIZE) = Suc (page_number a)" by (simp add: page_number_def)
qed

lemma mapped_Suc:
  assumes "unat a + 4096 \<le> 2 ^ 39"
  shows "mapped (a + PGSIZE) k (pa + PGSIZE) perm
      (\<lambda>m e. if m = page_number a then e = leaf_entry pa perm else old m e) m e
    = mapped a (Suc k) pa perm old m e"
proof -
  have s: "page_number (a + PGSIZE) = Suc (page_number a)" using page_number_Suc [OF assms] by simp
  have "(of_nat (m - page_number a) :: addr) * PGSIZE = PGSIZE + of_nat (m - Suc (page_number a)) * PGSIZE"
    if "Suc (page_number a) \<le> m"
  proof -
    have "m - page_number a = Suc (m - Suc (page_number a))" using that by simp
    then have "(of_nat (m - page_number a) :: addr) = 1 + of_nat (m - Suc (page_number a))"
      by (simp only: of_nat_Suc)
    then show ?thesis by (simp add: distrib_right)
  qed
  then show ?thesis unfolding mapped_def s by (auto simp: add.assoc less_Suc_eq_le)
qed

definition paths :: "addr \<Rightarrow> nat \<Rightarrow> nat list set" where
  "paths a k = (\<Union>i \<in> {..<k}. prefixes (page_number a + i))"

lemma paths_0 [simp]: "paths a 0 = {}"
  by (simp add: paths_def)

lemma paths_Suc:
  assumes "page_number b = Suc (page_number a)"
  shows "paths a (Suc k) = prefixes (page_number a) \<union> paths b k"
  unfolding paths_def assms lessThan_Suc_eq_insert_0 by auto

lemma map_loop_cases:
  assumes "layout_ok L" "shaped L v r pos" "unat a + k * 4096 \<le> 2 ^ 39" "flags perm"
  obtains (no) v' pos' where "map_loop L (page_addr L r) k a pa perm v = Inr (-1, v')"
      "shaped L v' r pos'" "grows v pos v' pos'" "ran pos' \<subseteq> ran pos \<union> paths a k"
      "used v' = {..<PT_POOL_PAGES} \<or> (\<exists>i < k. \<exists>e. leaf v pos (page_number a + i) e)"
    | (yes) v' pos' where "map_loop L (page_addr L r) k a pa perm v = Inr (0, v')"
      "shaped L v' r pos'" "grows v pos v' pos'" "ran pos' \<subseteq> ran pos \<union> paths a k"
      "\<And>m e. m < 2 ^ 27 \<Longrightarrow> leaf v' pos' m e \<longleftrightarrow> mapped a k pa perm (leaf v pos) m e"
  using assms(2,3)
proof (induction k arbitrary: a pa v pos thesis)
  case 0
  have "dom pos \<subseteq> used v" using "0.prems"(3) by (simp add: shaped_def)
  then show ?case using "0.prems"(2) [of v pos] "0.prems"(3) grows_refl by simp
next
  case (Suc k)
  have a: "unat a < 2 ^ 39" "unat a + 4096 \<le> 2 ^ 39" using Suc.prems(4) by simp_all
  have s: "page_number (a + PGSIZE) = Suc (page_number a)" using page_number_Suc(2) [OF a(2)] .
  show ?case
  proof (cases rule: map_page_cases [OF assms(1) Suc.prems(3) a(1) assms(4), of pa])
    case (1 v1 pos1)
    moreover have "prefixes (page_number a) \<subseteq> paths a (Suc k)" using paths_Suc [OF s] by blast
    ultimately show ?thesis using Suc.prems(1) [of v1 pos1] by force
  next
    case (2 v1 pos1)
    have b: "unat (a + PGSIZE) + k * 4096 \<le> 2 ^ 39"
      using Suc.prems(4) page_number_Suc(1) [OF a(2)] by simp
    show ?thesis
    proof (rule Suc.IH [OF _ _ 2(2) b, of "pa + PGSIZE"])
      fix v2 pos2
      assume r: "map_loop L (page_addr L r) k (a + PGSIZE) (pa + PGSIZE) perm v1 = Inr (-1, v2)"
        "shaped L v2 r pos2" "grows v1 pos1 v2 pos2" "ran pos2 \<subseteq> ran pos1 \<union> paths (a + PGSIZE) k"
        and f: "used v2 = {..<PT_POOL_PAGES} \<or> (\<exists>i < k. \<exists>e. leaf v1 pos1 (page_number (a + PGSIZE) + i) e)"
      have "ran pos2 \<subseteq> ran pos \<union> paths a (Suc k)" using r(4) 2(4) paths_Suc [OF s] by blast
      moreover have "\<exists>i < Suc k. \<exists>e. leaf v pos (page_number a + i) e"
        if i: "i < k" "leaf v1 pos1 (page_number (a + PGSIZE) + i) e" for i e
      proof -
        have "(page_number a + Suc i) * 4096 \<le> unat a + k * 4096"
          using i(1) unfolding page_number_def by simp
        then have "page_number a + Suc i < 2 ^ 27" using Suc.prems(4) by simp
        then have "leaf v pos (page_number a + Suc i) e" using i(2) 2(5) [of "page_number a + Suc i" e] s by simp
        then show ?thesis using i(1) by blast
      qed
      then have "used v2 = {..<PT_POOL_PAGES} \<or> (\<exists>i < Suc k. \<exists>e. leaf v pos (page_number a + i) e)" using f by blast
      ultimately show thesis using Suc.prems(1) [of v2 pos2] 2(1) r grows_trans [OF 2(3)] by simp
    next
      fix v2 pos2
      assume r: "map_loop L (page_addr L r) k (a + PGSIZE) (pa + PGSIZE) perm v1 = Inr (0, v2)"
        "shaped L v2 r pos2" "grows v1 pos1 v2 pos2" "ran pos2 \<subseteq> ran pos1 \<union> paths (a + PGSIZE) k"
        and l: "\<And>m e. m < 2 ^ 27 \<Longrightarrow>
          leaf v2 pos2 m e \<longleftrightarrow> mapped (a + PGSIZE) k (pa + PGSIZE) perm (leaf v1 pos1) m e"
      have "leaf v2 pos2 m e \<longleftrightarrow> mapped a (Suc k) pa perm (leaf v pos) m e" if m: "m < 2 ^ 27" for m e
        unfolding l [OF m] mapped_Suc [OF a(2), symmetric] by (rule mapped_cong) (rule 2(5) [OF m])
      moreover have "ran pos2 \<subseteq> ran pos \<union> paths a (Suc k)" using r(4) 2(4) paths_Suc [OF s] by blast
      ultimately show thesis using Suc.prems(2) [of v2 pos2] 2(1) r grows_trans [OF 2(3)] by simp
    qed
  qed
qed

section \<open>Destroying a table\<close>

text \<open>The pages below a path, and what a release of the pages \<open>S\<close> does.\<close>

definition below :: "(nat \<rightharpoonup> nat list) \<Rightarrow> nat list \<Rightarrow> nat set" where
  "below pos path = {q. \<exists>s. pos q = Some (path @ s)}"

definition freed :: "vm \<Rightarrow> nat set \<Rightarrow> vm \<Rightarrow> bool" where
  "freed v S v' \<longleftrightarrow>
     used v' = used v - S \<and> vm_ok v' \<and> vm_pool v' = vm_pool v \<and> vm_mem v' = vm_mem v \<and> vm_kernel_pt v' = vm_kernel_pt v"

lemma freed_refl: "vm_ok v \<Longrightarrow> freed v {} v"
  by (simp add: freed_def)

lemma freed_trans: "freed v S v1 \<Longrightarrow> freed v1 T v2 \<Longrightarrow> freed v (S \<union> T) v2"
  by (auto simp: freed_def)

lemma freed_tree: "freed v S v' \<Longrightarrow> tree L v r pos \<Longrightarrow> tree L v' r pos"
  by (simp add: freed_def tree_def)

lemma pt_release_page:
  assumes "layout_ok L" "p < PT_POOL_PAGES" "vm_ok v"
  shows "freed v {p} (pt_release L (page_addr L p) v)"
  using assms used_set(2) [OF assms(3,2)] by (simp add: pt_release_def freed_def vm_ok_def)

lemma tree_prefix:
  assumes "tree L v r pos" "pos q = Some (path @ s)"
  shows "\<exists>p. pos p = Some path"
  using assms(2)
proof (induction s arbitrary: q rule: rev_induct)
  case Nil
  then show ?case by auto
next
  case (snoc i s)
  obtain q' where "pos q' = Some (path @ s)"
    by (rule tree_parent [OF assms(1), of q "path @ s" i]) (use snoc.prems in auto)
  then show ?case by (rule snoc.IH)
qed

lemma below_invalid:
  assumes "layout_ok L" "tree L v r pos" "pos p = Some path" "vm_pool v p i AND PTE_V = 0"
  shows "below pos (path @ [i]) = {}"
proof (rule ccontr)
  assume "below pos (path @ [i]) \<noteq> {}"
  then obtain q s where "pos q = Some ((path @ [i]) @ s)" by (auto simp: below_def)
  then obtain c where "pos c = Some (path @ [i])" using tree_prefix [OF assms(2)] by blast
  then obtain a where a: "pos a = Some path" "vm_pool v a i = node_entry L c"
    by (rule tree_parent [OF assms(2)])
  have "a = p" using tree_inj [OF assms(1,2) a(1) assms(3)] .
  then show False using a(2) assms(4) by simp
qed

lemma below_split:
  assumes "layout_ok L" "tree L v r pos" "pos p = Some path"
  shows "below pos path = (\<Union>i \<in> {..<512}. below pos (path @ [i])) \<union> {p}"
proof (intro equalityI subsetI)
  fix q
  assume "q \<in> below pos path"
  then obtain s where s: "pos q = Some (path @ s)" by (auto simp: below_def)
  show "q \<in> (\<Union>i \<in> {..<512}. below pos (path @ [i])) \<union> {p}"
  proof (cases s)
    case Nil
    then show ?thesis using s tree_inj [OF assms(1,2) _ assms(3)] by simp
  next
    case (Cons i s')
    then have "i < 512" "pos q = Some ((path @ [i]) @ s')" using s treeD(5) [OF assms(2) s] by auto
    then show ?thesis unfolding below_def by blast
  qed
next
  fix q
  assume "q \<in> (\<Union>i \<in> {..<512}. below pos (path @ [i])) \<union> {p}"
  then consider "q = p" | i where "q \<in> below pos (path @ [i])" by blast
  then show "q \<in> below pos path"
    using assms(3) by cases (force simp: below_def)+
qed

lemma destroy_entries_frees:
  assumes "layout_ok L" "pos p = Some path" "length path < 2" "set js \<subseteq> {..<512}"
    and sub: "\<And>c i v. tree L v r pos \<Longrightarrow> vm_ok v \<Longrightarrow> pos c = Some (path @ [i]) \<Longrightarrow>
      \<exists>v'. destroy (page_addr L c) v = Inr v' \<and> freed v (below pos (path @ [i])) v'"
    and "tree L v r pos" "vm_ok v"
  shows "\<exists>v'. destroy_entries L destroy (page_addr L p) js v = Inr v' \<and>
    freed v (\<Union>i \<in> set js. below pos (path @ [i])) v'"
  using assms(4,6,7)
proof (induction js arbitrary: v)
  case Nil
  then show ?case by (simp add: freed_refl)
next
  case (Cons i js)
  have p: "p < PT_POOL_PAGES" using treeD(2) [OF Cons.prems(2) assms(2)] .
  have rd: "read_pte L (page_addr L p) i v = Inr (vm_pool v p i)"
    using assms(1) p by (simp add: read_pte_def)
  have i: "i < 512" and js: "set js \<subseteq> {..<512}" using Cons.prems(1) by auto
  show ?case
  proof (cases "vm_pool v p i AND PTE_V = 0")
    case True
    then have "below pos (path @ [i]) = {}" by (rule below_invalid [OF assms(1) Cons.prems(2) assms(2)])
    then show ?thesis using Cons.IH [OF js Cons.prems(2,3)] rd True by simp
  next
    case False
    obtain c where c: "vm_pool v p i = node_entry L c" "pos c = Some (path @ [i])"
      by (rule tree_child [OF Cons.prems(2) assms(2,3) i False])
    obtain v1 where v1: "destroy (page_addr L c) v = Inr v1" "freed v (below pos (path @ [i])) v1"
      using sub [OF Cons.prems(2,3) c(2)] by blast
    have "vm_ok v1" using v1(2) by (simp add: freed_def)
    then obtain v2 where v2: "destroy_entries L destroy (page_addr L p) js v1 = Inr v2"
      "freed v1 (\<Union>i \<in> set js. below pos (path @ [i])) v2"
      using Cons.IH [OF js freed_tree [OF v1(2) Cons.prems(2)]] by blast
    have "destroy_entries L destroy (page_addr L p) (i # js) v = Inr v2"
      using rd c v1(1) v2(1) assms(1) treeD(2) [OF Cons.prems(2) c(2)] by simp
    then show ?thesis using freed_trans [OF v1(2) v2(2)] by auto
  qed
qed

lemma destroy_level_frees:
  assumes "layout_ok L" "tree L v r pos" "vm_ok v" "pos p = Some path" "length path + level = 2"
  shows "\<exists>v'. pt_destroy_level L level (page_addr L p) v = Inr v' \<and> freed v (below pos path) v'"
  using assms(2-5)
proof (induction level arbitrary: v p path)
  case 0
  have p: "p < PT_POOL_PAGES" using treeD(2) [OF "0.prems"(1,3)] .
  have "below pos path = {p}"
  proof -
    have "below pos (path @ [i]) = {}" for i
      using treeD(3) [OF "0.prems"(1)] "0.prems"(4) by (force simp: below_def)
    then show ?thesis using below_split [OF assms(1) "0.prems"(1,3)] by simp
  qed
  then show ?case using pt_release_page [OF assms(1) p "0.prems"(2)] assms(1) p by simp
next
  case (Suc level)
  have p: "p < PT_POOL_PAGES" using treeD(2) [OF Suc.prems(1,3)] .
  have idx: "set [0..<512] = {..<512 :: nat}" by (simp only: set_upt lessThan_atLeast0)
  have short: "length path < 2" using Suc.prems(4) by simp
  have sub: "\<exists>v'. pt_destroy_level L level (page_addr L c) w = Inr v' \<and> freed w (below pos (path @ [i])) v'"
    if "tree L w r pos" "vm_ok w" "pos c = Some (path @ [i])" for c i w
    by (rule Suc.IH [OF that]) (use Suc.prems(4) in simp)
  obtain v1 where v1: "destroy_entries L (pt_destroy_level L level) (page_addr L p) [0..<512] v = Inr v1"
    "freed v (\<Union>i \<in> {..<512}. below pos (path @ [i])) v1"
    using destroy_entries_frees [where destroy = "pt_destroy_level L level",
        OF assms(1) Suc.prems(3) short equalityD1 [OF idx] sub Suc.prems(1,2)]
    unfolding idx by blast
  have "vm_ok v1" using v1(2) by (simp add: freed_def)
  then have "freed v (below pos path) (pt_release L (page_addr L p) v1)"
    unfolding below_split [OF assms(1) Suc.prems(1,3)]
    by (intro freed_trans [OF v1(2)] pt_release_page [OF assms(1) p])
  moreover have "pt_destroy_level L (Suc level) (page_addr L p) v = Inr (pt_release L (page_addr L p) v1)"
    unfolding pt_destroy_level.simps v1(1) using page_addr_not_null [OF assms(1) p] by simp
  ultimately show ?case by blast
qed

lemma below_root: "below pos [] = dom pos"
  by (auto simp: below_def)

lemma destroy_table:
  assumes "layout_ok L" "shaped L v r pos"
  obtains v' where "pt_destroy_level L 2 (page_addr L r) v = Inr v'" "freed v (dom pos) v'"
  using destroy_level_frees [OF assms(1), of v r pos r "[]" 2] assms(2) treeD(1) [of L v r pos]
  by (auto simp: shaped_def below_root)

section \<open>How many pages a table needs\<close>

lemma table_card:
  assumes "layout_ok L" "tree L v r pos" "ran pos \<subseteq> P" "finite P"
  shows "finite (dom pos)" "card (dom pos) \<le> card P"
proof -
  have inj: "inj_on pos (dom pos)" using tree_inj [OF assms(1,2)] by (fastforce simp: inj_on_def)
  have im: "pos ` dom pos \<subseteq> Some ` P" using assms(3) by (fastforce simp: ran_def)
  then show f: "finite (dom pos)" using inj assms(4) by (meson finite_imageD finite_imageI finite_subset)
  have "card (dom pos) = card (pos ` dom pos)" using inj by (simp add: card_image)
  also have "\<dots> \<le> card (Some ` P)" using im assms(4) by (intro card_mono) simp_all
  finally show "card (dom pos) \<le> card P" by (simp add: card_image)
qed

lemma full_bound:
  assumes "layout_ok L" "grows v Map.empty w pos" "shaped L w r pos" "ran pos \<subseteq> P" "finite P"
    and "used w = {..<PT_POOL_PAGES}"
  shows "PT_POOL_PAGES \<le> card (used v) + card P"
proof -
  have t: "tree L w r pos" using assms(3) by (simp add: shaped_def)
  have "used w = used v \<union> dom pos" using assms(2) by (simp add: grows_def)
  then have "card {..<PT_POOL_PAGES} \<le> card (used v) + card (dom pos)"
    unfolding assms(6) [symmetric] by (simp only: card_Un_le)
  then have "PT_POOL_PAGES \<le> card (used v) + card (dom pos)" by simp
  then show ?thesis using table_card(2) [OF assms(1) t assms(4,5)] by simp
qed

end
