(* ===== verification/Nano_Spaces.thy ===== *)
theory Nano_Spaces
  imports Nano_Tables
begin

text \<open>
  The address spaces of \<^verbatim>\<open>kernel/vm.c\<close>: what \<^verbatim>\<open>vm_create_user\<close>, \<^verbatim>\<open>vm_clone_user\<close> and \<^verbatim>\<open>vm_destroy\<close> do to the pool and
  to the tables, which addresses a user table translates, and that processes are isolated from one
  another and from the kernel.
\<close>

unbundle bit_operations_syntax

section \<open>Walking a table\<close>

lemma nat_window:
  fixes a :: nat
  assumes "a \<le> x" "x < b"
  obtains k where "x = a + k" "k < b - a"
  using that [of "x - a"] assms by linarith

lemma walk_entry:
  assumes "layout_ok L" "tree L v r pos" "pos p = Some path" "i < 512"
  shows "read_pte L (page_addr L p) i v = Inr (vm_pool v p i)"
    and "length path < 2 \<Longrightarrow> vm_pool v p i AND PTE_V \<noteq> 0 \<Longrightarrow>
      \<exists>c. pte2pa (vm_pool v p i) = page_addr L c \<and> pos c = Some (path @ [i])"
proof -
  show "read_pte L (page_addr L p) i v = Inr (vm_pool v p i)"
    using assms(1) treeD(2) [OF assms(2,3)] by (simp add: read_pte_def)
  assume a: "length path < 2" "vm_pool v p i AND PTE_V \<noteq> 0"
  obtain c where c: "vm_pool v p i = node_entry L c" "pos c = Some (path @ [i])"
    by (rule tree_child [OF assms(2,3) a(1) assms(4) a(2)])
  then show "\<exists>c. pte2pa (vm_pool v p i) = page_addr L c \<and> pos c = Some (path @ [i])"
    using assms(1) treeD(2) [OF assms(2) c(2)] by auto
qed

lemma walk_leaf:
  assumes "layout_ok L" "tree L v r pos" "unat va < 2 ^ 39"
  obtains (none) "walk_user_pte L (page_addr L r) va v = Inr None" "\<And>e. \<not> leaf v pos (page_number va) e"
    | (some) e where "walk_user_pte L (page_addr L r) va v = Inr (Some e)" "leaf v pos (page_number va) e"
proof -
  let ?n = "page_number va"
  have small: "\<not> push_bit 39 1 \<le> va" using assms(3) by (simp add: word_le_nat_alt)
  have root: "pos r = Some []" using treeD(1) [OF assms(2)] .
  note w2 = walk_entry [OF assms(1,2) root vpn_less, of va 2]
  have no_leaf: "\<not> leaf v pos ?n e" if "\<And>p. pos p = Some [vpn va 2, vpn va 1] \<Longrightarrow> vm_pool v p (vpn va 0) AND PTE_V = 0" for e
    using that unfolding leaf_def top_path_vpn [symmetric] vpn_page_number(3) [symmetric] by blast
  have parent: "\<exists>p. pos p = Some path \<and> vm_pool v p i AND PTE_V \<noteq> 0" if "pos c = Some (path @ [i])" for c path i
    by (rule tree_parent [OF assms(2) that]) auto
  show thesis
  proof (cases "vm_pool v r (vpn va 2) AND PTE_V = 0")
    case True
    have "pos p \<noteq> Some [vpn va 2, vpn va 1]" for p
    proof
      assume "pos p = Some [vpn va 2, vpn va 1]"
      then obtain p1 where "pos p1 = Some ([] @ [vpn va 2])" using parent [of p "[vpn va 2]" "vpn va 1"] by auto
      then show False using parent treeD(4) [OF assms(2)] True by blast
    qed
    then show thesis using none no_leaf True small w2(1) by (simp add: walk_user_pte_def)
  next
    case v2: False
    obtain p1 where p1: "pte2pa (vm_pool v r (vpn va 2)) = page_addr L p1" "pos p1 = Some [vpn va 2]"
      using w2(2) v2 by auto
    note w1 = walk_entry [OF assms(1,2) p1(2) vpn_less, of va 1]
    show thesis
    proof (cases "vm_pool v p1 (vpn va 1) AND PTE_V = 0")
      case True
      have "pos p \<noteq> Some [vpn va 2, vpn va 1]" for p
        using parent [of p "[vpn va 2]" "vpn va 1"] tree_inj [OF assms(1,2) p1(2)] True by auto
      then show thesis using none no_leaf True v2 small w2(1) w1(1) p1(1) by (simp add: walk_user_pte_def)
    next
      case v1: False
      obtain p0 where p0: "pte2pa (vm_pool v p1 (vpn va 1)) = page_addr L p0" "pos p0 = Some [vpn va 2, vpn va 1]"
        using w1(2) v1 by auto
      note w0 = walk_entry(1) [OF assms(1,2) p0(2) vpn_less, of va 0]
      let ?e = "vm_pool v p0 (vpn va 0)"
      have walk: "walk_user_pte L (page_addr L r) va v = Inr (if ?e AND PTE_V \<noteq> 0 then Some ?e else None)"
        using small v2 v1 w2(1) w1(1) w0 p1(1) p0(1) by (simp add: walk_user_pte_def)
      show thesis
      proof (cases "?e AND PTE_V = 0")
        case True
        then have "vm_pool v p (vpn va 0) AND PTE_V = 0" if "pos p = Some [vpn va 2, vpn va 1]" for p
          using tree_inj [OF assms(1,2) that p0(2)] by simp
        then show thesis using none no_leaf walk True by simp
      next
        case False
        then have "leaf v pos ?n ?e"
          using p0(2) unfolding leaf_def top_path_vpn [symmetric] vpn_page_number(3) [symmetric] by blast
        then show thesis using some walk False by simp
      qed
    qed
  qed
qed

section \<open>The kernel part of a table\<close>

lemma round_down: "unat (x AND NOT 4095 :: addr) = unat x - unat x mod 4096"
proof -
  have m: "(4095 :: addr) = mask 12" by (simp add: mask_eq_exp_minus_1)
  have "x AND NOT 4095 = push_bit 12 (drop_bit 12 x)"
    unfolding m by (rule bit_word_eqI) (auto simp: bit_simps)
  moreover have "push_bit 12 (drop_bit 12 x) = x - take_bit 12 x"
    using bits_ident [of 12 x] by (simp add: algebra_simps)
  moreover have "take_bit 12 x \<le> x"
    using unat_take_bit [of 12 x] by (simp add: word_le_nat_alt)
  ultimately show ?thesis using unat_take_bit [of 12 x] by (simp add: unat_sub)
qed

definition kernel_pages :: "layout \<Rightarrow> nat" where
  "kernel_pages L = page_count KERNEL_START (((lay_kernel_end L + PGSIZE - 1) AND NOT (PGSIZE - 1)) - KERNEL_START)"

lemma kernel_pages_bound:
  assumes "layout_ok L"
  shows "unat KERNEL_START + kernel_pages L * 4096 \<le> 2 ^ 39"
proof -
  let ?x = "lay_kernel_end L + 4095 :: addr"
  have e: "2147483648 \<le> unat (lay_kernel_end L)" "unat (lay_kernel_end L) < 2 ^ 38"
    using assms by (auto simp: layout_ok_def KERNEL_START_def word_le_nat_alt word_less_nat_alt)
  have x: "unat ?x = unat (lay_kernel_end L) + 4095"
    using e unat_word_ariths(1) [of "lay_kernel_end L" 4095] by simp
  have "unat (?x AND NOT 4095) \<le> unat ?x" "2147483648 \<le> unat (?x AND NOT 4095)"
    unfolding round_down x using e mod_less_divisor [of 4096 "unat (lay_kernel_end L) + 4095"] by linarith+
  then have "unat ((?x AND NOT 4095) - 2147483648) < 2 ^ 38"
    using e x by (subst unat_sub) (auto simp: word_le_nat_alt)
  then have "page_count KERNEL_START ((?x AND NOT 4095) - KERNEL_START) \<le> 2 ^ 26"
    by (auto simp: page_count_def KERNEL_START_def)
  moreover have "(lay_kernel_end L + PGSIZE - 1) AND NOT (PGSIZE - 1) = ?x AND NOT 4095"
    by (simp add: PGSIZE_def add_diff_eq [symmetric])
  ultimately show ?thesis by (simp add: kernel_pages_def KERNEL_START_def)
qed

definition kernel_leaves :: "layout \<Rightarrow> nat \<Rightarrow> pte \<Rightarrow> bool" where
  "kernel_leaves L = mapped UART0 1 UART0 (PTE_R OR PTE_W)
     (mapped KERNEL_START (kernel_pages L) KERNEL_START (PTE_R OR PTE_W OR PTE_X) (\<lambda>_ _. False))"

definition kernel_paths :: "layout \<Rightarrow> nat list set" where
  "kernel_paths L = paths KERNEL_START (kernel_pages L) \<union> paths UART0 1"

lemma kernel_map_cases:
  assumes "layout_ok L" "shaped L v r pos" "\<And>m e. m < 2 ^ 27 \<Longrightarrow> \<not> leaf v pos m e"
  obtains (no) v' pos' where "kernel_map L (page_addr L r) v = Inr (-1, v')"
      "shaped L v' r pos'" "grows v pos v' pos'" "ran pos' \<subseteq> ran pos \<union> kernel_paths L" "used v' = {..<PT_POOL_PAGES}"
    | (yes) v' pos' where "kernel_map L (page_addr L r) v = Inr (0, v')"
      "shaped L v' r pos'" "grows v pos v' pos'" "ran pos' \<subseteq> ran pos \<union> kernel_paths L"
      "\<And>m e. m < 2 ^ 27 \<Longrightarrow> leaf v' pos' m e \<longleftrightarrow> kernel_leaves L m e"
proof -
  note k = kernel_map_def mappages_def Let_def kernel_pages_def [symmetric]
  have f: "flags (PTE_R OR PTE_W OR PTE_X)" "flags (PTE_R OR PTE_W)" by simp_all
  have u: "page_count UART0 PGSIZE = 1" "unat UART0 + 1 * 4096 \<le> 2 ^ 39"
    by (simp_all add: page_count_def UART0_def PGSIZE_def)
  show thesis
  proof (cases rule: map_loop_cases [OF assms(1,2) kernel_pages_bound [OF assms(1)] f(1), of KERNEL_START])
    case (1 v1 pos1)
    have "\<not> leaf v pos (page_number KERNEL_START + i) e" if i: "i < kernel_pages L" for i e
    proof (rule assms(3))
      have "(page_number KERNEL_START + i) * 4096 < unat KERNEL_START + kernel_pages L * 4096"
        using i by (simp add: page_number_def KERNEL_START_def)
      then show "page_number KERNEL_START + i < 2 ^ 27" using kernel_pages_bound [OF assms(1)] by simp
    qed
    then show thesis using no [of v1 pos1] 1 by (auto simp: k kernel_paths_def)
  next
    case (2 v1 pos1)
    note m1 = 2
    show thesis
    proof (cases rule: map_loop_cases [OF assms(1) m1(2) u(2) f(2), of UART0])
      case (1 v2 pos2)
      have "\<not> leaf v1 pos1 (page_number UART0) e" for e
        using m1(5) [of "page_number UART0" e] assms(3) [of "page_number UART0" e]
        by (simp add: mapped_def page_number_def UART0_def KERNEL_START_def)
      then have "used v2 = {..<PT_POOL_PAGES}" using 1(5) by auto
      moreover have "ran pos2 \<subseteq> ran pos \<union> kernel_paths L" using 1(4) m1(4) by (auto simp: kernel_paths_def)
      ultimately show thesis using no [of v2 pos2] 1(1-3) m1(1) grows_trans [OF m1(3)] by (simp add: k u(1))
    next
      case (2 v2 pos2)
      have "leaf v2 pos2 m e \<longleftrightarrow> kernel_leaves L m e" if m: "m < 2 ^ 27" for m e
        unfolding 2(5) [OF m] kernel_leaves_def
        by (rule mapped_cong) (simp only: m1(5) [OF m], rule mapped_cong, simp add: assms(3) [OF m])
      moreover have "ran pos2 \<subseteq> ran pos \<union> kernel_paths L" using 2(4) m1(4) by (auto simp: kernel_paths_def)
      ultimately show thesis using yes [of v2 pos2] 2(1-3) m1(1) grows_trans [OF m1(3)] by (simp add: k u(1))
    qed
  qed
qed

lemma mapped_user_flag:
  assumes "mapped a k pa perm old m e" "flags perm" "perm AND PTE_U = 0" "\<And>e. old m e \<Longrightarrow> e AND PTE_U = 0"
  shows "e AND PTE_U = 0"
  using assms leaf_entry_flags(2) [OF assms(2)] by (auto simp: mapped_def split: if_splits)

lemma kernel_leaves_no_user:
  assumes "kernel_leaves L m e"
  shows "e AND PTE_U = 0"
  using assms unfolding kernel_leaves_def
proof (rule mapped_user_flag)
  show "flags (PTE_R OR PTE_W)" "(PTE_R OR PTE_W) AND PTE_U = 0"
    by simp (simp add: PTE_R_def PTE_W_def PTE_U_def)
  show "e AND PTE_U = 0"
    if "mapped KERNEL_START (kernel_pages L) KERNEL_START (PTE_R OR PTE_W OR PTE_X) (\<lambda>_ _. False) m e" for e
    using that by (rule mapped_user_flag) (simp_all add: PTE_R_def PTE_W_def PTE_X_def PTE_U_def flags_def)
qed

section \<open>User tables\<close>

text \<open>The address space a process of slot \<open>slot\<close> has: its image and its stack, in the memory of the slot.\<close>

definition user_space :: "layout \<Rightarrow> nat \<Rightarrow> addr \<Rightarrow> addr option" where
  "user_space L slot va =
     (if USER_BASE \<le> va \<and> va < USER_BASE + of_nat USER_IMAGE_PAGES * PGSIZE
      then Some (user_page L slot 0 + (va - USER_BASE))
      else if USER_STACK_TOP - PGSIZE \<le> va \<and> va < USER_STACK_TOP
      then Some (user_page L slot (USER_TOTAL_PAGES - 1) + (va - (USER_STACK_TOP - PGSIZE)))
      else None)"

definition user_leaves :: "layout \<Rightarrow> nat \<Rightarrow> nat \<Rightarrow> pte \<Rightarrow> bool" where
  "user_leaves L slot =
     mapped (USER_STACK_TOP - PGSIZE) 1 (user_page L slot (USER_TOTAL_PAGES - 1)) (PTE_R OR PTE_W OR PTE_U)
       (mapped USER_BASE USER_IMAGE_PAGES (user_page L slot 0) (PTE_R OR PTE_W OR PTE_X OR PTE_U) (kernel_leaves L))"

text \<open>\<open>pt\<close> is the table of slot \<open>slot\<close>, and \<open>D\<close> are its pages of the pool.\<close>

definition user_table :: "layout \<Rightarrow> vm \<Rightarrow> addr \<Rightarrow> nat \<Rightarrow> nat set \<Rightarrow> bool" where
  "user_table L v pt slot D \<longleftrightarrow>
     (\<exists>r pos. pt = page_addr L r \<and> shaped L v r pos \<and> D = dom pos \<and>
        (\<forall>m < 2 ^ 27. \<forall>e. leaf v pos m e \<longleftrightarrow> user_leaves L slot m e))"

lemma user_page_unat:
  assumes "layout_ok L" "slot < NPROC" "k < USER_TOTAL_PAGES"
  shows "unat (user_page L slot k) = unat (lay_user L) + (slot * USER_TOTAL_PAGES + k) * 4096"
  unfolding user_page_def using assms by (intro unat_scaled) (simp add: layout_ok_def)

lemma user_page_aligned:
  assumes "layout_ok L" "slot < NPROC" "k < USER_TOTAL_PAGES"
  shows "unat (user_page L slot k) mod 4096 = 0"
  using assms by (auto simp: user_page_unat [OF assms] layout_ok_def mod_eq_0_iff_dvd)

lemma user_page_plus: "user_page L slot 0 + of_nat k * PGSIZE = user_page L slot k"
  by (simp add: user_page_def distrib_right)

text \<open>What a leaf of a user table translates to, by page number.\<close>

lemma user_leaves_cases:
  assumes "user_leaves L slot m e"
  obtains (stack) "m = 0x7FFFF" "e = leaf_entry (user_page L slot 4) (PTE_R OR PTE_W OR PTE_U)"
    | (img) k where "k < 4" "m = 0x40000 + k" "e = leaf_entry (user_page L slot k) (PTE_R OR PTE_W OR PTE_X OR PTE_U)"
    | (kernel) "m \<noteq> 0x7FFFF" "\<not> (0x40000 \<le> m \<and> m < 0x40004)" "e AND PTE_U = 0"
proof -
  have n: "page_number (USER_STACK_TOP - PGSIZE) = 0x7FFFF" "page_number USER_BASE = 0x40000"
    by (simp_all add: page_number_def layout_defs)
  show thesis
  proof (cases "m = 0x7FFFF")
    case True
    then show thesis using assms stack by (simp add: user_leaves_def mapped_def n)
  next
    case not_stack: False
    show thesis
    proof (cases "0x40000 \<le> m \<and> m < 0x40004")
      case True
      then obtain k where k: "m = 0x40000 + k" "k < 4" using le_Suc_ex [of "0x40000" m] by auto
      then have "e = leaf_entry (user_page L slot k) (PTE_R OR PTE_W OR PTE_X OR PTE_U)"
        using assms by (simp add: user_leaves_def mapped_def n user_page_plus)
      then show thesis using k img by blast
    next
      case False
      then have "kernel_leaves L m e"
        using assms not_stack by (auto simp: user_leaves_def mapped_def n split: if_splits)
      then show thesis using kernel not_stack False kernel_leaves_no_user by blast
    qed
  qed
qed

lemma user_leaves_user:
  "k < 4 \<Longrightarrow> user_leaves L slot (0x40000 + k) (leaf_entry (user_page L slot k) (PTE_R OR PTE_W OR PTE_X OR PTE_U))"
  "user_leaves L slot 0x7FFFF (leaf_entry (user_page L slot 4) (PTE_R OR PTE_W OR PTE_U))"
proof -
  have n: "page_number (USER_STACK_TOP - PGSIZE) = 0x7FFFF" "page_number USER_BASE = 0x40000"
    by (simp_all add: page_number_def layout_defs)
  show "user_leaves L slot (0x40000 + k) (leaf_entry (user_page L slot k) (PTE_R OR PTE_W OR PTE_X OR PTE_U))" if "k < 4"
    using that by (simp add: user_leaves_def mapped_def n user_page_plus)
  show "user_leaves L slot 0x7FFFF (leaf_entry (user_page L slot 4) (PTE_R OR PTE_W OR PTE_U))"
    by (simp add: user_leaves_def mapped_def n)
qed

lemma address_split: "va = of_nat (page_number va) * PGSIZE + (va AND (PGSIZE - 1))"
proof -
  have "va = of_nat (unat va div 4096 * 4096 + unat va mod 4096)" by simp
  also have "\<dots> = of_nat (page_number va) * PGSIZE + of_nat (unat (va AND 4095))"
    unfolding page_number_def and_4095 by (simp only: of_nat_add of_nat_mult PGSIZE_def of_nat_numeral)
  finally show ?thesis by (simp add: PGSIZE_def)
qed

lemma user_space_pages:
  "page_number va = 0x40000 + k \<Longrightarrow> k < 4 \<Longrightarrow> user_space L slot va = Some (user_page L slot k + (va AND (PGSIZE - 1)))"
  "page_number va = 0x7FFFF \<Longrightarrow> user_space L slot va = Some (user_page L slot 4 + (va AND (PGSIZE - 1)))"
  "page_number va \<noteq> 0x7FFFF \<Longrightarrow> \<not> (0x40000 \<le> page_number va \<and> page_number va < 0x40004) \<Longrightarrow> user_space L slot va = None"
proof -
  have b: "USER_BASE \<le> va \<and> va < USER_BASE + of_nat USER_IMAGE_PAGES * PGSIZE \<longleftrightarrow> 0x40000 \<le> page_number va \<and> page_number va < 0x40004"
    by (auto simp: USER_BASE_def PGSIZE_def page_number_def word_le_nat_alt word_less_nat_alt)
  have s: "USER_STACK_TOP - PGSIZE \<le> va \<and> va < USER_STACK_TOP \<longleftrightarrow> page_number va = 0x7FFFF"
    by (auto simp: USER_STACK_TOP_def PGSIZE_def page_number_def word_le_nat_alt word_less_nat_alt)
  show "user_space L slot va = Some (user_page L slot k + (va AND (PGSIZE - 1)))"
    if "page_number va = 0x40000 + k" "k < 4"
  proof -
    have "va - USER_BASE = of_nat k * PGSIZE + (va AND (PGSIZE - 1))"
      using address_split [of va] that(1) by (simp add: USER_BASE_def PGSIZE_def algebra_simps)
    then show ?thesis using that b by (simp add: user_space_def user_page_plus [symmetric, of L slot k])
  qed
  show "user_space L slot va = Some (user_page L slot 4 + (va AND (PGSIZE - 1)))"
    if "page_number va = 0x7FFFF"
  proof -
    have "va - (USER_STACK_TOP - PGSIZE) = va AND (PGSIZE - 1)"
      using address_split [of va] that by (simp add: USER_STACK_TOP_def PGSIZE_def algebra_simps)
    then show ?thesis unfolding user_space_def b s using that by simp
  qed
  show "user_space L slot va = None"
    if "page_number va \<noteq> 0x7FFFF" "\<not> (0x40000 \<le> page_number va \<and> page_number va < 0x40004)"
    unfolding user_space_def b s using that by simp
qed

lemma user_page_cases:
  obtains (stack) "page_number va = 0x7FFFF" | (img) k where "page_number va = 0x40000 + k" "k < 4"
    | (other) "page_number va \<noteq> 0x7FFFF" "\<not> (0x40000 \<le> page_number va \<and> page_number va < 0x40004)"
proof (cases "page_number va = 0x7FFFF")
  case True
  then show thesis by (rule stack)
next
  case False
  show thesis
  proof (cases "0x40000 \<le> page_number va \<and> page_number va < 0x40004")
    case True
    then obtain k where "page_number va = 0x40000 + k" "k < 4" by (auto elim!: nat_window)
    then show thesis by (rule img)
  next
    case no: False
    with False show thesis by (rule other)
  qed
qed

lemma translate_user_table:
  assumes "layout_ok L" "slot < NPROC" "user_table L v pt slot D"
  shows "translate_user L pt va v = Inr (user_space L slot va)"
proof -
  obtain r pos where t: "pt = page_addr L r" "tree L v r pos"
    and l: "\<And>m e. m < 2 ^ 27 \<Longrightarrow> leaf v pos m e \<longleftrightarrow> user_leaves L slot m e"
    using assms(3) by (auto simp: user_table_def shaped_def)
  let ?n = "page_number va"
  show ?thesis
  proof (cases "unat va < 2 ^ 39")
    case False
    then have "push_bit 39 1 \<le> va" by (simp add: word_le_nat_alt)
    then have "translate_user L pt va v = Inr None" by (simp add: translate_user_def walk_user_pte_def)
    moreover have "0x7FFFF < ?n" using False by (simp add: page_number_def)
    ultimately show ?thesis using user_space_pages(3) [of va] by simp
  next
    case small: True
    then have n: "?n < 2 ^ 27" by (simp add: page_number_def less_mult_imp_div_less)
    show ?thesis
    proof (cases rule: walk_leaf [OF assms(1) t(2) small])
      case 1
      have "?n \<noteq> 0x7FFFF" using 1(2) l [OF n] user_leaves_user(2) by metis
      moreover have img: "?n \<noteq> 0x40000 + k" if "k < 4" for k
        using 1(2) l [OF n] user_leaves_user(1) [OF that] by metis
      have "\<not> (0x40000 \<le> ?n \<and> ?n < 0x40004)"
        by (auto elim!: nat_window dest: img)
      ultimately show ?thesis using user_space_pages(3) 1(1) t(1) by (simp add: translate_user_def)
    next
      case (2 e)
      have "user_leaves L slot ?n e" using 2(2) l [OF n] by simp
      then show ?thesis
      proof (cases rule: user_leaves_cases)
        case stack
        then show ?thesis
          using 2(1) t(1) user_space_pages(2) [of va] user_page_aligned [OF assms(1,2)]
            leaf_entry_flags(2,3) [of "PTE_R OR PTE_W OR PTE_U" "user_page L slot 4"]
          by (simp add: translate_user_def bit.conj_disj_distrib2) (simp add: PTE_R_def PTE_W_def PTE_U_def)
      next
        case (img k)
        then show ?thesis
          using 2(1) t(1) user_space_pages(1) [of va k] user_page_aligned [OF assms(1,2)]
            leaf_entry_flags(2,3) [of "PTE_R OR PTE_W OR PTE_X OR PTE_U" "user_page L slot k"]
          by (simp add: translate_user_def bit.conj_disj_distrib2) (simp add: PTE_R_def PTE_W_def PTE_X_def PTE_U_def)
      next
        case kernel
        then show ?thesis using 2(1) t(1) user_space_pages(3) by (simp add: translate_user_def)
      qed
    qed
  qed
qed

section \<open>Creating and destroying address spaces\<close>

text \<open>The kernel's own table, once built, is a page in use.\<close>

definition kernel_ok :: "layout \<Rightarrow> vm \<Rightarrow> bool" where
  "kernel_ok L v \<longleftrightarrow> vm_kernel_pt v = 0 \<or> (\<exists>k \<in> used v. vm_kernel_pt v = page_addr L k)"

lemma page_addr_inj:
  "layout_ok L \<Longrightarrow> i < PT_POOL_PAGES \<Longrightarrow> j < PT_POOL_PAGES \<Longrightarrow> page_addr L i = page_addr L j \<Longrightarrow> i = j"
  using page_of_addr by (metis option.inject)

lemma fresh_table:
  assumes "layout_ok L" "vm_ok v"
  obtains (full) "pt_alloc L v = (0, v)" "used v = {..<PT_POOL_PAGES}"
    | (fresh) r v' where "pt_alloc L v = (page_addr L r, v')" "r < PT_POOL_PAGES" "r \<notin> used v"
      "shaped L v' r [r \<mapsto> []]" "grows v Map.empty v' [r \<mapsto> []]" "\<And>m e. \<not> leaf v' [r \<mapsto> []] m e"
proof (cases rule: pt_alloc_cases [OF assms(2), of L])
  case 1
  then show thesis using full by blast
next
  case (2 r)
  let ?v = "v\<lparr>vm_used := (vm_used v)[r := True], vm_pool := (vm_pool v)(r := \<lambda>_. 0)\<rparr>"
  have u: "used ?v = insert r (used v)" using used_set(1) [OF assms(2) 2(1)] .
  have "shaped L ?v r [r \<mapsto> []]"
    using u assms(2) 2(1) by (auto simp: shaped_def tree_def vm_ok_def split: if_splits)
  moreover have "grows v Map.empty ?v [r \<mapsto> []]" using u 2(2) by (auto simp: grows_def)
  moreover have "\<not> leaf ?v [r \<mapsto> []] m e" for m e by (auto simp: leaf_def top_path_def split: if_splits)
  ultimately show thesis using fresh 2 by blast
qed

text \<open>The paths of all pages a user table has, the root's included.\<close>

definition space_paths :: "layout \<Rightarrow> nat list set" where
  "space_paths L = insert [] (kernel_paths L \<union> paths USER_BASE 4 \<union> paths (USER_STACK_TOP - PGSIZE) 1)"

lemma finite_paths: "finite (paths a k)" "finite (space_paths L)"
  by (simp_all add: space_paths_def kernel_paths_def paths_def prefixes_def)

text \<open>
  What the operations do to the pool as a whole. \<open>kept\<close> is failure: the same pages are in use, with their contents;
  \<open>made\<close> is success: the new table consists of the newly used pages.
\<close>

definition kept :: "vm \<Rightarrow> vm \<Rightarrow> bool" where
  "kept v v' \<longleftrightarrow> vm_ok v' \<and> used v' = used v \<and> (\<forall>q \<in> used v. vm_pool v' q = vm_pool v q) \<and> vm_kernel_pt v' = vm_kernel_pt v"

definition made :: "layout \<Rightarrow> nat \<Rightarrow> addr \<Rightarrow> vm \<Rightarrow> vm \<Rightarrow> bool" where
  "made L slot pt v v' \<longleftrightarrow>
     user_table L v' pt slot (used v' - used v) \<and> used v \<subseteq> used v' \<and> vm_ok v' \<and>
     (\<forall>q \<in> used v. vm_pool v' q = vm_pool v q) \<and> vm_kernel_pt v' = vm_kernel_pt v \<and>
     card (used v' - used v) \<le> card (space_paths L)"

lemma shaped_mem: "shaped L (v\<lparr>vm_mem := m\<rparr>) r pos = shaped L v r pos"
  by (simp add: shaped_def tree_def used_def vm_ok_def)

lemma grows_empty:
  assumes "grows v Map.empty v' pos" "vm_ok v'"
  shows "used v' - used v = dom pos" "used v \<subseteq> used v'" "\<And>q. q \<in> used v \<Longrightarrow> vm_pool v' q = vm_pool v q"
  using assms by (auto simp: grows_def)

lemma undo_table:
  assumes "layout_ok L" "grows v Map.empty v1 pos" "shaped L v1 r pos"
  obtains v' where "pt_destroy_level L 2 (page_addr L r) v1 = Inr v'" "kept v v'" "vm_mem v' = vm_mem v1"
proof (rule destroy_table [OF assms(1,3)])
  fix v'
  assume d: "pt_destroy_level L 2 (page_addr L r) v1 = Inr v'" "freed v1 (dom pos) v'"
  have "vm_ok v1" using assms(3) by (simp add: shaped_def)
  note g = grows_empty [OF assms(2) this]
  have "used v' = used v" using g(1,2) d(2) assms(2) by (auto simp: freed_def grows_def)
  then have "kept v v'" using d(2) g(3) assms(2) by (auto simp: kept_def freed_def grows_def)
  then show thesis using that d by (simp add: freed_def)
qed

lemma map_user_cases:
  assumes "layout_ok L" "slot < NPROC" "grows v Map.empty v1 pos" "shaped L v1 r pos" "kernel_ok L v" "vm_ok v"
    and "\<And>m e. m < 2 ^ 27 \<Longrightarrow> leaf v1 pos m e \<longleftrightarrow> kernel_leaves L m e" "ran pos \<subseteq> insert [] (kernel_paths L)"
  obtains (no) v' where "map_user L (page_addr L r) slot v1 = Inr (0, v')" "kept v v'" "vm_mem v' = vm_mem v1"
      "PT_POOL_PAGES \<le> card (used v) + card (space_paths L)"
    | (yes) v' where "map_user L (page_addr L r) slot v1 = Inr (page_addr L r, v')"
      "made L slot (page_addr L r) v v'" "vm_mem v' = vm_mem v1"
proof -
  have t: "tree L v1 r pos" using assms(4) by (simp add: shaped_def)
  have r: "pos r = Some []" "r < PT_POOL_PAGES" using treeD(1) [OF t] treeD(2) [OF t] by blast+
  have nk: "page_addr L r \<noteq> vm_kernel_pt w" if "grows v Map.empty w pos'" for w pos'
  proof
    assume "page_addr L r = vm_kernel_pt w"
    then have "page_addr L r = vm_kernel_pt v" using that by (simp add: grows_def)
    then obtain k where "k \<in> used v" "page_addr L r = page_addr L k"
      using assms(1,5) r(2) by (auto simp: kernel_ok_def)
    moreover have "r \<notin> used v" using assms(3) r(1) by (auto simp: grows_def)
    ultimately show False using page_addr_inj [OF assms(1) r(2)] used_bound [OF assms(6)] by blast
  qed
  have undo: "\<exists>w'. vm_destroy L (page_addr L r) w = Inr w' \<and> kept v w' \<and> vm_mem w' = vm_mem w"
    if "grows v Map.empty w pos'" "shaped L w r pos'" for w pos'
    by (rule undo_table [OF assms(1) that])
      (use nk [OF that(1)] assms(1) r(2) in \<open>simp add: vm_destroy_def\<close>)
  have f: "flags (PTE_R OR PTE_W OR PTE_X OR PTE_U)" "flags (PTE_R OR PTE_W OR PTE_U)" by simp_all
  have b: "unat USER_BASE + 4 * 4096 \<le> 2 ^ 39" "unat (USER_STACK_TOP - PGSIZE) + 1 * 4096 \<le> 2 ^ 39"
    by (simp_all add: layout_defs)
  have c: "page_count USER_BASE (of_nat USER_IMAGE_PAGES * PGSIZE) = 4" "page_count (USER_STACK_TOP - PGSIZE) PGSIZE = 1"
    by (simp_all add: page_count_def layout_defs)
  have n: "page_number (USER_STACK_TOP - PGSIZE) = 0x7FFFF" "page_number USER_BASE = 0x40000"
    by (simp_all add: page_number_def layout_defs)
  have kl: "i < 4 \<Longrightarrow> \<not> kernel_leaves L (0x40000 + i) e" "\<not> kernel_leaves L 0x7FFFF e" for i e
    by (auto simp: kernel_leaves_def mapped_def page_number_def KERNEL_START_def UART0_def)
  note m = map_user_def mappages_def
  show thesis
  proof (cases rule: map_loop_cases [OF assms(1,4) b(1) f(1), of "user_page L slot 0"])
    case (1 v2 pos2)
    have g2: "grows v Map.empty v2 pos2" using grows_trans [OF assms(3) 1(3)] .
    have "\<not> leaf v1 pos (page_number USER_BASE + i) e" if "i < 4" for i e
      using that kl(1) [of i e] assms(7) [of "page_number USER_BASE + i" e] by (simp add: n)
    then have "used v2 = {..<PT_POOL_PAGES}" using 1(5) by blast
    moreover have "ran pos2 \<subseteq> space_paths L" using 1(4) assms(8) by (auto simp: space_paths_def)
    ultimately have "PT_POOL_PAGES \<le> card (used v) + card (space_paths L)"
      using full_bound [OF assms(1) g2 1(2)] finite_paths by blast
    moreover obtain v3 where "vm_destroy L (page_addr L r) v2 = Inr v3" "kept v v3" "vm_mem v3 = vm_mem v2"
      using undo [OF g2 1(2)] by blast
    ultimately show thesis using no 1(1,3) unfolding m c by (simp add: grows_def)
  next
    case (2 v2 pos2)
    note m2 = 2
    have g2: "grows v Map.empty v2 pos2" using grows_trans [OF assms(3) m2(3)] .
    show thesis
    proof (cases rule: map_loop_cases [OF assms(1) m2(2) b(2) f(2), of "user_page L slot 4"])
      case (1 v3 pos3)
      have g3: "grows v Map.empty v3 pos3" using grows_trans [OF g2 1(3)] .
      have "\<not> leaf v2 pos2 (page_number (USER_STACK_TOP - PGSIZE)) e" for e
        using m2(5) [of "0x7FFFF" e] assms(7) [of "0x7FFFF" e] kl(2) by (simp add: n mapped_def)
      then have "used v3 = {..<PT_POOL_PAGES}" using 1(5) by auto
      moreover have "ran pos3 \<subseteq> space_paths L" using 1(4) m2(4) assms(8) by (auto simp: space_paths_def)
      ultimately have "PT_POOL_PAGES \<le> card (used v) + card (space_paths L)"
        using full_bound [OF assms(1) g3 1(2)] finite_paths by blast
      moreover obtain v4 where "vm_destroy L (page_addr L r) v3 = Inr v4" "kept v v4" "vm_mem v4 = vm_mem v3"
        using undo [OF g3 1(2)] by blast
      ultimately show thesis using no m2(1,3) 1(1,3) unfolding m c by (simp add: grows_def)
    next
      case (2 v3 pos3)
      have g3: "grows v Map.empty v3 pos3" using grows_trans [OF g2 2(3)] .
      have ok: "vm_ok v3" using 2(2) by (simp add: shaped_def)
      have "leaf v3 pos3 j e \<longleftrightarrow> user_leaves L slot j e" if j: "j < 2 ^ 27" for j e
        unfolding 2(5) [OF j] user_leaves_def
        by simp (rule mapped_cong, simp only: m2(5) [OF j], rule mapped_cong, simp only: assms(7) [OF j])
      then have "user_table L v3 (page_addr L r) slot (used v3 - used v)"
        unfolding user_table_def grows_empty(1) [OF g3 ok] using 2(2) by blast
      moreover have "card (used v3 - used v) \<le> card (space_paths L)"
      proof -
        have "ran pos3 \<subseteq> space_paths L" using 2(4) m2(4) assms(8) by (auto simp: space_paths_def)
        moreover have "tree L v3 r pos3" using 2(2) by (simp add: shaped_def)
        ultimately show ?thesis
          unfolding grows_empty(1) [OF g3 ok] using table_card(2) [OF assms(1)] finite_paths by blast
      qed
      ultimately have "made L slot (page_addr L r) v v3"
        using grows_empty(2,3) [OF g3 ok] ok g3 by (simp add: made_def grows_def)
      moreover have "map_user L (page_addr L r) slot v1 = Inr (page_addr L r, v3)"
        using m2(1) 2(1) unfolding m c by simp
      ultimately show thesis using yes 2(3) m2(3) by (simp add: grows_def)
    qed
  qed
qed

section \<open>The memory of the slots\<close>

definition slot_memory :: "layout \<Rightarrow> nat \<Rightarrow> addr set" where
  "slot_memory L slot = region (user_page L slot 0) (USER_TOTAL_PAGES * 4096)"

lemma slot_memory_unat:
  assumes "layout_ok L" "slot < NPROC"
  shows "x \<in> slot_memory L slot \<longleftrightarrow>
    unat (lay_user L) + slot * 20480 \<le> unat x \<and> unat x < unat (lay_user L) + slot * 20480 + 20480"
proof -
  let ?b = "unat (lay_user L) + slot * 20480"
  have b: "unat (user_page L slot 0) = ?b" "?b + 20480 < 2 ^ 64"
    using user_page_unat [OF assms, of 0] assms by (auto simp: layout_ok_def)
  have u: "unat (user_page L slot 0 + of_nat i) = ?b + i" if "i < 20480" for i
  proof -
    have "unat (of_nat (?b + i) :: addr) = ?b + i"
      using unat_of_nat [of "?b + i", where ?'a = 64] b(2) that by (simp del: of_nat_add)
    moreover have "user_page L slot 0 + of_nat i = of_nat (?b + i)" by (simp flip: b(1))
    ultimately show ?thesis by simp
  qed
  show ?thesis
  proof
    assume "x \<in> slot_memory L slot"
    then show "?b \<le> unat x \<and> unat x < ?b + 20480" using u by (auto simp: slot_memory_def region_def)
  next
    assume "?b \<le> unat x \<and> unat x < ?b + 20480"
    then obtain i where i: "unat x = ?b + i" "i < ?b + 20480 - ?b" using nat_window by metis
    then have "unat (user_page L slot 0 + of_nat i) = unat x" using u [of i] by simp
    then have "x = user_page L slot 0 + of_nat i" by (simp add: word_unat_eq_iff)
    then show "x \<in> slot_memory L slot" using i(2) unfolding slot_memory_def region_def by fastforce
  qed
qed

lemma slot_memory_disjoint:
  assumes "layout_ok L" "s < NPROC" "s' < NPROC" "s \<noteq> s'"
  shows "slot_memory L s \<inter> slot_memory L s' = {}"
proof -
  have "s < s' \<or> s' < s" using assms(4) by auto
  then show ?thesis
    using slot_memory_unat [OF assms(1,2)] slot_memory_unat [OF assms(1,3)] by auto
qed

lemma user_space_cases:
  assumes "user_space L slot va = Some pa"
  obtains k where "k < 5" "pa = user_page L slot k + (va AND (PGSIZE - 1))"
proof (cases rule: user_page_cases [of va])
  case stack
  then show thesis using that [of 4] assms user_space_pages(2) [of va L slot] by simp
next
  case (img k)
  then show thesis using that [of k] assms user_space_pages(1) [of va k L slot] by simp
next
  case other
  then show thesis using assms user_space_pages(3) [of va L slot] by simp
qed

lemma user_space_region:
  assumes "user_space L slot va = Some pa" "k \<le> page_rest va"
  shows "region pa k \<subseteq> slot_memory L slot"
proof
  fix x
  assume "x \<in> region pa k"
  then obtain i where i: "i < k" "x = pa + of_nat i" by (auto simp: region_def)
  obtain j where j: "j < 5" "pa = user_page L slot j + (va AND (PGSIZE - 1))"
    by (rule user_space_cases [OF assms(1)])
  let ?o = "j * 4096 + unat va mod 4096 + i"
  have "x = user_page L slot 0 + of_nat ?o"
    using i j(2) user_page_plus [of L slot j, symmetric]
    by (simp add: PGSIZE_def flip: and_4095)
  moreover have "?o < 20480" using j(1) i(1) assms(2) by (simp add: page_rest_eq)
  ultimately show "x \<in> slot_memory L slot" unfolding slot_memory_def region_def by fastforce
qed

lemma write_image_outside: "x \<notin> region d (length img) \<Longrightarrow> write_image d img m x = m x"
proof -
  have "fold (\<lambda>i m. m(d + of_nat i := img ! i)) [0..<n] m x = m x" if "x \<notin> region d n" for n
    using that by (induction n) (auto simp: region_Suc)
  then show "x \<notin> region d (length img) \<Longrightarrow> write_image d img m x = m x" by (simp add: write_image_def)
qed

lemma write_image_inside:
  assumes "i < length img" "length img \<le> 2 ^ 64"
  shows "write_image d img m (d + of_nat i) = img ! i"
proof -
  have "fold (\<lambda>i m. m(d + of_nat i := img ! i)) [0..<n] m (d + of_nat i) = img ! i" if "i < n" "n \<le> length img" for n
    using that
  proof (induction n)
    case (Suc n)
    then show ?case using add_of_nat_eq [of d i n] assms by (cases "i = n") auto
  qed simp
  then show ?thesis using assms by (simp add: write_image_def)
qed

end
