(* ===== verification/Nano_Isolation.thy ===== *)
theory Nano_Isolation
  imports Nano_Spaces
begin

text \<open>
  Isolation of the processes of NanoBoot: the address spaces as a state machine whose steps are the
  operations of \<^verbatim>\<open>kernel/vm.c\<close>, its invariant, and what it means for the memory a process sees.
\<close>

section \<open>Creating and cloning\<close>

lemma leaf_mem: "leaf (v\<lparr>vm_mem := m\<rparr>) pos = leaf v pos"
  by (simp add: leaf_def fun_eq_iff)

lemma grows_kept_mem:
  "kept v (w\<lparr>vm_mem := m\<rparr>) = kept v w" "grows v Map.empty w pos \<Longrightarrow> grows (v\<lparr>vm_mem := m\<rparr>) Map.empty (w\<lparr>vm_mem := m\<rparr>) pos"
  by (simp_all add: kept_def vm_ok_def used_def grows_def)

lemma ok_mem: "vm_ok (v\<lparr>vm_mem := m\<rparr>) = vm_ok v" "kernel_ok L (v\<lparr>vm_mem := m\<rparr>) = kernel_ok L v"
  "used (v\<lparr>vm_mem := m\<rparr>) = used v"
  by (simp_all add: vm_ok_def kernel_ok_def used_def)

lemma kept_made_mem:
  "kept (v\<lparr>vm_mem := m\<rparr>) w = kept v w" "made L s pt (v\<lparr>vm_mem := m\<rparr>) w = made L s pt v w"
  by (simp_all add: kept_def made_def used_def)

text \<open>
  The common form of the two: allocate, map the kernel, change the memory of the slot by \<open>g\<close>, map the slot.
\<close>

definition build_space :: "layout \<Rightarrow> nat \<Rightarrow> (memory \<Rightarrow> memory) \<Rightarrow> vm \<Rightarrow> (addr \<times> vm) res" where
  "build_space L slot g v =
     (case pt_alloc L v of (pt, v1) \<Rightarrow>
        if pt = 0 then Inr (0, v1)
        else (case kernel_map L pt v1 of
            Inl f \<Rightarrow> Inl f
          | Inr (rc, v2) \<Rightarrow>
              if rc < 0 then (case pt_destroy_level L 2 pt v2 of Inl f \<Rightarrow> Inl f | Inr v3 \<Rightarrow> Inr (0, v3))
              else map_user L pt slot (v2\<lparr>vm_mem := g (vm_mem v2)\<rparr>)))"

lemma create_is_build:
  "s < NPROC \<Longrightarrow> vm_create_user L img (int s) v =
     build_space L s (\<lambda>m. write_image (user_page L s 0) (take (USER_IMAGE_PAGES * 4096) img)
       (memset (user_page L s 0) 0 (USER_TOTAL_PAGES * 4096) m)) v"
  unfolding vm_create_user_def build_space_def Let_def nat_int by simp

lemma clone_is_build:
  "d < NPROC \<Longrightarrow> s < NPROC \<Longrightarrow> vm_clone_user L (int d) (int s) v =
     build_space L d (memcpy (user_page L d 0) (user_page L s 0) (USER_TOTAL_PAGES * 4096)) v"
  unfolding vm_clone_user_def build_space_def Let_def nat_int by simp

lemma build_space_cases:
  assumes "layout_ok L" "slot < NPROC" "vm_ok v" "kernel_ok L v"
  obtains (no) v' where "build_space L slot g v = Inr (0, v')" "kept v v'" "vm_mem v' = vm_mem v \<or> vm_mem v' = g (vm_mem v)"
      "PT_POOL_PAGES \<le> card (used v) + card (space_paths L)"
    | (yes) pt v' where "build_space L slot g v = Inr (pt, v')" "pt \<noteq> 0" "made L slot pt v v'" "vm_mem v' = g (vm_mem v)"
proof (cases rule: fresh_table [OF assms(1,3)])
  case 1
  moreover have "kept v v" using assms(3) by (simp add: kept_def)
  ultimately show thesis using no [of v] by (simp add: build_space_def)
next
  case (2 r v1)
  have nz: "page_addr L r \<noteq> 0" using assms(1) 2(2) by simp
  have m1: "vm_mem v1 = vm_mem v" using 2(5) by (simp add: grows_def)
  show thesis
  proof (cases rule: kernel_map_cases [OF assms(1) 2(4) 2(6)])
    case (1 v2 pos2)
    have g: "grows v Map.empty v2 pos2" using grows_trans [OF 2(5) 1(3)] .
    have "ran pos2 \<subseteq> space_paths L" using 1(4) by (auto simp: space_paths_def)
    then have "PT_POOL_PAGES \<le> card (used v) + card (space_paths L)"
      using full_bound [OF assms(1) g 1(2) _ _ 1(5)] finite_paths by blast
    moreover obtain v3 where "pt_destroy_level L 2 (page_addr L r) v2 = Inr v3" "kept v v3" "vm_mem v3 = vm_mem v2"
      by (rule undo_table [OF assms(1) g 1(2)])
    ultimately show thesis using no [of v3] 2(1) 1(1,3) nz m1 by (simp add: build_space_def grows_def)
  next
    case k: (2 v2 pos2)
    let ?m = "g (vm_mem v2)"
    have g: "grows v Map.empty v2 pos2" using grows_trans [OF 2(5) k(3)] .
    have gm: "grows (v\<lparr>vm_mem := ?m\<rparr>) Map.empty (v2\<lparr>vm_mem := ?m\<rparr>) pos2" using grows_kept_mem(2) [OF g] .
    have sh: "shaped L (v2\<lparr>vm_mem := ?m\<rparr>) r pos2" using k(2) by (simp add: shaped_mem)
    have ok: "kernel_ok L (v\<lparr>vm_mem := ?m\<rparr>)" "vm_ok (v\<lparr>vm_mem := ?m\<rparr>)" using assms(3,4) by (simp_all add: ok_mem)
    have lv: "leaf (v2\<lparr>vm_mem := ?m\<rparr>) pos2 m e \<longleftrightarrow> kernel_leaves L m e" if "m < 2 ^ 27" for m e
      using k(5) [OF that] by (simp add: leaf_mem)
    have rn: "ran pos2 \<subseteq> insert [] (kernel_paths L)" using k(4) by auto
    have mem: "vm_mem v2 = vm_mem v" using g by (simp add: grows_def)
    have b: "build_space L slot g v = map_user L (page_addr L r) slot (v2\<lparr>vm_mem := ?m\<rparr>)"
      using 2(1) k(1) nz by (simp add: build_space_def)
    show thesis
      by (cases rule: map_user_cases [OF assms(1,2) gm sh ok lv rn])
        (use no yes b nz mem in \<open>auto simp: kept_made_mem ok_mem\<close>)
  qed
qed

text \<open>Both change the memory of their own slot only.\<close>

lemma user_base_region: "n \<le> 20480 \<Longrightarrow> region (user_page L s 0) n \<subseteq> slot_memory L s"
  unfolding slot_memory_def by (intro region_mono) simp

lemma create_memory:
  assumes "x \<notin> slot_memory L s"
  shows "write_image (user_page L s 0) (take (USER_IMAGE_PAGES * 4096) img)
      (memset (user_page L s 0) 0 (USER_TOTAL_PAGES * 4096) m) x = m x"
proof -
  have "x \<notin> region (user_page L s 0) (length (take (USER_IMAGE_PAGES * 4096) img))"
    using assms user_base_region [of "min (length img) 16384" L s] by (auto simp: min_def split: if_splits)
  then show ?thesis using assms by (simp add: write_image_outside memset_outside slot_memory_def)
qed

lemma clone_memory:
  assumes "x \<notin> slot_memory L d"
  shows "memcpy (user_page L d 0) s (USER_TOTAL_PAGES * 4096) m x = m x"
  using assms by (simp add: memcpy_outside slot_memory_def)

section \<open>The copies\<close>

lemma user_table_mem: "user_table L (v\<lparr>vm_mem := m\<rparr>) pt slot D = user_table L v pt slot D"
  by (simp add: user_table_def shaped_mem leaf_mem)

text \<open>What two states share that differ in the memory of one slot only.\<close>

definition slot_write :: "layout \<Rightarrow> nat \<Rightarrow> vm \<Rightarrow> vm \<Rightarrow> bool" where
  "slot_write L slot v v' \<longleftrightarrow>
     (\<exists>m. v' = v\<lparr>vm_mem := m\<rparr> \<and> (\<forall>x. x \<notin> slot_memory L slot \<longrightarrow> m x = vm_mem v x))"

lemma slot_write_refl: "slot_write L slot v v"
  unfolding slot_write_def by (rule exI [of _ "vm_mem v"]) simp

lemma slot_write_trans: "slot_write L slot v v1 \<Longrightarrow> slot_write L slot v1 v2 \<Longrightarrow> slot_write L slot v v2"
  by (auto simp: slot_write_def)

lemma copyout_writes:
  assumes "layout_ok L" "slot < NPROC" "user_table L v pt slot D"
  shows "\<exists>rc v'. copyout L pt va src v = Inr (rc, v') \<and> slot_write L slot v v'"
  using assms(3)
proof (induction "length src" arbitrary: va src v rule: less_induct)
  case less
  show ?case
  proof (cases "src = []")
    case True
    then show ?thesis using slot_write_refl by (simp add: copyout.simps [of L])
  next
    case False
    have t: "translate_user L pt va v = Inr (user_space L slot va)"
      using translate_user_table [OF assms(1,2) less.prems] .
    show ?thesis
    proof (cases "user_space L slot va")
      case None
      then show ?thesis using False t slot_write_refl by (simp add: copyout.simps [of L])
    next
      case (Some pa)
      let ?k = "min (length src) (page_rest va)"
      let ?m = "write_image pa (take ?k src) (vm_mem v)"
      have "?m x = vm_mem v x" if "x \<notin> slot_memory L slot" for x
        using user_space_region [OF Some, of ?k] that by (intro write_image_outside) auto
      then have w: "slot_write L slot v (v\<lparr>vm_mem := ?m\<rparr>)" unfolding slot_write_def by blast
      obtain rc v' where "copyout L pt (va + of_nat ?k) (drop ?k src) (v\<lparr>vm_mem := ?m\<rparr>) = Inr (rc, v')"
        "slot_write L slot (v\<lparr>vm_mem := ?m\<rparr>) v'"
        using less.hyps [of "drop ?k src" "v\<lparr>vm_mem := ?m\<rparr>" "va + of_nat ?k"] less.prems False
        by (auto simp: user_table_mem)
      then show ?thesis using False t Some w slot_write_trans by (auto simp: copyout.simps [of L pt va src] Let_def)
    qed
  qed
qed

text \<open>Within a page, translation is addition.\<close>

lemma unat_in_page:
  assumes "i < page_rest va"
  shows "unat (va + of_nat i) = unat va + i"
proof -
  have "unat va mod 4096 + i < 4096" using assms by (simp add: page_rest_eq)
  moreover have "unat va div 4096 < 4503599627370496"
    using unsigned_less [of va, where ?'a = nat] by (simp add: less_mult_imp_div_less)
  moreover have "unat va = unat va div 4096 * 4096 + unat va mod 4096" by simp
  ultimately have "unat va + i < 18446744073709551616" by linarith
  moreover have "va + of_nat i = of_nat (unat va + i)" by simp
  ultimately show ?thesis using unat_of_nat [of "unat va + i", where ?'a = 64] by (simp del: of_nat_add)
qed

lemma user_space_step:
  assumes "user_space L slot va = Some pa" "i < page_rest va"
  shows "user_space L slot (va + of_nat i) = Some (pa + of_nat i)"
proof -
  let ?w = "va + of_nat i"
  have lt: "unat va mod 4096 + i < 4096" using assms(2) by (simp add: page_rest_eq)
  have u: "unat ?w = unat va + i" using unat_in_page [OF assms(2)] .
  have "unat va + i = unat va div 4096 * 4096 + (unat va mod 4096 + i)" by simp
  then have d: "(unat va + i) div 4096 = unat va div 4096" "(unat va + i) mod 4096 = unat va mod 4096 + i"
    using lt by (metis div_mult_self3 div_less add.right_neutral zero_neq_numeral,
        metis mod_mult_self3 mod_less)
  have n: "page_number ?w = page_number va" using d(1) u by (simp add: page_number_def)
  have "of_nat (unat (?w AND 4095)) = (of_nat (unat (va AND 4095) + i) :: addr)"
    unfolding and_4095 u d(2) ..
  then have a: "?w AND (PGSIZE - 1) = (va AND (PGSIZE - 1)) + of_nat i" by (simp add: PGSIZE_def)
  show ?thesis
  proof (cases rule: user_page_cases [of va])
    case stack
    then show ?thesis
      using assms(1) user_space_pages(2) [of va L slot] user_space_pages(2) [of ?w L slot] n a by (simp add: add.assoc)
  next
    case (img k)
    then show ?thesis
      using assms(1) user_space_pages(1) [of va k L slot] user_space_pages(1) [of ?w k L slot] n a by (simp add: add.assoc)
  next
    case other
    then show ?thesis using assms(1) user_space_pages(3) [of va L slot] by simp
  qed
qed

text \<open>The bytes of a process from an address on, if all of them are its own.\<close>

definition user_bytes :: "layout \<Rightarrow> nat \<Rightarrow> memory \<Rightarrow> addr \<Rightarrow> nat \<Rightarrow> 8 word list option" where
  "user_bytes L slot m va n =
     (if \<forall>i < n. user_space L slot (va + of_nat i) \<noteq> None
      then Some (map (\<lambda>i. m (the (user_space L slot (va + of_nat i)))) [0..<n]) else None)"

lemma user_bytes_split:
  assumes "user_space L slot va = Some pa" "k \<le> page_rest va" "k \<le> n"
  shows "user_bytes L slot m va n =
    map_option ((@) (map (\<lambda>i. m (pa + of_nat i)) [0..<k])) (user_bytes L slot m (va + of_nat k) (n - k))"
proof -
  have first: "user_space L slot (va + of_nat i) = Some (pa + of_nat i)" if "i < k" for i
    using user_space_step [OF assms(1)] that assms(2) by simp
  have shift: "va + of_nat k + of_nat i = va + of_nat (k + i)" for i by (simp add: add.assoc)
  have all: "(\<forall>i < n. user_space L slot (va + of_nat i) \<noteq> None) \<longleftrightarrow>
      (\<forall>i < n - k. user_space L slot (va + of_nat (k + i)) \<noteq> None)"
  proof (intro iffI allI impI)
    fix i
    assume a: "\<forall>i < n. user_space L slot (va + of_nat i) \<noteq> None" "i < n - k"
    have "k + i < n" using a(2) assms(3) by simp
    then show "user_space L slot (va + of_nat (k + i)) \<noteq> None" using a(1) by blast
  next
    fix i
    assume a: "\<forall>i < n - k. user_space L slot (va + of_nat (k + i)) \<noteq> None" "i < n"
    show "user_space L slot (va + of_nat i) \<noteq> None"
    proof (cases "i < k")
      case True
      then show ?thesis using first by simp
    next
      case False
      then obtain j where j: "i = k + j" using le_Suc_ex [of k i] by auto
      then have "j < n - k" using a(2) by simp
      then show ?thesis using a(1) j by blast
    qed
  qed
  have "[0..<n] = [0..<k] @ map ((+) k) [0..<n - k]"
    using assms(3) by (intro nth_equalityI) (auto simp: nth_append)
  then show ?thesis using first unfolding user_bytes_def shift all by (simp add: comp_def)
qed

lemma copyin_user_bytes:
  assumes "layout_ok L" "slot < NPROC" "user_table L v pt slot D"
  shows "copyin L pt va n v = Inr (user_bytes L slot (vm_mem v) va n)"
proof (induction n arbitrary: va rule: less_induct)
  case (less n)
  have t: "translate_user L pt va v = Inr (user_space L slot va)" using translate_user_table [OF assms] .
  show ?case
  proof (cases "n = 0")
    case True
    then show ?thesis by (simp add: copyin.simps user_bytes_def)
  next
    case False
    show ?thesis
    proof (cases "user_space L slot va")
      case None
      then have "user_bytes L slot (vm_mem v) va n = None"
        using False unfolding user_bytes_def by (auto intro: exI [of _ 0])
      then show ?thesis using None False t by (simp add: copyin.simps)
    next
      case (Some pa)
      let ?k = "min n (page_rest va)"
      have "copyin L pt (va + of_nat ?k) (n - ?k) v = Inr (user_bytes L slot (vm_mem v) (va + of_nat ?k) (n - ?k))"
        using less [of "n - ?k" "va + of_nat ?k"] False by simp
      then show ?thesis
        using False t Some user_bytes_split [OF Some, of ?k n "vm_mem v"]
        by (simp add: copyin.simps [of L pt va] Let_def split: option.splits)
    qed
  qed
qed

text \<open>The page of the image or of the stack an address lies in determines it: translation is injective.\<close>

lemma user_space_inj:
  assumes "layout_ok L" "slot < NPROC" "user_space L slot a = Some pa" "user_space L slot b = Some pa"
  shows "a = b"
proof -
  have key: "\<exists>k < 5. page_number x = (if k = 4 then 0x7FFFF else 0x40000 + k) \<and>
      unat pa = unat (lay_user L) + (slot * 5 + k) * 4096 + unat x mod 4096" if "user_space L slot x = Some pa" for x
  proof -
    have some: "\<exists>k < 5. page_number x = (if k = 4 then 0x7FFFF else 0x40000 + k) \<and> pa = user_page L slot k + (x AND (PGSIZE - 1))"
    proof (cases rule: user_page_cases [of x])
      case stack
      then show ?thesis using that user_space_pages(2) [of x L slot] by (intro exI [of _ 4]) simp
    next
      case (img k)
      then show ?thesis using that user_space_pages(1) [of x k L slot] by (intro exI [of _ k]) simp
    next
      case other
      then show ?thesis using that user_space_pages(3) [of x L slot] by simp
    qed
    then obtain k where k: "k < 5" "page_number x = (if k = 4 then 0x7FFFF else 0x40000 + k)"
      "pa = user_page L slot k + (x AND (PGSIZE - 1))" by blast
    have u: "unat (user_page L slot k) = unat (lay_user L) + (slot * 5 + k) * 4096"
      using user_page_unat [OF assms(1,2) k(1)] .
    have "unat (user_page L slot k) + 4096 < 2 ^ 64"
      unfolding u using assms(1,2) k(1) by (simp add: layout_ok_def)
    moreover have "unat (x AND 4095) < 4096" by (simp add: and_4095)
    ultimately have "unat pa = unat (user_page L slot k) + unat (x AND 4095)"
      unfolding k(3) PGSIZE_def using unat_word_ariths(1) [of "user_page L slot k" "x AND 4095"] by simp
    then show ?thesis using k(1,2) u by (auto simp: and_4095)
  qed
  obtain i where i: "i < 5" "page_number a = (if i = 4 then 0x7FFFF else 0x40000 + i)"
    "unat pa = unat (lay_user L) + (slot * 5 + i) * 4096 + unat a mod 4096" using key [OF assms(3)] by blast
  obtain j where j: "j < 5" "page_number b = (if j = 4 then 0x7FFFF else 0x40000 + j)"
    "unat pa = unat (lay_user L) + (slot * 5 + j) * 4096 + unat b mod 4096" using key [OF assms(4)] by blast
  have "i * 4096 + unat a mod 4096 = j * 4096 + unat b mod 4096" using i(3) j(3) by simp
  then have "(i * 4096 + unat a mod 4096) div 4096 = (j * 4096 + unat b mod 4096) div 4096"
    "(i * 4096 + unat a mod 4096) mod 4096 = (j * 4096 + unat b mod 4096) mod 4096" by simp_all
  then have "i = j" "unat a mod 4096 = unat b mod 4096" by simp_all
  then have "unat a div 4096 = unat b div 4096" "unat a mod 4096 = unat b mod 4096"
    using i(2) j(2) by (simp_all add: page_number_def)
  then show ?thesis by (metis div_mult_mod_eq word_unat_eq_iff)
qed

text \<open>Copying out byte by byte, with a translation for each.\<close>

fun byte_out :: "layout \<Rightarrow> nat \<Rightarrow> addr \<Rightarrow> 8 word list \<Rightarrow> memory \<Rightarrow> int \<times> memory" where
  "byte_out L slot va [] m = (0, m)"
| "byte_out L slot va (b # bs) m =
     (case user_space L slot va of None \<Rightarrow> (-1, m) | Some pa \<Rightarrow> byte_out L slot (va + 1) bs (m(pa := b)))"

lemma write_image_snoc: "write_image d (xs @ [x]) m = (write_image d xs m)(d + of_nat (length xs) := x)"
proof -
  have "fold (\<lambda>i m. m(d + of_nat i := (xs @ [x]) ! i)) [0..<length xs] m =
      fold (\<lambda>i m. m(d + of_nat i := xs ! i)) [0..<length xs] m"
    by (rule fold_cong) (auto simp: nth_append)
  then show ?thesis by (simp add: write_image_def nth_append)
qed

lemma byte_out_page:
  assumes "user_space L slot va = Some pa" "length xs \<le> page_rest va"
  shows "byte_out L slot va (xs @ ys) m = byte_out L slot (va + of_nat (length xs)) ys (write_image pa xs m)"
  using assms(2)
proof (induction xs arbitrary: ys rule: rev_induct)
  case Nil
  then show ?case by (simp add: write_image_def)
next
  case (snoc x xs)
  then have "user_space L slot (va + of_nat (length xs)) = Some (pa + of_nat (length xs))"
    using user_space_step [OF assms(1)] by simp
  moreover have "va + of_nat (length (xs @ [x])) = va + of_nat (length xs) + 1" by simp
  moreover have "byte_out L slot va (xs @ x # ys) m = byte_out L slot (va + of_nat (length xs)) (x # ys) (write_image pa xs m)"
    using snoc.IH [of "x # ys"] snoc.prems by simp
  ultimately show ?case unfolding write_image_snoc by (simp add: ac_simps del: fun_upd_apply)
qed

lemma copyout_byte_out:
  assumes "layout_ok L" "slot < NPROC" "user_table L v pt slot D"
  shows "copyout L pt va src v = Inr (case byte_out L slot va src (vm_mem v) of (rc, m) \<Rightarrow> (rc, v\<lparr>vm_mem := m\<rparr>))"
  using assms(3)
proof (induction "length src" arbitrary: va src v rule: less_induct)
  case less
  have t: "translate_user L pt va v = Inr (user_space L slot va)"
    using translate_user_table [OF assms(1,2) less.prems] .
  show ?case
  proof (cases src)
    case Nil
    then show ?thesis by (simp add: copyout.simps)
  next
    case (Cons b bs)
    then have ne: "src \<noteq> []" by simp
    show ?thesis
    proof (cases "user_space L slot va")
      case None
      then show ?thesis using Cons t by (simp add: copyout.simps)
    next
      case (Some pa)
      let ?k = "min (length src) (page_rest va)"
      let ?w = "v\<lparr>vm_mem := write_image pa (take ?k src) (vm_mem v)\<rparr>"
      have "copyout L pt va src v = copyout L pt (va + of_nat ?k) (drop ?k src) ?w"
        using ne Some t by (simp add: copyout.simps [of L pt va src] Let_def)
      also have "\<dots> = Inr (case byte_out L slot (va + of_nat ?k) (drop ?k src) (vm_mem ?w) of (rc, m) \<Rightarrow> (rc, ?w\<lparr>vm_mem := m\<rparr>))"
        using less.prems ne by (intro less.hyps) (auto simp: user_table_mem)
      also have "byte_out L slot (va + of_nat ?k) (drop ?k src) (vm_mem ?w) = byte_out L slot va src (vm_mem v)"
        using byte_out_page [OF Some, of "take ?k src" "drop ?k src" "vm_mem v"] by (simp add: min.absorb1)
      finally show ?thesis by (simp split: prod.splits)
    qed
  qed
qed

lemma byte_out_other:
  "byte_out L slot va src m = (rc, m') \<Longrightarrow> \<forall>i < length src. user_space L slot (va + of_nat i) \<noteq> Some pa \<Longrightarrow> m' pa = m pa"
proof (induction src arbitrary: va m)
  case (Cons b bs)
  have "user_space L slot va \<noteq> Some pa" using Cons.prems(2) by (auto dest: spec [of _ 0])
  moreover have "\<forall>i < length bs. user_space L slot (va + 1 + of_nat i) \<noteq> Some pa"
  proof (intro allI impI)
    fix i
    assume "i < length bs"
    then show "user_space L slot (va + 1 + of_nat i) \<noteq> Some pa"
      using spec [OF Cons.prems(2), of "Suc i"] by (simp add: add.assoc)
  qed
  ultimately show ?case using Cons.IH [of "va + 1"] Cons.prems(1) by (auto split: option.splits)
qed simp

lemma byte_out_read_back:
  assumes "layout_ok L" "slot < NPROC"
  shows "byte_out L slot va src m = (0, m') \<Longrightarrow> length src < 2 ^ 64 \<Longrightarrow> user_bytes L slot m' va (length src) = Some src"
proof (induction src arbitrary: va m)
  case Nil
  then show ?case by (simp add: user_bytes_def)
next
  case (Cons b bs)
  obtain pa where pa: "user_space L slot va = Some pa" "byte_out L slot (va + 1) bs (m(pa := b)) = (0, m')"
    using Cons.prems(1) by (auto split: option.splits)
  have "user_space L slot (va + 1 + of_nat i) \<noteq> Some pa" if "i < length bs" for i
  proof
    assume "user_space L slot (va + 1 + of_nat i) = Some pa"
    then have "va = va + 1 + of_nat i" by (rule user_space_inj [OF assms pa(1)])
    then have "0 + of_nat (Suc i) = (0 + of_nat 0 :: addr)" by (simp add: add.assoc)
    then show False using add_of_nat_eq [of 0 "Suc i" 0] that Cons.prems(2) by simp
  qed
  then have "m' pa = b" using byte_out_other [OF pa(2), of pa] by simp
  moreover have "user_bytes L slot m' (va + 1) (length bs) = Some bs"
    using Cons.IH [OF pa(2)] Cons.prems(2) by simp
  ultimately show ?case using user_bytes_split [OF pa(1), of 1 "length (b # bs)" m'] by (simp add: Suc_le_eq)
qed

section \<open>The address spaces as a state machine\<close>

text \<open>
  The state is the virtual memory and the live user tables with their slots. A space is created or
  cloned for a slot that has none (\<^verbatim>\<open>proc.c\<close> uses the index of a free process), destroyed, or written by
  \<^verbatim>\<open>copyout\<close>; the kernel's own table is made when it is first needed. The label of a step is the slot whose
  memory it writes.
\<close>

type_synonym spaces = "addr \<rightharpoonup> nat"

definition add_space :: "addr \<Rightarrow> nat \<Rightarrow> spaces \<Rightarrow> spaces" where
  "add_space pt s T = (if pt = 0 then T else T(pt \<mapsto> s))"

inductive vm_step :: "layout \<Rightarrow> nat option \<Rightarrow> vm \<times> spaces \<Rightarrow> vm \<times> spaces \<Rightarrow> bool" for L where
  create: "s < NPROC \<Longrightarrow> s \<notin> ran T \<Longrightarrow> vm_create_user L img (int s) v = Inr (pt, v') \<Longrightarrow>
    vm_step L (Some s) (v, T) (v', add_space pt s T)"
| clone: "d < NPROC \<Longrightarrow> d \<notin> ran T \<Longrightarrow> s < NPROC \<Longrightarrow> vm_clone_user L (int d) (int s) v = Inr (pt, v') \<Longrightarrow>
    vm_step L (Some d) (v, T) (v', add_space pt d T)"
| destroy: "T pt = Some s \<Longrightarrow> vm_destroy L pt v = Inr v' \<Longrightarrow> vm_step L None (v, T) (v', T(pt := None))"
| store: "T pt = Some s \<Longrightarrow> copyout L pt va bs v = Inr (rc, v') \<Longrightarrow> vm_step L (Some s) (v, T) (v', T)"
| kernel: "kernel_pagetable L v = Inr (pt, v') \<Longrightarrow> vm_step L None (v, T) (v', T)"

inductive vm_reachable :: "layout \<Rightarrow> vm \<times> spaces \<Rightarrow> bool" for L where
  init: "vm_reachable L (vm_init v, Map.empty)"
| step: "vm_reachable L st \<Longrightarrow> vm_step L l st st' \<Longrightarrow> vm_reachable L st'"

definition spaces_ok :: "layout \<Rightarrow> vm \<Rightarrow> spaces \<Rightarrow> (addr \<Rightarrow> nat set) \<Rightarrow> bool" where
  "spaces_ok L v T D \<longleftrightarrow>
     vm_ok v \<and> kernel_ok L v \<and> finite (dom T) \<and>
     (\<forall>pt s. T pt = Some s \<longrightarrow> s < NPROC \<and> user_table L v pt s (D pt)) \<and>
     (\<forall>pt pt'. pt \<in> dom T \<longrightarrow> pt' \<in> dom T \<longrightarrow> pt \<noteq> pt' \<longrightarrow> D pt \<inter> D pt' = {} \<and> T pt \<noteq> T pt') \<and>
     (\<forall>pt k. pt \<in> dom T \<longrightarrow> k < PT_POOL_PAGES \<longrightarrow> vm_kernel_pt v = page_addr L k \<longrightarrow> k \<notin> D pt)"

definition vm_inv :: "layout \<Rightarrow> vm \<times> spaces \<Rightarrow> bool" where
  "vm_inv L = (\<lambda>(v, T). \<exists>D. spaces_ok L v T D)"

lemma user_table_frame:
  assumes "user_table L v pt s D" "\<forall>q \<in> D. vm_pool v' q = vm_pool v q" "D \<subseteq> used v'" "vm_ok v'"
  shows "user_table L v' pt s D"
proof -
  obtain r pos where t: "pt = page_addr L r" "tree L v r pos" "D = dom pos"
    and l: "\<forall>m < 2 ^ 27. \<forall>e. leaf v pos m e \<longleftrightarrow> user_leaves L s m e"
    using assms(1) by (auto simp: user_table_def shaped_def)
  have same: "vm_pool v' q = vm_pool v q" if "pos q = Some path" for q path using assms(2) t(3) that by auto
  have "leaf v' pos = leaf v pos" using same unfolding leaf_def fun_eq_iff by metis
  moreover have "tree L v' r pos" using t(2) same by (rule tree_cong) auto
  ultimately show ?thesis
    unfolding user_table_def shaped_def using t assms(3,4) l by metis
qed

lemma user_table_used: "user_table L v pt s D \<Longrightarrow> D \<subseteq> used v"
  by (auto simp: user_table_def shaped_def)

lemma user_table_root:
  assumes "layout_ok L" "user_table L v pt s D"
  obtains r where "pt = page_addr L r" "r \<in> D" "r < PT_POOL_PAGES"
  using assms treeD(1,2) by (fastforce simp: user_table_def shaped_def)

lemma spaces_ok_frame:
  assumes "spaces_ok L v T D" "T' \<subseteq>\<^sub>m T" "vm_ok v'" "kernel_ok L v'"
    and "\<And>pt. pt \<in> dom T' \<Longrightarrow> D pt \<subseteq> used v' \<and> (\<forall>q \<in> D pt. vm_pool v' q = vm_pool v q)"
    and "\<And>pt k. pt \<in> dom T' \<Longrightarrow> k < PT_POOL_PAGES \<Longrightarrow> vm_kernel_pt v' = page_addr L k \<Longrightarrow> k \<notin> D pt"
  shows "spaces_ok L v' T' D"
proof -
  have sub: "T' pt = Some s \<Longrightarrow> T pt = Some s" for pt s using assms(2) by (force simp: map_le_def)
  have "s < NPROC \<and> user_table L v' pt s (D pt)" if "T' pt = Some s" for pt s
  proof -
    have "s < NPROC" and t: "user_table L v pt s (D pt)" using assms(1) sub [OF that] by (simp_all add: spaces_ok_def)
    then show ?thesis using user_table_frame [OF t _ _ assms(3)] assms(5) [of pt] that by blast
  qed
  moreover have "D pt \<inter> D pt' = {} \<and> T' pt \<noteq> T' pt'" if "pt \<in> dom T'" "pt' \<in> dom T'" "pt \<noteq> pt'" for pt pt'
  proof -
    have "pt \<in> dom T" "pt' \<in> dom T" using that sub by blast+
    moreover have e: "T' pt = T pt" "T' pt' = T pt'" using that sub by force+
    ultimately show ?thesis using assms(1) that(3) unfolding spaces_ok_def e by blast
  qed
  moreover have "finite (dom T')"
    using assms(1) map_le_implies_dom_le [OF assms(2)] finite_subset by (auto simp: spaces_ok_def)
  ultimately show ?thesis using assms(3,4,6) unfolding spaces_ok_def by blast
qed

lemma spaces_ok_used: "spaces_ok L v T D \<Longrightarrow> pt \<in> dom T \<Longrightarrow> D pt \<subseteq> used v"
  using user_table_used by (fastforce simp: spaces_ok_def)

lemma spaces_ok_keeps:
  assumes "spaces_ok L v T D" "vm_ok v'" "used v \<subseteq> used v'" "\<forall>q \<in> used v. vm_pool v' q = vm_pool v q"
    and "vm_kernel_pt v' = vm_kernel_pt v"
  shows "spaces_ok L v' T D"
proof (rule spaces_ok_frame [OF assms(1) map_le_refl assms(2)])
  show "kernel_ok L v'" using assms by (auto simp: spaces_ok_def kernel_ok_def)
  show "D pt \<subseteq> used v' \<and> (\<forall>q \<in> D pt. vm_pool v' q = vm_pool v q)" if "pt \<in> dom T" for pt
    using spaces_ok_used [OF assms(1) that] assms(3,4) by blast
  show "k \<notin> D pt" if "pt \<in> dom T" "k < PT_POOL_PAGES" "vm_kernel_pt v' = page_addr L k" for pt k
    using that assms(1,5) unfolding spaces_ok_def by simp
qed

text \<open>A new table is none of the live ones.\<close>

lemma made_fresh:
  assumes "layout_ok L" "spaces_ok L v T D" "made L s pt v v'"
  shows "pt \<notin> dom T"
proof
  assume d: "pt \<in> dom T"
  have t: "user_table L v' pt s (used v' - used v)" using assms(3) unfolding made_def by blast
  obtain r where r: "pt = page_addr L r" "r \<in> used v' - used v" "r < PT_POOL_PAGES"
    by (rule user_table_root [OF assms(1) t])
  obtain u where "user_table L v pt u (D pt)" using assms(2) d by (auto simp: spaces_ok_def)
  then obtain r' where "pt = page_addr L r'" "r' \<in> D pt" "r' < PT_POOL_PAGES"
    by (rule user_table_root [OF assms(1)])
  then show False using r page_addr_inj [OF assms(1) r(3)] spaces_ok_used [OF assms(2) d] by auto
qed

lemma spaces_ok_add:
  assumes "layout_ok L" "spaces_ok L v T D" "s < NPROC" "s \<notin> ran T" "made L s pt v v'"
  shows "spaces_ok L v' (T(pt \<mapsto> s)) (D(pt := used v' - used v))"
proof -
  have m: "user_table L v' pt s (used v' - used v)" "used v \<subseteq> used v'" "vm_ok v'"
    "\<forall>q \<in> used v. vm_pool v' q = vm_pool v q" "vm_kernel_pt v' = vm_kernel_pt v"
    using assms(5) by (auto simp: made_def)
  have keep: "spaces_ok L v' T D" using spaces_ok_keeps [OF assms(2) m(3,2,4,5)] .
  have old: "D q \<subseteq> used v" if "q \<in> dom T" for q
    using assms(2) that user_table_used by (fastforce simp: spaces_ok_def)
  have new: "pt \<notin> dom T" using made_fresh [OF assms(1,2,5)] .
  have kern: "k \<notin> used v' - used v" if k: "k < PT_POOL_PAGES" "vm_kernel_pt v' = page_addr L k" for k
  proof -
    have "kernel_ok L v" "vm_ok v" using assms(2) by (simp_all add: spaces_ok_def)
    moreover have "vm_kernel_pt v = page_addr L k" "page_addr L k \<noteq> 0" using k m(5) assms(1) by simp_all
    ultimately obtain j where "j \<in> used v" "page_addr L k = page_addr L j" by (auto simp: kernel_ok_def)
    then show ?thesis using page_addr_inj [OF assms(1) k(1)] used_bound [OF \<open>vm_ok v\<close>] by auto
  qed
  have fresh: "T q \<noteq> Some s" for q using assms(4) by (auto simp: ran_def)
  have k: "\<And>pt s. T pt = Some s \<Longrightarrow> s < NPROC \<and> user_table L v' pt s (D pt)"
    "\<And>pt pt'. pt \<in> dom T \<Longrightarrow> pt' \<in> dom T \<Longrightarrow> pt \<noteq> pt' \<Longrightarrow> D pt \<inter> D pt' = {} \<and> T pt \<noteq> T pt'"
    "\<And>pt k. pt \<in> dom T \<Longrightarrow> k < PT_POOL_PAGES \<Longrightarrow> vm_kernel_pt v' = page_addr L k \<Longrightarrow> k \<notin> D pt"
    "vm_ok v'" "kernel_ok L v'" "finite (dom T)"
    using keep unfolding spaces_ok_def by blast+
  let ?T = "T(pt \<mapsto> s)" and ?D = "D(pt := used v' - used v)"
  have "u < NPROC \<and> user_table L v' q u (?D q)" if "?T q = Some u" for q u
    using that k(1) m(1) assms(3) by (cases "q = pt") auto
  moreover have "?D a \<inter> ?D b = {} \<and> ?T a \<noteq> ?T b" if "a \<in> dom ?T" "b \<in> dom ?T" "a \<noteq> b" for a b
    using that k(2) [of a b] old [of a] old [of b] fresh [of a] fresh [of b] by (cases "a = pt"; cases "b = pt") auto
  moreover have "j \<notin> ?D a" if "a \<in> dom ?T" "j < PT_POOL_PAGES" "vm_kernel_pt v' = page_addr L j" for a j
    using that k(3) [of a j] kern [of j] by (cases "a = pt") auto
  ultimately show ?thesis using k(4-6) unfolding spaces_ok_def by auto
qed

lemma spaces_ok_destroy:
  assumes "layout_ok L" "spaces_ok L v T D" "T pt = Some s"
  obtains v' where "vm_destroy L pt v = Inr v'" "freed v (D pt) v'" "spaces_ok L v' (T(pt := None)) D"
proof -
  have t: "user_table L v pt s (D pt)" using assms(2,3) by (simp add: spaces_ok_def)
  obtain r where r: "pt = page_addr L r" "r \<in> D pt" "r < PT_POOL_PAGES" by (rule user_table_root [OF assms(1) t])
  have "pt \<in> dom T" using assms(3) by auto
  then have nk: "pt \<noteq> vm_kernel_pt v" using assms(2) r unfolding spaces_ok_def by metis
  obtain r' pos where p: "pt = page_addr L r'" "shaped L v r' pos" "D pt = dom pos" using t by (auto simp: user_table_def)
  obtain v' where v': "pt_destroy_level L 2 pt v = Inr v'" "freed v (D pt) v'"
    unfolding p(1) p(3) [unfolded p(1)] by (rule destroy_table [OF assms(1) p(2)])
  have "vm_destroy L pt v = Inr v'" using v'(1) nk r assms(1) by (simp add: vm_destroy_def)
  moreover have "spaces_ok L v' (T(pt := None)) D"
  proof (rule spaces_ok_frame [OF assms(2)])
    show "T(pt := None) \<subseteq>\<^sub>m T" by (auto simp: map_le_def)
    show "vm_ok v'" using v'(2) by (simp add: freed_def)
    show "kernel_ok L v'"
      using assms(2,3) v'(2) used_bound [of v] by (fastforce simp: spaces_ok_def kernel_ok_def freed_def)
    show "D q \<subseteq> used v' \<and> (\<forall>x \<in> D q. vm_pool v' x = vm_pool v x)" if "q \<in> dom (T(pt := None))" for q
    proof -
      have q: "q \<in> dom T" "q \<noteq> pt" "pt \<in> dom T" using that assms(3) by (auto split: if_splits)
      then have "D q \<inter> D pt = {}" using assms(2) unfolding spaces_ok_def by blast
      then show ?thesis using spaces_ok_used [OF assms(2) q(1)] v'(2) by (auto simp: freed_def)
    qed
    show "k \<notin> D q" if "q \<in> dom (T(pt := None))" "k < PT_POOL_PAGES" "vm_kernel_pt v' = page_addr L k" for q k
      using that assms(2) v'(2) by (auto simp: spaces_ok_def freed_def split: if_splits)
  qed
  ultimately show thesis using that v'(2) by blast
qed

lemma spaces_ok_mem: "spaces_ok L (v\<lparr>vm_mem := m\<rparr>) T D = spaces_ok L v T D"
  by (simp add: spaces_ok_def ok_mem user_table_mem)

lemma shaped_kernel: "shaped L (v\<lparr>vm_kernel_pt := p\<rparr>) r pos = shaped L v r pos"
  "leaf (v\<lparr>vm_kernel_pt := p\<rparr>) pos = leaf v pos" "used (v\<lparr>vm_kernel_pt := p\<rparr>) = used v"
  "vm_ok (v\<lparr>vm_kernel_pt := p\<rparr>) = vm_ok v"
  by (simp_all add: shaped_def tree_def used_def vm_ok_def leaf_def fun_eq_iff)

lemma kernel_pagetable_cases:
  assumes "layout_ok L" "vm_ok v" "kernel_ok L v"
  obtains (same) pt where "kernel_pagetable L v = Inr (pt, v)"
    | (fail) v' where "kernel_pagetable L v = Inr (0, v')" "vm_ok v'" "used v \<subseteq> used v'"
      "\<forall>q \<in> used v. vm_pool v' q = vm_pool v q" "vm_mem v' = vm_mem v" "vm_kernel_pt v' = 0" "vm_kernel_pt v = 0"
    | (new) r v' where "kernel_pagetable L v = Inr (page_addr L r, v')" "vm_ok v'" "used v \<subseteq> used v'"
      "\<forall>q \<in> used v. vm_pool v' q = vm_pool v q" "vm_mem v' = vm_mem v" "vm_kernel_pt v' = page_addr L r"
      "r \<in> used v' - used v"
proof (cases "vm_kernel_pt v = 0")
  case False
  then show thesis using same by (simp add: kernel_pagetable_def)
next
  case z: True
  show thesis
  proof (cases rule: fresh_table [OF assms(1,2)])
    case 1
    moreover have "v\<lparr>vm_kernel_pt := 0\<rparr> = v" using z by simp
    ultimately show thesis using same z by (simp add: kernel_pagetable_def Let_def)
  next
    case (2 r v1)
    let ?v = "v1\<lparr>vm_kernel_pt := page_addr L r\<rparr>"
    have nz: "page_addr L r \<noteq> 0" using assms(1) 2(2) by simp
    have g1: "used v1 = insert r (used v)" "\<forall>q \<in> used v. vm_pool v1 q = vm_pool v q" "vm_mem v1 = vm_mem v"
      using 2(5) by (auto simp: grows_def)
    have sh: "shaped L ?v r [r \<mapsto> []]" and lf: "\<And>m e. \<not> leaf ?v [r \<mapsto> []] m e"
      using 2(4,6) by (simp_all add: shaped_kernel)
    have after: "used v \<subseteq> used w" "\<forall>q \<in> used v. vm_pool w q = vm_pool v q" "vm_mem w = vm_mem v" "r \<in> used w"
      if "grows ?v [r \<mapsto> []] w pos" for w pos
    proof -
      have "q \<in> used ?v - dom [r \<mapsto> []]" if "q \<in> used v" for q
        using that 2(3) g1(1) by (auto simp: shaped_kernel)
      then show "\<forall>q \<in> used v. vm_pool w q = vm_pool v q" using \<open>grows ?v [r \<mapsto> []] w pos\<close> g1(2) by (auto simp: grows_def)
      show "used v \<subseteq> used w" "vm_mem w = vm_mem v" "r \<in> used w"
        using that g1 by (auto simp: grows_def shaped_kernel)
    qed
    show thesis
    proof (cases rule: kernel_map_cases [OF assms(1) sh lf])
      case (1 v2 pos2)
      note a = after [OF 1(3)]
      have ok: "vm_ok v2" using 1(2) by (simp add: shaped_def)
      have f: "freed v2 {r} (pt_release L (page_addr L r) v2)" using pt_release_page [OF assms(1) 2(2) ok] .
      let ?w = "(pt_release L (page_addr L r) v2)\<lparr>vm_kernel_pt := 0\<rparr>"
      have "kernel_pagetable L v = Inr (0, ?w)"
        using z 2(1) nz 1(1) by (simp add: kernel_pagetable_def Let_def)
      moreover have "used v \<subseteq> used ?w" using f a(1) 2(3) by (auto simp: freed_def shaped_kernel)
      ultimately show thesis using fail f a z by (simp add: freed_def shaped_kernel)
    next
      case k: (2 v2 pos2)
      note a = after [OF k(3)]
      have "kernel_pagetable L v = Inr (page_addr L r, v2)"
        using z 2(1) nz k(1) by (simp add: kernel_pagetable_def Let_def)
      moreover have "vm_kernel_pt v2 = page_addr L r" "vm_ok v2" using k(2,3) by (simp_all add: grows_def shaped_def)
      ultimately show thesis using new a 2(3) by blast
    qed
  qed
qed

lemma spaces_ok_build:
  assumes "layout_ok L" "spaces_ok L v T D" "s < NPROC" "s \<notin> ran T" "build_space L s g v = Inr (pt, v')"
  shows "\<exists>D'. spaces_ok L v' (add_space pt s T) D'"
proof -
  have ok: "vm_ok v" "kernel_ok L v" using assms(2) by (simp_all add: spaces_ok_def)
  show ?thesis
  proof (cases rule: build_space_cases [OF assms(1,3) ok, of g])
    case (1 w)
    then have "spaces_ok L v' T D" using assms(2,5) by (auto simp: kept_def intro: spaces_ok_keeps)
    then show ?thesis using 1(1) assms(5) by (auto simp: add_space_def)
  next
    case (2 p w)
    then have "spaces_ok L v' (T(pt \<mapsto> s)) (D(pt := used v' - used v))"
      using spaces_ok_add [OF assms(1,2,3,4)] assms(5) by simp
    then show ?thesis using 2 assms(5) by (auto simp: add_space_def)
  qed
qed

lemma spaces_ok_kernel:
  assumes "layout_ok L" "spaces_ok L v T D" "kernel_pagetable L v = Inr (pt, v')"
  shows "spaces_ok L v' T D"
proof -
  have ok: "vm_ok v" "kernel_ok L v" using assms(2) by (simp_all add: spaces_ok_def)
  have sub: "D q \<subseteq> used v" if "q \<in> dom T" for q using spaces_ok_used [OF assms(2) that] .
  show ?thesis
  proof (cases rule: kernel_pagetable_cases [OF assms(1) ok])
    case (1 p)
    then show ?thesis using assms(2,3) by simp
  next
    case (2 w)
    then show ?thesis using assms(2,3) by (auto intro: spaces_ok_keeps)
  next
    case (3 r w)
    then have e: "v' = w" using assms(3) by simp
    have r: "r < PT_POOL_PAGES" using 3(2,7) used_bound by blast
    show ?thesis unfolding e
    proof (rule spaces_ok_frame [OF assms(2) map_le_refl 3(2)])
      show "kernel_ok L w" using 3(6,7) by (auto simp: kernel_ok_def)
      show "D q \<subseteq> used w \<and> (\<forall>x \<in> D q. vm_pool w x = vm_pool v x)" if "q \<in> dom T" for q
        using sub [OF that] 3(3,4) by blast
      show "k \<notin> D q" if "q \<in> dom T" "k < PT_POOL_PAGES" "vm_kernel_pt w = page_addr L k" for q k
        using that 3(6,7) page_addr_inj [OF assms(1) r that(2)] sub [OF that(1)] by auto
    qed
  qed
qed

lemma build_cases:
  assumes "layout_ok L" "spaces_ok L v T D" "s < NPROC"
  obtains (no) v' where "build_space L s g v = Inr (0, v')"
    | (yes) pt v' where "build_space L s g v = Inr (pt, v')" "pt \<noteq> 0" "pt \<notin> dom T" "made L s pt v v'"
proof -
  have ok: "vm_ok v" "kernel_ok L v" using assms(2) by (simp_all add: spaces_ok_def)
  show thesis
  proof (cases rule: build_space_cases [OF assms(1,3) ok, of g])
    case (1 v')
    then show thesis using no by blast
  next
    case (2 pt v')
    then show thesis using yes made_fresh [OF assms(1,2)] by blast
  qed
qed

lemma create_cases:
  assumes "layout_ok L" "spaces_ok L v T D" "s < NPROC"
  obtains (no) v' where "vm_create_user L img (int s) v = Inr (0, v')"
    | (yes) pt v' where "vm_create_user L img (int s) v = Inr (pt, v')" "pt \<noteq> 0" "pt \<notin> dom T" "made L s pt v v'"
  unfolding create_is_build [OF assms(3)] by (rule build_cases [OF assms])

lemma clone_cases:
  assumes "layout_ok L" "spaces_ok L v T D" "d < NPROC" "s < NPROC"
  obtains (no) v' where "vm_clone_user L (int d) (int s) v = Inr (0, v')"
    | (yes) pt v' where "vm_clone_user L (int d) (int s) v = Inr (pt, v')" "pt \<noteq> 0" "pt \<notin> dom T" "made L d pt v v'"
  unfolding clone_is_build [OF assms(3,4)] by (rule build_cases [OF assms(1-3)])

lemma vm_step_inv:
  assumes "layout_ok L" "vm_step L l (v, T) (v', T')" "spaces_ok L v T D"
  shows "\<exists>D'. spaces_ok L v' T' D'"
  using assms(2)
proof (cases rule: vm_step.cases)
  case (create s img pt)
  then show ?thesis using spaces_ok_build [OF assms(1,3)] by (simp add: create_is_build)
next
  case (clone d s pt)
  then show ?thesis using spaces_ok_build [OF assms(1,3)] by (simp add: clone_is_build)
next
  case (destroy pt s)
  then show ?thesis using spaces_ok_destroy [OF assms(1,3), of pt s] by (metis sum.inject(2))
next
  case (store pt s va bs rc)
  have "s < NPROC" "user_table L v pt s (D pt)" using assms(3) store by (simp_all add: spaces_ok_def)
  then have "slot_write L s v v'" using copyout_writes [OF assms(1), of s v pt "D pt" va bs] store by auto
  then show ?thesis using assms(3) store(2) by (auto simp: slot_write_def spaces_ok_mem)
next
  case (kernel pt)
  then show ?thesis using spaces_ok_kernel [OF assms(1,3)] by auto
qed

lemma vm_reachable_inv:
  assumes "layout_ok L" "vm_reachable L st"
  shows "\<exists>D. spaces_ok L (fst st) (snd st) D"
  using assms(2)
proof induction
  case (init v)
  show ?case by (simp add: spaces_ok_def vm_init_def vm_ok_def kernel_ok_def)
next
  case (step st l st')
  then show ?case using vm_step_inv [OF assms(1), of l "fst st" "snd st" "fst st'" "snd st'"] by auto
qed

lemma reachable_table:
  assumes "layout_ok L" "vm_reachable L (v, T)" "T pt = Some s"
  obtains D where "spaces_ok L v T D" "user_table L v pt s (D pt)" "s < NPROC"
proof -
  obtain D where "spaces_ok L v T D" using vm_reachable_inv [OF assms(1,2)] by auto
  then show thesis using that [of D] assms(3) by (simp add: spaces_ok_def)
qed

section \<open>What a step leaves alone\<close>

lemma vm_step_memory:
  assumes "layout_ok L" "vm_step L l (v, T) (v', T')" "spaces_ok L v T D" "\<And>s. l = Some s \<Longrightarrow> x \<notin> slot_memory L s"
  shows "vm_mem v' x = vm_mem v x"
proof -
  have ok: "vm_ok v" "kernel_ok L v" using assms(3) by (simp_all add: spaces_ok_def)
  have build: "vm_mem v' x = vm_mem v x"
    if "s < NPROC" "build_space L s g v = Inr (pt, v')" "g (vm_mem v) x = vm_mem v x" for s g pt
    by (cases rule: build_space_cases [OF assms(1) that(1) ok, of g]) (use that in auto)
  from assms(2) show ?thesis
  proof (cases rule: vm_step.cases)
    case (create s img pt)
    then show ?thesis using build assms(4) create_memory by (simp add: create_is_build)
  next
    case (clone d s pt)
    then show ?thesis using build assms(4) clone_memory by (simp add: clone_is_build)
  next
    case (destroy pt s)
    obtain w where "vm_destroy L pt v = Inr w" "freed v (D pt) w" by (rule spaces_ok_destroy [OF assms(1,3) destroy(3)])
    then show ?thesis using destroy(4) by (simp add: freed_def)
  next
    case (store pt s va bs rc)
    have "s < NPROC" "user_table L v pt s (D pt)" using assms(3) store by (simp_all add: spaces_ok_def)
    then have "slot_write L s v v'" using copyout_writes [OF assms(1), of s v pt "D pt" va bs] store by auto
    then show ?thesis using assms(4) store(1) by (auto simp: slot_write_def)
  next
    case (kernel pt)
    then show ?thesis by (cases rule: kernel_pagetable_cases [OF assms(1) ok]) auto
  qed
qed

lemma user_space_memory: "user_space L s va = Some pa \<Longrightarrow> pa \<in> slot_memory L s"
  using user_space_region [of L s va pa 1] by (auto simp: region_def Suc_le_eq)

lemma user_bytes_cong:
  assumes "\<And>x. x \<in> slot_memory L s \<Longrightarrow> m x = m' x"
  shows "user_bytes L s m va n = user_bytes L s m' va n"
  unfolding user_bytes_def using assms user_space_memory by fastforce

text \<open>The same address lies at the same offset of the memory of every slot.\<close>

definition user_offset :: "addr \<Rightarrow> nat option" where
  "user_offset va =
     (let n = page_number va in
      if 0x40000 \<le> n \<and> n < 0x40004 then Some ((n - 0x40000) * 4096 + unat va mod 4096)
      else if n = 0x7FFFF then Some (4 * 4096 + unat va mod 4096) else None)"

lemma user_space_offset: "user_space L s va = map_option (\<lambda>i. user_page L s 0 + of_nat i) (user_offset va)"
proof -
  have low: "va AND (PGSIZE - 1) = of_nat (unat va mod 4096)" by (simp add: PGSIZE_def flip: and_4095)
  have pg: "user_page L s k + (va AND (PGSIZE - 1)) = user_page L s 0 + of_nat (k * 4096 + unat va mod 4096)" for k
    unfolding low user_page_plus [symmetric, of L s k] by (simp add: PGSIZE_def add.assoc)
  show ?thesis
  proof (cases rule: user_page_cases [of va])
    case stack
    then show ?thesis using user_space_pages(2) [of va L s] pg [of 4] by (simp add: user_offset_def)
  next
    case (img k)
    then show ?thesis using user_space_pages(1) [of va k L s] pg [of k] by (simp add: user_offset_def Let_def)
  next
    case other
    then show ?thesis using user_space_pages(3) [of va L s] by (auto simp: user_offset_def Let_def)
  qed
qed

lemma user_offset_less: "user_offset va = Some i \<Longrightarrow> i < 20480"
proof -
  assume "user_offset va = Some i"
  moreover have "unat va mod 4096 < 4096" by simp
  moreover have "(n - 0x40000) * 4096 + 4096 \<le> 16384" if "0x40000 \<le> n \<and> n < 0x40004" for n :: nat
    using that by (auto elim!: nat_window)
  ultimately show ?thesis by (fastforce simp: user_offset_def Let_def split: if_splits)
qed

lemma clone_view:
  assumes "layout_ok L" "d < NPROC" "s < NPROC" "d \<noteq> s"
  shows "user_bytes L d (memcpy (user_page L d 0) (user_page L s 0) (USER_TOTAL_PAGES * 4096) m) va n = user_bytes L s m va n"
proof -
  let ?m = "memcpy (user_page L d 0) (user_page L s 0) 20480 m"
  have disj: "region (user_page L d 0) 20480 \<inter> region (user_page L s 0) 20480 = {}"
    using slot_memory_disjoint [OF assms] by (simp add: slot_memory_def)
  have "(20480 :: nat) \<le> 2 ^ 64" by simp
  note cp = memcpy_inside [OF disj this, of _ m]
  have none: "user_space L d a = None \<longleftrightarrow> user_space L s a = None" for a by (simp add: user_space_offset)
  have byte: "?m (the (user_space L d a)) = m (the (user_space L s a))" if "user_space L d a \<noteq> None" for a
    using that cp user_offset_less by (auto simp: user_space_offset)
  then have "map (\<lambda>i. ?m (the (user_space L d (va + of_nat i)))) [0..<n] = map (\<lambda>i. m (the (user_space L s (va + of_nat i)))) [0..<n]"
    if "\<forall>i < n. user_space L s (va + of_nat i) \<noteq> None"
    using that none by (intro map_cong) auto
  then show ?thesis unfolding user_bytes_def none by simp
qed

section \<open>The pool is large enough\<close>

lemma kernel_pages_small:
  assumes "layout_ok L" "lay_kernel_end L \<le> 0x84000000"
  shows "kernel_pages L \<le> 16384"
proof -
  let ?x = "lay_kernel_end L + 4095 :: addr"
  have e: "2147483648 \<le> unat (lay_kernel_end L)" "unat (lay_kernel_end L) \<le> 0x84000000"
    using assms by (auto simp: layout_ok_def KERNEL_START_def word_le_nat_alt)
  have x: "unat ?x = unat (lay_kernel_end L) + 4095"
    using e unat_word_ariths(1) [of "lay_kernel_end L" 4095] by simp
  have "unat ?x div 4096 \<le> 0x84000" using e x by simp
  moreover have "unat ?x - unat ?x mod 4096 = unat ?x div 4096 * 4096" by (simp add: minus_mod_eq_div_mult)
  ultimately have r: "unat (?x AND NOT 4095) \<le> 0x84000000" unfolding round_down by simp
  have "2147483648 \<le> unat (?x AND NOT 4095)"
    unfolding round_down x using e mod_less_divisor [of 4096 "unat (lay_kernel_end L) + 4095"] by linarith
  then have "unat ((?x AND NOT 4095) - 2147483648) \<le> 0x4000000"
    using r by (subst unat_sub) (auto simp: word_le_nat_alt)
  then have "page_count KERNEL_START ((?x AND NOT 4095) - KERNEL_START) \<le> 16384"
    by (auto simp: page_count_def KERNEL_START_def)
  moreover have "(lay_kernel_end L + PGSIZE - 1) AND NOT (PGSIZE - 1) = ?x AND NOT 4095"
    by (simp add: PGSIZE_def add_diff_eq [symmetric])
  ultimately show ?thesis by (simp add: kernel_pages_def)
qed

definition all_paths :: "nat list set" where
  "all_paths = {[], [0], [1], [2], [0, 128], [1, 0], [1, 511]} \<union> (\<lambda>j. [2, j]) ` {..<32}"

lemma space_paths_all:
  assumes "layout_ok L" "lay_kernel_end L \<le> 0x84000000"
  shows "space_paths L \<subseteq> all_paths"
proof -
  have n: "page_number KERNEL_START = 0x80000" "page_number UART0 = 0x10000" "page_number USER_BASE = 0x40000"
    "page_number (USER_STACK_TOP - PGSIZE) = 0x7FFFF"
    by (simp_all add: page_number_def KERNEL_START_def UART0_def layout_defs)
  have "prefixes (0x80000 + i) \<subseteq> all_paths" if "i < kernel_pages L" for i
  proof -
    have i: "i < 16384" using that kernel_pages_small [OF assms] by simp
    then have "(0x80000 + i) div 2 ^ 18 mod 512 = 2" by simp
    moreover have "(0x80000 + i) div 512 = 1024 + i div 512" by simp
    moreover have q: "i div 512 < 32" using i by simp
    moreover have "(1024 + k) mod 512 = k" if "k < 32" for k :: nat
    proof -
      have "(1024 + k) mod 512 = (k + 2 * 512) mod 512" by (simp add: add.commute)
      also have "\<dots> = k mod 512" by (rule mod_mult_self1)
      finally show ?thesis using that by simp
    qed
    ultimately have "top_path (0x80000 + i) = [2, i div 512]" by (simp add: top_path_def)
    then show ?thesis using q by (simp add: prefixes_def all_paths_def)
  qed
  then have "paths KERNEL_START (kernel_pages L) \<subseteq> all_paths" unfolding paths_def n by blast
  moreover have "paths UART0 1 \<subseteq> all_paths" "paths (USER_STACK_TOP - PGSIZE) 1 \<subseteq> all_paths"
    unfolding paths_def n by (auto simp: prefixes_def top_path_def all_paths_def)
  moreover have "paths USER_BASE 4 \<subseteq> all_paths"
  proof -
    have "prefixes (0x40000 + i) \<subseteq> all_paths" if "i < 4" for i
    proof -
      have "(0x40000 + i) div 512 = 512 + i div 512" by simp
      then have "(0x40000 + i) div 512 = 512" using that by simp
      then have "(0x40000 + i) div 2 ^ 18 mod 512 = 1" "(0x40000 + i) div 512 mod 512 = 0" using that by simp_all
      then show ?thesis by (auto simp: prefixes_def top_path_def all_paths_def)
    qed
    then show ?thesis unfolding paths_def n by blast
  qed
  ultimately show ?thesis by (simp add: space_paths_def kernel_paths_def all_paths_def)
qed

lemma space_paths_card:
  assumes "layout_ok L" "lay_kernel_end L \<le> 0x84000000"
  shows "card (space_paths L) \<le> 39"
proof -
  have "card (space_paths L) \<le> card all_paths"
    using space_paths_all [OF assms] by (intro card_mono) (simp_all add: all_paths_def)
  also have "\<dots> \<le> 7 + card ((\<lambda>j. [2, j :: nat]) ` {..<32})"
    unfolding all_paths_def by (rule order_trans [OF card_Un_le]) (simp add: card_insert_if)
  also have "\<dots> \<le> 39" using card_image_le [of "{..<32 :: nat}" "\<lambda>j. [2, j :: nat]"] by simp
  finally show ?thesis .
qed

lemma build_space_succeeds:
  assumes "layout_ok L" "lay_kernel_end L \<le> 0x84000000" "s < NPROC" "vm_ok v" "kernel_ok L v" "card (used v) \<le> 984"
  obtains pt v' where "build_space L s g v = Inr (pt, v')" "pt \<noteq> 0" "made L s pt v v'" "vm_mem v' = g (vm_mem v)"
proof (cases rule: build_space_cases [OF assms(1,3,4,5), of g])
  case (1 v')
  then show thesis using space_paths_card [OF assms(1,2)] assms(6) by simp
next
  case (2 pt v')
  then show thesis by (rule that)
qed

lemma create_succeeds:
  assumes "layout_ok L" "lay_kernel_end L \<le> 0x84000000" "s < NPROC" "vm_ok v" "kernel_ok L v" "card (used v) \<le> 984"
  obtains pt v' where "vm_create_user L img (int s) v = Inr (pt, v')" "pt \<noteq> 0" "made L s pt v v'"
    "vm_mem v' = write_image (user_page L s 0) (take (USER_IMAGE_PAGES * 4096) img)
       (memset (user_page L s 0) 0 (USER_TOTAL_PAGES * 4096) (vm_mem v))"
  unfolding create_is_build [OF assms(3)] by (rule build_space_succeeds [OF assms])

lemma clone_succeeds:
  assumes "layout_ok L" "lay_kernel_end L \<le> 0x84000000" "d < NPROC" "vm_ok v" "kernel_ok L v" "card (used v) \<le> 984" "s < NPROC"
  obtains pt v' where "vm_clone_user L (int d) (int s) v = Inr (pt, v')" "pt \<noteq> 0" "made L d pt v v'"
    "vm_mem v' = memcpy (user_page L d 0) (user_page L s 0) (USER_TOTAL_PAGES * 4096) (vm_mem v)"
  unfolding clone_is_build [OF assms(3,7)] by (rule build_space_succeeds [OF assms(1-6)])

section \<open>A machine with two processes\<close>

definition sample_layout :: layout where
  "sample_layout = \<lparr>lay_pool = 0x80100000, lay_user = 0x80600000, lay_kernel_end = 0x80700000\<rparr>"

definition blank_vm :: vm where
  "blank_vm = vm_init \<lparr>vm_pool = \<lambda>_ _. 0, vm_used = [], vm_kernel_pt = 0, vm_mem = \<lambda>_. 0\<rparr>"

lemma sample_layout_ok: "layout_ok sample_layout" "lay_kernel_end sample_layout \<le> 0x84000000"
  by (simp_all add: layout_ok_def sample_layout_def KERNEL_START_def)

lemma blank_vm_ok: "vm_ok blank_vm" "kernel_ok L blank_vm" "used blank_vm = {}"
  by (auto simp: blank_vm_def vm_init_def vm_ok_def kernel_ok_def used_def)

lemma first_space:
  obtains v pt where "vm_create_user sample_layout img 0 blank_vm = Inr (pt, v)" "pt \<noteq> 0"
    "made sample_layout 0 pt blank_vm v" "vm_reachable sample_layout (v, [pt \<mapsto> 0])"
proof -
  obtain pt v where c: "vm_create_user sample_layout img 0 blank_vm = Inr (pt, v)" "pt \<noteq> 0" "made sample_layout 0 pt blank_vm v"
    by (rule create_succeeds [OF sample_layout_ok, of 0 blank_vm img]) (auto simp: blank_vm_ok)
  have "vm_reachable sample_layout (blank_vm, Map.empty)" unfolding blank_vm_def by (rule vm_reachable.init)
  moreover have "vm_step sample_layout (Some 0) (blank_vm, Map.empty) (v, add_space pt 0 Map.empty)"
    using c(1) by (intro vm_step.create) simp_all
  ultimately have "vm_reachable sample_layout (v, [pt \<mapsto> 0])"
    using c(2) by (auto simp: add_space_def intro: vm_reachable.step)
  then show thesis using that c by blast
qed

lemma two_spaces:
  obtains v pt pt' where "vm_reachable sample_layout (v, [pt \<mapsto> 0, pt' \<mapsto> 1])" "pt \<noteq> pt'"
proof -
  obtain v pt where v: "pt \<noteq> 0" "made sample_layout 0 pt blank_vm v" "vm_reachable sample_layout (v, [pt \<mapsto> 0])"
    by (rule first_space)
  obtain D where D: "spaces_ok sample_layout v [pt \<mapsto> 0] D" using vm_reachable_inv [OF sample_layout_ok(1) v(3)] by auto
  have few: "card (used v) \<le> 984"
    using v(2) space_paths_card [OF sample_layout_ok] blank_vm_ok(3) by (simp add: made_def)
  have ok: "vm_ok v" "kernel_ok sample_layout v" using D by (simp_all add: spaces_ok_def)
  obtain pt' v' where c: "vm_clone_user sample_layout 1 0 v = Inr (pt', v')" "pt' \<noteq> 0" "made sample_layout 1 pt' v v'"
    by (rule clone_succeeds [OF sample_layout_ok _ ok few, of 1 0]) auto
  have "vm_step sample_layout (Some 1) (v, [pt \<mapsto> 0]) (v', add_space pt' 1 [pt \<mapsto> 0])"
    using c(1) by (intro vm_step.clone [where s = 0]) (auto simp: ran_def split: if_splits)
  then have r: "vm_reachable sample_layout (v', [pt \<mapsto> 0, pt' \<mapsto> 1])"
    using c(2) v(3) by (auto simp: add_space_def intro: vm_reachable.step)
  have "pt \<noteq> pt'"
  proof
    assume "pt = pt'"
    have t': "user_table sample_layout v' pt' 1 (used v' - used v)" using c(3) unfolding made_def by blast
    obtain r where r: "pt' = page_addr sample_layout r" "r \<in> used v' - used v" "r < PT_POOL_PAGES"
      by (rule user_table_root [OF sample_layout_ok(1) t'])
    have t: "user_table sample_layout v pt 0 (D pt)" using D by (simp add: spaces_ok_def)
    obtain q where "pt = page_addr sample_layout q" "q \<in> D pt" "q < PT_POOL_PAGES"
      by (rule user_table_root [OF sample_layout_ok(1) t])
    then show False
      using r \<open>pt = pt'\<close> page_addr_inj [OF sample_layout_ok(1) r(3)] user_table_used [OF t] by auto
  qed
  then show thesis using that r by blast
qed

section \<open>Properties of the virtual memory\<close>

text \<open>
  Isolation. In every state the address spaces can reach, a live user table of slot \<open>s\<close> translates
  exactly the four image pages at \<open>USER_BASE\<close> and the stack page below \<open>USER_STACK_TOP\<close>, to the memory of
  its own slot and nothing else: the kernel's mappings, though present in the table, are refused.
  Different live tables have different slots, whose memories do not overlap.
\<close>

theorem processes_isolated:
  assumes "layout_ok L" "vm_reachable L (v, T)" "T pt = Some s"
  shows "translate_user L pt va v = Inr (user_space L s va) \<and>
    (\<forall>pa. user_space L s va = Some pa \<longrightarrow> pa \<in> slot_memory L s) \<and>
    (\<forall>pt' s'. T pt' = Some s' \<longrightarrow> pt' \<noteq> pt \<longrightarrow> slot_memory L s \<inter> slot_memory L s' = {})"
proof -
  obtain D where D: "spaces_ok L v T D" "user_table L v pt s (D pt)" "s < NPROC" by (rule reachable_table [OF assms])
  have "slot_memory L s \<inter> slot_memory L s' = {}" if "T pt' = Some s'" "pt' \<noteq> pt" for pt' s'
  proof (rule slot_memory_disjoint [OF assms(1) D(3)])
    show "s' < NPROC" using D(1) that(1) by (simp add: spaces_ok_def)
    have "T pt \<noteq> T pt'" using D(1) that assms(3) unfolding spaces_ok_def by blast
    then show "s \<noteq> s'" using assms(3) that(1) by auto
  qed
  then show ?thesis using translate_user_table [OF assms(1) D(3,2)] user_space_memory by blast
qed

theorem processes_isolated_witness:
  "\<exists>v T pt. vm_reachable sample_layout (v, T) \<and> T pt = Some 0 \<and>
     translate_user sample_layout pt 0x40001234 v = Inr (Some 0x80601234) \<and>
     translate_user sample_layout pt 0x80000000 v = Inr None"
proof -
  obtain v pt pt' where r: "vm_reachable sample_layout (v, [pt \<mapsto> 0, pt' \<mapsto> 1])" "pt \<noteq> pt'" by (rule two_spaces)
  have t: "[pt \<mapsto> 0, pt' \<mapsto> 1] pt = Some (0 :: nat)" using r(2) by simp
  have "user_space sample_layout 0 0x40001234 = Some 0x80601234" "user_space sample_layout 0 0x80000000 = None"
    by (simp_all add: user_space_def sample_layout_def user_page_def layout_defs)
  then show ?thesis using processes_isolated [OF sample_layout_ok(1) r(1) t] r(1) t by metis
qed

text \<open>
  Non-interference. A step of the address spaces that writes the memory of one slot (creating,
  cloning, a copy to the user) or of none (destroying a space, building the kernel's table) changes
  nothing of what a live process of another slot reads, wherever and however much it reads.
\<close>

theorem others_unaffected:
  assumes "layout_ok L" "vm_reachable L (v, T)" "vm_step L l (v, T) (v', T')"
    and "T pt = Some s" "T' pt = Some s" "l \<noteq> Some s"
  shows "copyin L pt va n v' = copyin L pt va n v"
proof -
  obtain D where D: "spaces_ok L v T D" "user_table L v pt s (D pt)" "s < NPROC" by (rule reachable_table [OF assms(1,2,4)])
  obtain D' where D': "spaces_ok L v' T' D'" using vm_step_inv [OF assms(1,3) D(1)] by blast
  then have t': "user_table L v' pt s (D' pt)" using assms(5) by (simp add: spaces_ok_def)
  have "vm_mem v' x = vm_mem v x" if "x \<in> slot_memory L s" for x
  proof (rule vm_step_memory [OF assms(1,3) D(1)])
    fix u
    assume u: "l = Some u"
    have "u < NPROC" using assms(3) D(1) u by (cases rule: vm_step.cases) (auto simp: spaces_ok_def)
    then show "x \<notin> slot_memory L u" using slot_memory_disjoint [OF assms(1) D(3), of u] that u assms(6) by auto
  qed
  then show ?thesis
    unfolding copyin_user_bytes [OF assms(1) D(3) t'] copyin_user_bytes [OF assms(1) D(3,2)]
    using user_bytes_cong by metis
qed

theorem others_unaffected_witness:
  "\<exists>v T pt pt' v'. vm_reachable sample_layout (v, T) \<and> T pt = Some 0 \<and> T pt' = Some 1 \<and>
     vm_step sample_layout (Some 1) (v, T) (v', T) \<and>
     copyin sample_layout pt 0x40000000 16 v' = copyin sample_layout pt 0x40000000 16 v"
proof -
  obtain v pt pt' where r: "vm_reachable sample_layout (v, [pt \<mapsto> 0, pt' \<mapsto> 1])" "pt \<noteq> pt'" by (rule two_spaces)
  let ?T = "[pt \<mapsto> 0, pt' \<mapsto> 1]"
  have t: "?T pt = Some 0" "?T pt' = Some (1 :: nat)" using r(2) by simp_all
  obtain D where D: "user_table sample_layout v pt' 1 (D pt')" using reachable_table [OF sample_layout_ok(1) r(1) t(2)] by metis
  obtain rc v' where "copyout sample_layout pt' 0x40000000 [7, 8, 9] v = Inr (rc, v')"
    using copyout_writes [OF sample_layout_ok(1) _ D] by fastforce
  then have s: "vm_step sample_layout (Some 1) (v, ?T) (v', ?T)" by (rule vm_step.store [where T = ?T, OF t(2)])
  have e: "copyin sample_layout pt 0x40000000 16 v' = copyin sample_layout pt 0x40000000 16 v"
    by (rule others_unaffected [OF sample_layout_ok(1) r(1) s t(1) t(1)]) simp
  show ?thesis
    by (intro exI [of _ v] exI [of _ ?T] exI [of _ pt] exI [of _ pt'] exI [of _ v'] conjI r(1) t s e)
qed

text \<open>
  C27: The copies page by page are copies byte by byte. \<^verbatim>\<open>copyin\<close> returns the bytes of the process from the
  address on, or fails when one of them is not its own; \<^verbatim>\<open>copyout\<close> stores the bytes up to the first
  address that is not the process's own and fails there, changes no byte outside the memory of the slot, and
  what it stored successfully \<^verbatim>\<open>copyin\<close> reads back.
\<close>

theorem copyout_copyin:
  assumes "layout_ok L" "vm_reachable L (v, T)" "T pt = Some s" "length bs < 2 ^ 64"
  shows "copyin L pt va n v = Inr (user_bytes L s (vm_mem v) va n) \<and>
    (\<exists>rc m. byte_out L s va bs (vm_mem v) = (rc, m) \<and> copyout L pt va bs v = Inr (rc, v\<lparr>vm_mem := m\<rparr>) \<and>
      (\<forall>x. x \<notin> slot_memory L s \<longrightarrow> m x = vm_mem v x) \<and>
      (rc = 0 \<longrightarrow> copyin L pt va (length bs) (v\<lparr>vm_mem := m\<rparr>) = Inr (Some bs)))"
proof -
  obtain D where D: "spaces_ok L v T D" "user_table L v pt s (D pt)" "s < NPROC" by (rule reachable_table [OF assms(1-3)])
  obtain rc m where b: "byte_out L s va bs (vm_mem v) = (rc, m)" by fastforce
  have t: "user_table L (v\<lparr>vm_mem := m\<rparr>) pt s (D pt)" using D(2) by (simp add: user_table_mem)
  have "copyin L pt va (length bs) (v\<lparr>vm_mem := m\<rparr>) = Inr (Some bs)" if "rc = 0"
    using byte_out_read_back [OF assms(1) D(3), of va bs "vm_mem v" m] copyin_user_bytes [OF assms(1) D(3) t] b assms(4) that by simp
  moreover have "m x = vm_mem v x" if "x \<notin> slot_memory L s" for x
    using byte_out_other [OF b, of x] that user_space_memory by blast
  ultimately show ?thesis
    using copyin_user_bytes [OF assms(1) D(3,2)] copyout_byte_out [OF assms(1) D(3,2), of va bs] b by simp
qed

theorem copyout_copyin_witness:
  "\<exists>v T pt v'. vm_reachable sample_layout (v, T) \<and> T pt = Some 0 \<and>
     copyout sample_layout pt 0x40000FFF [1, 2] v = Inr (0, v') \<and>
     copyin sample_layout pt 0x40000FFF 2 v' = Inr (Some [1, 2])"
proof -
  obtain v pt pt' where r: "vm_reachable sample_layout (v, [pt \<mapsto> 0, pt' \<mapsto> 1])" "pt \<noteq> pt'" by (rule two_spaces)
  have t: "[pt \<mapsto> 0, pt' \<mapsto> 1] pt = Some (0 :: nat)" using r(2) by simp
  have b: "\<exists>m. byte_out sample_layout 0 0x40000FFF [1, 2] m0 = (0, m)" for m0
    by (simp add: user_space_def sample_layout_def user_page_def layout_defs)
  then obtain m where m: "byte_out sample_layout 0 0x40000FFF [1, 2] (vm_mem v) = (0, m)" by blast
  have len: "length [1 :: 8 word, 2] < 2 ^ 64" by simp
  have c: "copyout sample_layout pt 0x40000FFF [1, 2] v = Inr (0, v\<lparr>vm_mem := m\<rparr>)"
    "copyin sample_layout pt 0x40000FFF 2 (v\<lparr>vm_mem := m\<rparr>) = Inr (Some [1, 2])"
    using copyout_copyin [OF sample_layout_ok(1) r(1) t len, of "0x40000FFF"] m by (simp_all add: eval_nat_numeral)
  show ?thesis
    by (intro exI [of _ v] exI [of _ "[pt \<mapsto> 0, pt' \<mapsto> 1]"] exI [of _ pt] exI [of _ "v\<lparr>vm_mem := m\<rparr>"] conjI r(1) t c)
qed

text \<open>
  C26: The life of an address space. \<^verbatim>\<open>vm_create_user\<close> never reads or writes a page table outside the pool. With a
  kernel of at most 64 MB and 40 free pages it succeeds; when it fails, exactly the pages in use
  before are in use after, with their contents. When it succeeds, the image, cut to its four pages, is at
  \<open>USER_BASE\<close>, followed by zeros, and \<^verbatim>\<open>vm_destroy\<close> of the new table gives back exactly the pages it took.
\<close>

theorem vm_space_lifecycle:
  assumes "layout_ok L" "vm_ok v" "kernel_ok L v" "s < NPROC"
  shows "\<exists>pt v'. vm_create_user L img (int s) v = Inr (pt, v') \<and>
    (pt = 0 \<longrightarrow> kept v v') \<and>
    (lay_kernel_end L \<le> 0x84000000 \<longrightarrow> card (used v) \<le> 984 \<longrightarrow> pt \<noteq> 0) \<and>
    (pt \<noteq> 0 \<longrightarrow> made L s pt v v' \<and> (\<exists>v''. vm_destroy L pt v' = Inr v'' \<and> used v'' = used v) \<and>
      (\<forall>i < 20480. vm_mem v' (user_page L s 0 + of_nat i) = (if i < 16384 \<and> i < length img then img ! i else 0)))"
proof -
  let ?img = "take (USER_IMAGE_PAGES * 4096) img"
  let ?g = "\<lambda>m. write_image (user_page L s 0) ?img (memset (user_page L s 0) 0 (USER_TOTAL_PAGES * 4096) m)"
  have content: "?g m (user_page L s 0 + of_nat i) = (if i < 16384 \<and> i < length img then img ! i else 0)" if i: "i < 20480" for m i
  proof (cases "i < length ?img")
    case True
    then show ?thesis using write_image_inside [of i ?img] by auto
  next
    case False
    have "user_page L s 0 + of_nat i \<notin> region (user_page L s 0) (length ?img)"
    proof
      assume "user_page L s 0 + of_nat i \<in> region (user_page L s 0) (length ?img)"
      then obtain j where "user_page L s 0 + of_nat i = user_page L s 0 + of_nat j" "j < length ?img"
        by (auto simp: region_def)
      then show False using add_of_nat_eq [of "user_page L s 0" i j] i False by simp
    qed
    moreover have "user_page L s 0 + of_nat i \<in> region (user_page L s 0) 20480" using i by (auto simp: region_def)
    ultimately show ?thesis using False by (auto simp: write_image_outside memset_inside)
  qed
  show ?thesis
  proof (cases rule: build_space_cases [OF assms(1,4,2,3), of ?g])
    case (1 w)
    then show ?thesis using space_paths_card [OF assms(1)] unfolding create_is_build [OF assms(4)] by force
  next
    case (2 pt w)
    have t: "user_table L w pt s (used w - used v)" "used v \<subseteq> used w" "vm_kernel_pt w = vm_kernel_pt v"
      using 2(3) unfolding made_def by blast+
    obtain r pos where p: "pt = page_addr L r" "shaped L w r pos" "used w - used v = dom pos"
      using t(1) unfolding user_table_def by blast
    obtain w' where w': "pt_destroy_level L 2 pt w = Inr w'" "freed w (dom pos) w'"
      unfolding p(1) by (rule destroy_table [OF assms(1) p(2)])
    have r: "r \<in> dom pos" "r < PT_POOL_PAGES"
      using p(2) treeD(1) [of L w r pos] treeD(2) [of L w r pos r] by (auto simp: shaped_def)
    have "pt \<noteq> vm_kernel_pt w"
    proof
      assume "pt = vm_kernel_pt w"
      then obtain k where "k \<in> used v" "page_addr L r = page_addr L k" using assms(3) 2(2) t(3) p(1) by (auto simp: kernel_ok_def)
      then show False using page_addr_inj [OF assms(1) r(2)] used_bound [OF assms(2)] r(1) p(3) by blast
    qed
    then have "vm_destroy L pt w = Inr w'" "used w' = used v"
      using w' 2(2) p(3) t(2) by (auto simp: vm_destroy_def freed_def)
    then show ?thesis using 2 content unfolding create_is_build [OF assms(4)] by auto
  qed
qed

theorem vm_space_lifecycle_witness:
  "\<exists>pt v'. vm_create_user sample_layout [1, 2, 3] 0 blank_vm = Inr (pt, v') \<and> pt \<noteq> 0 \<and> vm_mem v' 0x80600002 = 3"
proof -
  obtain pt v' where "vm_create_user sample_layout [1, 2, 3] 0 blank_vm = Inr (pt, v')" "pt \<noteq> 0"
    "\<forall>i < 20480. vm_mem v' (user_page sample_layout 0 0 + of_nat i) = (if i < 16384 \<and> i < 3 then [1, 2, 3] ! i else 0)"
    using vm_space_lifecycle [OF sample_layout_ok(1) blank_vm_ok(1,2), of 0 "[1, 2, 3]"] sample_layout_ok(2) blank_vm_ok(3) by auto
  moreover from this(3) have "vm_mem v' (user_page sample_layout 0 0 + of_nat 2) = 3" by (auto dest: spec [of _ 2])
  ultimately show ?thesis by (auto simp: user_page_def sample_layout_def)
qed

lemma clone_same_view:
  assumes "layout_ok L" "vm_reachable L (v, T)" "T pt = Some s" "d < NPROC" "d \<notin> ran T"
    and "vm_clone_user L (int d) (int s) v = Inr (pt', v')" "pt' \<noteq> 0"
  shows "copyin L pt' va n v' = copyin L pt va n v"
proof -
  obtain D where D: "spaces_ok L v T D" "user_table L v pt s (D pt)" "s < NPROC" by (rule reachable_table [OF assms(1-3)])
  have ok: "vm_ok v" "kernel_ok L v" using D(1) by (simp_all add: spaces_ok_def)
  have ne: "d \<noteq> s" using assms(3,5) by (auto simp: ran_def)
  let ?g = "memcpy (user_page L d 0) (user_page L s 0) (USER_TOTAL_PAGES * 4096)"
  have "made L d pt' v v' \<and> vm_mem v' = ?g (vm_mem v)"
    by (cases rule: build_space_cases [OF assms(1,4) ok, of ?g])
      (use assms(6,7) clone_is_build [OF assms(4) D(3), of L v] in auto)
  then have t: "user_table L v' pt' d (used v' - used v)" "vm_mem v' = ?g (vm_mem v)" unfolding made_def by blast+
  show ?thesis
    unfolding copyin_user_bytes [OF assms(1,4) t(1)] copyin_user_bytes [OF assms(1) D(3,2)] t(2)
    using clone_view [OF assms(1,4) D(3) ne] by simp
qed

text \<open>
  \<^verbatim>\<open>vm_clone_user\<close>, when it succeeds, gives the child the view of the parent: every read of user memory
  returns in the child what it returns in the parent.
\<close>

theorem vm_clone_user_copies:
  assumes "layout_ok L" "vm_reachable L (v, T)" "T pt = Some s" "d < NPROC" "d \<notin> ran T"
    and "vm_clone_user L (int d) (int s) v = Inr (pt', v')" "pt' \<noteq> 0"
  shows "copyin L pt' va n v' = copyin L pt va n v"
  by (rule clone_same_view [OF assms])

theorem vm_clone_user_copies_witness:
  "\<exists>v T pt v' pt'. vm_reachable sample_layout (v, T) \<and> T pt = Some 0 \<and>
     vm_clone_user sample_layout 1 0 v = Inr (pt', v') \<and> pt' \<noteq> 0 \<and>
     copyin sample_layout pt' 0x40000000 8 v' = copyin sample_layout pt 0x40000000 8 v"
proof -
  obtain v pt where v: "made sample_layout 0 pt blank_vm v" "vm_reachable sample_layout (v, [pt \<mapsto> 0])" by (rule first_space)
  obtain D where D: "spaces_ok sample_layout v [pt \<mapsto> 0] D" using vm_reachable_inv [OF sample_layout_ok(1) v(2)] by auto
  have few: "card (used v) \<le> 984"
    using v(1) space_paths_card [OF sample_layout_ok] blank_vm_ok(3) by (simp add: made_def)
  have ok: "vm_ok v" "kernel_ok sample_layout v" using D by (simp_all add: spaces_ok_def)
  have t: "[pt \<mapsto> 0] pt = Some (0 :: nat)" by simp
  obtain pt' v' where c: "vm_clone_user sample_layout (int 1) (int 0) v = Inr (pt', v')" "pt' \<noteq> 0"
    by (rule clone_succeeds [OF sample_layout_ok _ ok few, of 1 0]) auto
  have e: "copyin sample_layout pt' 0x40000000 8 v' = copyin sample_layout pt 0x40000000 8 v"
    by (rule vm_clone_user_copies [OF sample_layout_ok(1) v(2) t _ _ c]) (auto simp: ran_def split: if_splits)
  have c': "vm_clone_user sample_layout 1 0 v = Inr (pt', v')" using c(1) by simp
  show ?thesis
    by (intro exI [of _ v] exI [of _ "[pt \<mapsto> 0]"] exI [of _ pt] exI [of _ v'] exI [of _ pt'] conjI v(2) t c' c(2) e)
qed

end
