(* ===== verification/Nano_Proc.thy ===== *)
theory Nano_Proc
  imports Nano_Isolation
begin

text \<open>
  Processes of NanoBoot, \<^verbatim>\<open>kernel/proc.h\<close>, \<^verbatim>\<open>kernel/proc.c\<close> and \<^verbatim>\<open>kernel/timer.c\<close>: the fixed table of
  processes, fork, exit, wait and sleep, and the round-robin scheduler, on top of the address spaces.
  A pointer to a process is its slot; the trap frame of a slot is kept in the process (\<^verbatim>\<open>tf\<close> always points to
  \<^verbatim>\<open>trapframes[i]\<close>). Process ids are unbounded integers.
\<close>

unbundle bit_operations_syntax

section \<open>Outcomes\<close>

text \<open>A kernel function returns, faults, or never returns.\<close>

datatype 'a run = Done 'a | Fault fault | Hang

fun run_bind :: "'a run \<Rightarrow> ('a \<Rightarrow> 'b run) \<Rightarrow> 'b run" where
  "run_bind (Done x) f = f x"
| "run_bind (Fault e) f = Fault e"
| "run_bind Hang f = Hang"

fun of_res :: "'a res \<Rightarrow> 'a run" where
  "of_res (Inl e) = Fault e"
| "of_res (Inr x) = Done x"

lemma run_bind_Done: "run_bind r f = Done y \<longleftrightarrow> (\<exists>x. r = Done x \<and> f x = Done y)"
  by (cases r) auto

section \<open>Data\<close>

datatype procstate = P_UNUSED | P_RUNNABLE | P_RUNNING | P_SLEEPING | P_ZOMBIE

record trapframe =
  tf_regs :: "64 word list"
  tf_sepc :: "64 word"
  tf_sstatus :: "64 word"
  tf_scause :: "64 word"
  tf_kernel_sp :: "64 word"

record proc =
  p_pid :: int
  p_state :: procstate
  p_exit_status :: int
  p_parent :: "nat option"
  p_pagetable :: addr
  p_tf :: trapframe
  p_wake_tick :: "64 word"

text \<open>What the linker and the boot code choose: addresses, and the bytes of the user image.\<close>

record machine =
  m_layout :: layout
  m_kernel_stacks :: addr
  m_idle_stack :: addr
  m_idle_loop :: addr
  m_image :: "8 word list"

datatype vector = kernel_trap_entry | user_trap_entry

record kernel =
  k_procs :: "proc list"
  k_current :: "nat option"
  k_next_pid :: int
  k_last_slot :: int
  k_ticks :: "64 word"
  k_idle_tf :: trapframe
  k_vm :: vm
  k_satp :: "64 word"
  k_stvec :: vector
  k_uart :: uart
  k_time :: "64 word \<Rightarrow> 64 word"   \<comment> \<open>the time counter of the hart, when it is read after so many ticks\<close>
  k_deadline :: "64 word"            \<comment> \<open>the time of the next interrupt, as requested\<close>
  k_stie :: bool                     \<comment> \<open>timer interrupts are enabled in sie\<close>

abbreviation proc_at :: "kernel \<Rightarrow> nat \<Rightarrow> proc" where
  "proc_at k i \<equiv> k_procs k ! i"

definition set_proc :: "nat \<Rightarrow> (proc \<Rightarrow> proc) \<Rightarrow> kernel \<Rightarrow> kernel" where
  "set_proc i f k = k\<lparr>k_procs := (k_procs k)[i := f (k_procs k ! i)]\<rparr>"

definition set_reg :: "nat \<Rightarrow> 64 word \<Rightarrow> trapframe \<Rightarrow> trapframe" where
  "set_reg r x tf = tf\<lparr>tf_regs := (tf_regs tf)[r := x]\<rparr>"

section \<open>Trap frames\<close>

definition SSTATUS_SPIE :: "64 word" where "SSTATUS_SPIE = push_bit 5 1"
definition SSTATUS_SPP :: "64 word" where "SSTATUS_SPP = push_bit 8 1"

definition tf_clear :: trapframe where
  "tf_clear = \<lparr>tf_regs = replicate 32 0, tf_sepc = 0, tf_sstatus = 0, tf_scause = 0, tf_kernel_sp = 0\<rparr>"

definition kstack_top :: "machine \<Rightarrow> nat \<Rightarrow> addr" where
  "kstack_top M slot = m_kernel_stacks M + of_nat slot * PGSIZE + PGSIZE"

definition prepare_user_tf :: "machine \<Rightarrow> nat \<Rightarrow> trapframe" where
  "prepare_user_tf M slot =
     set_reg 2 (USER_STACK_TOP - 16)
       (tf_clear\<lparr>tf_sepc := USER_BASE, tf_sstatus := SSTATUS_SPIE, tf_kernel_sp := kstack_top M slot\<rparr>)"

definition prepare_idle_tf :: "machine \<Rightarrow> trapframe" where
  "prepare_idle_tf M =
     set_reg 2 (m_idle_stack M + PGSIZE)
       (tf_clear\<lparr>tf_sepc := m_idle_loop M, tf_sstatus := SSTATUS_SPIE OR SSTATUS_SPP,
                 tf_kernel_sp := m_idle_stack M + PGSIZE\<rparr>)"

section \<open>The table\<close>

definition proc_init :: "machine \<Rightarrow> kernel \<Rightarrow> kernel" where
  "proc_init M k =
     k\<lparr>k_procs := map (\<lambda>i. \<lparr>p_pid = 0, p_state = P_UNUSED, p_exit_status = 0, p_parent = None, p_pagetable = 0,
                            p_tf = tf_clear\<lparr>tf_kernel_sp := kstack_top M i\<rparr>, p_wake_tick = 0\<rparr>) [0..<NPROC],
       k_current := None, k_next_pid := 1, k_last_slot := -1, k_idle_tf := prepare_idle_tf M\<rparr>"

definition unused_slot :: "kernel \<Rightarrow> nat option" where
  "unused_slot k = first_index (\<lambda>p. p_state p = P_UNUSED) (k_procs k)"

text \<open>The fields \<^verbatim>\<open>proc_create_init\<close> and \<^verbatim>\<open>proc_fork\<close> set before the address space is made.\<close>

definition claim_slot :: "nat \<Rightarrow> nat option \<Rightarrow> kernel \<Rightarrow> kernel" where
  "claim_slot i par k =
     (set_proc i (\<lambda>p. p\<lparr>p_pid := k_next_pid k, p_state := P_RUNNABLE, p_parent := par, p_exit_status := 0,
                        p_wake_tick := 0\<rparr>) k)\<lparr>k_next_pid := k_next_pid k + 1\<rparr>"

definition proc_create_init :: "machine \<Rightarrow> kernel \<Rightarrow> (nat option \<times> kernel) run" where
  "proc_create_init M k =
     (case unused_slot k of
        None \<Rightarrow> Done (None, k)
      | Some i \<Rightarrow>
          let k1 = claim_slot i None k in
          run_bind (of_res (vm_create_user (m_layout M) (m_image M) (int i) (k_vm k1))) (\<lambda>(pt, v).
            let k2 = set_proc i (\<lambda>p. p\<lparr>p_pagetable := pt\<rparr>) (k1\<lparr>k_vm := v\<rparr>) in
            if pt = 0 then Done (None, set_proc i (\<lambda>p. p\<lparr>p_state := P_UNUSED\<rparr>) k2)
            else Done (Some i, set_proc i (\<lambda>p. p\<lparr>p_tf := prepare_user_tf M i\<rparr>) k2)))"

definition proc_by_pid :: "int \<Rightarrow> kernel \<Rightarrow> nat option" where
  "proc_by_pid pid k = first_index (\<lambda>p. p_state p \<noteq> P_UNUSED \<and> p_pid p = pid) (k_procs k)"

definition proc_fork :: "machine \<Rightarrow> trapframe \<Rightarrow> kernel \<Rightarrow> (int \<times> kernel) run" where
  "proc_fork M parent_tf k =
     (case k_current k of
        None \<Rightarrow> Done (-1, k)
      | Some parent \<Rightarrow>
          (case unused_slot k of
             None \<Rightarrow> Done (-1, k)
           | Some i \<Rightarrow>
               let k1 = claim_slot i (Some parent) k in
               run_bind (of_res (vm_clone_user (m_layout M) (int i) (int parent) (k_vm k1))) (\<lambda>(pt, v).
                 let k2 = set_proc i (\<lambda>p. p\<lparr>p_pagetable := pt\<rparr>) (k1\<lparr>k_vm := v\<rparr>) in
                 if pt = 0 then Done (-1, set_proc i (\<lambda>p. p\<lparr>p_state := P_UNUSED\<rparr>) k2)
                 else
                   let k3 = set_proc i (\<lambda>p. p\<lparr>p_tf := set_reg 10 0 (parent_tf\<lparr>tf_kernel_sp := kstack_top M i\<rparr>)\<rparr>) k2 in
                   Done (p_pid (proc_at k3 i), k3))))"

section \<open>Scheduling\<close>

text \<open>The slots in the order the scheduler looks at them.\<close>

definition schedule_start :: "kernel \<Rightarrow> int" where
  "schedule_start k = (case k_current k of Some c \<Rightarrow> int c | None \<Rightarrow> k_last_slot k)"

definition schedule_order :: "int \<Rightarrow> nat list" where
  "schedule_order start = map (\<lambda>n. nat ((start + int n) mod int NPROC)) [1..<Suc NPROC]"

definition proc_schedule :: "kernel \<Rightarrow> nat option \<times> kernel" where
  "proc_schedule k =
     (case find (\<lambda>i. p_state (proc_at k i) = P_RUNNABLE) (schedule_order (schedule_start k)) of
        None \<Rightarrow> (None, k)
      | Some i \<Rightarrow> (Some i, set_proc i (\<lambda>p. p\<lparr>p_state := P_RUNNING\<rparr>) (k\<lparr>k_last_slot := int i\<rparr>)))"

text \<open>\<^verbatim>\<open>current_proc = proc_schedule()\<close>.\<close>

definition reschedule :: "kernel \<Rightarrow> kernel" where
  "reschedule k = (case proc_schedule k of (next, k') \<Rightarrow> k'\<lparr>k_current := next\<rparr>)"

section \<open>Exit, wait and sleep\<close>

definition vm_switch :: "addr \<Rightarrow> kernel \<Rightarrow> kernel" where
  "vm_switch pt k = (if pt = 0 then k else k\<lparr>k_satp := vm_satp pt\<rparr>)"

definition switch_to_kernel_pt :: "machine \<Rightarrow> kernel \<Rightarrow> kernel run" where
  "switch_to_kernel_pt M k =
     run_bind (of_res (kernel_pagetable (m_layout M) (k_vm k))) (\<lambda>(pt, v). Done (vm_switch pt (k\<lparr>k_vm := v\<rparr>)))"

definition destroy_pagetable :: "machine \<Rightarrow> nat \<Rightarrow> kernel \<Rightarrow> kernel run" where
  "destroy_pagetable M i k =
     run_bind (of_res (vm_destroy (m_layout M) (p_pagetable (proc_at k i)) (k_vm k))) (\<lambda>v.
       Done (set_proc i (\<lambda>p. p\<lparr>p_pagetable := 0\<rparr>) (k\<lparr>k_vm := v\<rparr>)))"

definition free_slot :: "nat \<Rightarrow> kernel \<Rightarrow> kernel" where
  "free_slot i k = set_proc i (\<lambda>p. p\<lparr>p_state := P_UNUSED, p_pid := 0, p_parent := None\<rparr>) k"

definition waiting :: "proc \<Rightarrow> bool" where
  "waiting p \<longleftrightarrow> p_state p = P_SLEEPING \<and> p_wake_tick p = 0"

definition proc_exit :: "machine \<Rightarrow> int \<Rightarrow> kernel \<Rightarrow> kernel run" where
  "proc_exit M status k =
     (case k_current k of
        None \<Rightarrow> Done k
      | Some c \<Rightarrow>
          let k1 = set_proc c (\<lambda>p. p\<lparr>p_exit_status := status\<rparr>) k; p = proc_at k1 c in
          (case p_parent p of
             None \<Rightarrow>
               run_bind (switch_to_kernel_pt M k1) (\<lambda>k2.
                 run_bind (destroy_pagetable M c k2) (\<lambda>k3. Done (reschedule (free_slot c k3))))
           | Some q \<Rightarrow>
               if waiting (proc_at k1 q) then
                 let k2 = set_proc q (\<lambda>r. r\<lparr>p_tf := set_reg 10 (of_int (p_pid p)) (p_tf r), p_state := P_RUNNABLE\<rparr>) k1 in
                 run_bind (switch_to_kernel_pt M k2) (\<lambda>k3.
                   run_bind (destroy_pagetable M c k3) (\<lambda>k4. Done (reschedule (free_slot c k4))))
               else Done (reschedule (set_proc c (\<lambda>p. p\<lparr>p_state := P_ZOMBIE\<rparr>) k1))))"

text \<open>The value \<^verbatim>\<open>proc_wait\<close> returns, and the status it stores when it reaps a child.\<close>

definition zombie_of :: "nat \<Rightarrow> proc \<Rightarrow> bool" where
  "zombie_of parent p \<longleftrightarrow> p_state p = P_ZOMBIE \<and> p_parent p = Some parent"

definition have_child :: "nat \<Rightarrow> kernel \<Rightarrow> bool" where
  "have_child parent k \<longleftrightarrow> (\<exists>p \<in> set (k_procs k). p_state p \<noteq> P_UNUSED \<and> p_parent p = Some parent)"

definition proc_wait :: "machine \<Rightarrow> kernel \<Rightarrow> ((int \<times> int option) \<times> kernel) run" where
  "proc_wait M k =
     (case k_current k of
        None \<Rightarrow> Done ((-1, None), k)
      | Some c \<Rightarrow>
          (case first_index (zombie_of c) (k_procs k) of
             Some i \<Rightarrow>
               let p = proc_at k i in
               run_bind (destroy_pagetable M i k) (\<lambda>k1. Done ((p_pid p, Some (p_exit_status p)), free_slot i k1))
           | None \<Rightarrow>
               if \<not> have_child c k then Done ((-1, None), k)
               else Done ((0, None), reschedule (set_proc c (\<lambda>p. p\<lparr>p_state := P_SLEEPING\<rparr>) k))))"

definition timer_now :: "kernel \<Rightarrow> 64 word" where
  "timer_now k = k_ticks k"

definition proc_sleep :: "64 word \<Rightarrow> kernel \<Rightarrow> kernel" where
  "proc_sleep ticks k =
     (case k_current k of
        None \<Rightarrow> k
      | Some c \<Rightarrow>
          if ticks = 0 then k
          else reschedule (set_proc c (\<lambda>p. p\<lparr>p_wake_tick := timer_now k + ticks, p_state := P_SLEEPING\<rparr>) k))"

definition wake :: "64 word \<Rightarrow> proc \<Rightarrow> proc" where
  "wake now p =
     (if p_state p = P_SLEEPING \<and> p_wake_tick p \<noteq> 0 \<and> p_wake_tick p \<le> now
      then p\<lparr>p_wake_tick := 0, p_state := P_RUNNABLE\<rparr> else p)"

definition proc_wakeup :: "64 word \<Rightarrow> kernel \<Rightarrow> kernel" where
  "proc_wakeup now k = k\<lparr>k_procs := map (wake now) (k_procs k)\<rparr>"

definition proc_tick :: "kernel \<Rightarrow> kernel" where
  "proc_tick k = proc_wakeup (timer_now k) k"

text \<open>The time counter, and the request to the firmware for the next timer interrupt.\<close>

definition TIMER_TICKS :: "64 word" where
  "TIMER_TICKS = 100000"

definition r_time :: "kernel \<Rightarrow> 64 word" where
  "r_time k = k_time k (k_ticks k)"

definition sbi_time_set :: "64 word \<Rightarrow> kernel \<Rightarrow> kernel" where
  "sbi_time_set t k = k\<lparr>k_deadline := t\<rparr>"

definition timer_init :: "kernel \<Rightarrow> kernel" where
  "timer_init k = (let k1 = k\<lparr>k_ticks := 0\<rparr> in (sbi_time_set (r_time k1 + TIMER_TICKS) k1)\<lparr>k_stie := True\<rparr>)"

definition timer_tick :: "kernel \<Rightarrow> kernel" where
  "timer_tick k = (let k1 = proc_tick (k\<lparr>k_ticks := k_ticks k + 1\<rparr>) in sbi_time_set (r_time k1 + TIMER_TICKS) k1)"

declare proc_wakeup_def [tick_defs] proc_tick_def [tick_defs] timer_tick_def [tick_defs] sbi_time_set_def [tick_defs]
  Let_def [tick_defs]

lemma timer_init_simps [simp]:
  "k_procs (timer_init k) = k_procs k" "k_current (timer_init k) = k_current k" "k_next_pid (timer_init k) = k_next_pid k"
  "k_last_slot (timer_init k) = k_last_slot k" "k_vm (timer_init k) = k_vm k" "k_uart (timer_init k) = k_uart k" "k_ticks (timer_init k) = 0"
  by (simp_all add: timer_init_def sbi_time_set_def Let_def)

section \<open>Listing the processes\<close>

fun proc_state_name :: "procstate \<Rightarrow> string" where
  "proc_state_name P_UNUSED = ''UNUSED''"
| "proc_state_name P_RUNNABLE = ''RUNNABLE''"
| "proc_state_name P_RUNNING = ''RUNNING''"
| "proc_state_name P_SLEEPING = ''SLEEPING''"
| "proc_state_name P_ZOMBIE = ''ZOMBIE''"

abbreviation tab :: char where
  "tab \<equiv> CHR 0x09"

fun ps_lines :: "proc list \<Rightarrow> uart \<Rightarrow> uart option" where
  "ps_lines [] u = Some u"
| "ps_lines (p # ps) u =
     (if p_state p = P_UNUSED then ps_lines ps u
      else Option.bind (uart_print_int (of_int (p_pid p)) u) (\<lambda>u1.
        Option.bind (uart_puts [tab] u1) (\<lambda>u2.
          Option.bind (uart_puts (proc_state_name (p_state p)) u2) (\<lambda>u3.
            Option.bind (uart_putc newline u3) (ps_lines ps)))))"

definition proc_ps :: "kernel \<Rightarrow> uart option" where
  "proc_ps k = Option.bind (uart_puts (''PID'' @ [tab] @ ''STATE'' @ [newline]) (k_uart k)) (ps_lines (k_procs k))"

end
