(* ===== verification/Nano_Kernel.thy ===== *)
theory Nano_Kernel
  imports Nano_Proc
begin

text \<open>
  The kernel of NanoBoot as the user programs see it: system calls (\<^verbatim>\<open>kernel/syscall.c\<close>), traps
  (\<^verbatim>\<open>kernel/trap.c\<close>) and the start (\<^verbatim>\<open>kernel/main.c\<close>). A trap is handled with interrupts off, so one handler is one
  step.
\<close>

unbundle bit_operations_syntax

section \<open>System calls\<close>

definition of_uart :: "uart option \<Rightarrow> kernel \<Rightarrow> kernel run" where
  "of_uart u k = (case u of None \<Rightarrow> Hang | Some u' \<Rightarrow> Done (k\<lparr>k_uart := u'\<rparr>))"

definition byte_char :: "8 word \<Rightarrow> char" where
  "byte_char b = char_of (unat b)"

definition char_byte :: "char \<Rightarrow> 8 word" where
  "char_byte c = of_nat (of_char c)"

text \<open>The page table of the current process; without one the access is a null dereference.\<close>

definition current_pt :: "kernel \<Rightarrow> addr run" where
  "current_pt k = (case k_current k of None \<Rightarrow> Fault NullDeref | Some c \<Rightarrow> Done (p_pagetable (proc_at k c)))"

definition sys_write :: "machine \<Rightarrow> trapframe \<Rightarrow> kernel \<Rightarrow> (int \<times> kernel) run" where
  "sys_write M tf k =
     (let uva = tf_regs tf ! 10; len = min (unat (tf_regs tf ! 11)) 1024 in
      run_bind (current_pt k) (\<lambda>pt.
        run_bind (of_res (copyin (m_layout M) pt uva len (k_vm k))) (\<lambda>r.
          case r of
            None \<Rightarrow> Done (-1, k)
          | Some buf \<Rightarrow>
              run_bind (of_uart (uart_puts (map byte_char buf @ [NUL]) (k_uart k)) k) (\<lambda>k1. Done (int len, k1)))))"

text \<open>The loop of \<^verbatim>\<open>sys_read\<close>: \<open>i\<close> characters are stored, \<open>n\<close> are left.\<close>

primrec read_loop :: "machine \<Rightarrow> addr \<Rightarrow> addr \<Rightarrow> nat \<Rightarrow> nat \<Rightarrow> kernel \<Rightarrow> (int \<times> kernel) run" where
  "read_loop M pt uva i 0 k = Done (int i, k)"
| "read_loop M pt uva i (Suc n) k =
     (case uart_getc (k_uart k) of
        None \<Rightarrow> Hang
      | Some (c, u) \<Rightarrow>
          run_bind (of_res (copyout (m_layout M) pt (uva + of_nat i) [char_byte c] (k_vm k))) (\<lambda>(rc, v).
            let k1 = k\<lparr>k_uart := u, k_vm := v\<rparr> in
            if rc < 0 then Done (-1, k1)
            else if c = newline then Done (int (Suc i), k1)
            else read_loop M pt uva (Suc i) n k1))"

definition sys_read :: "machine \<Rightarrow> trapframe \<Rightarrow> kernel \<Rightarrow> (int \<times> kernel) run" where
  "sys_read M tf k =
     (let uva = tf_regs tf ! 10; len = unat (tf_regs tf ! 11) in
      if len = 0 \<or> len > 256 then Done (-1, k)
      else run_bind (current_pt k) (\<lambda>pt. read_loop M pt uva 0 len k))"

definition sys_fork :: "machine \<Rightarrow> trapframe \<Rightarrow> kernel \<Rightarrow> (int \<times> kernel) run" where
  "sys_fork M tf k = proc_fork M tf k"

definition sys_wait :: "machine \<Rightarrow> kernel \<Rightarrow> (int \<times> kernel) run" where
  "sys_wait M k = run_bind (proc_wait M k) (\<lambda>((pid, status), k1). Done (pid, k1))"

definition sys_getpid :: "kernel \<Rightarrow> int" where
  "sys_getpid k = (case k_current k of None \<Rightarrow> -1 | Some c \<Rightarrow> p_pid (proc_at k c))"

definition sys_sleep :: "trapframe \<Rightarrow> kernel \<Rightarrow> int \<times> kernel" where
  "sys_sleep tf k =
     (let n = min (tf_regs tf ! 10) 1000000 in
      if n = 0 then (0, k) else (0, proc_sleep n k))"

definition sys_ps :: "kernel \<Rightarrow> (int \<times> kernel) run" where
  "sys_ps k = run_bind (of_uart (proc_ps k) k) (\<lambda>k1. Done (0, k1))"

definition sys_ls :: "kernel \<Rightarrow> (int \<times> kernel) run" where
  "sys_ls k = run_bind (of_uart (uart_puts ramfs_ls (k_uart k)) k) (\<lambda>k1. Done (0, k1))"

abbreviation MAX_FILE_NAME :: nat where "MAX_FILE_NAME \<equiv> 32"

definition sys_cat :: "machine \<Rightarrow> trapframe \<Rightarrow> kernel \<Rightarrow> (int \<times> kernel) run" where
  "sys_cat M tf k =
     run_bind (current_pt k) (\<lambda>pt.
       run_bind (of_res (copyinstr (m_layout M) pt (tf_regs tf ! 10) MAX_FILE_NAME (k_vm k))) (\<lambda>r.
         case r of
           None \<Rightarrow> Done (-1, k)
         | Some name \<Rightarrow>
             (case ramfs_cat (map byte_char name) of (rc, text) \<Rightarrow>
                run_bind (of_uart (uart_puts text (k_uart k)) k) (\<lambda>k1. Done (rc, k1)))))"

definition SYS_READ :: "64 word" where "SYS_READ = 0"
definition SYS_WRITE :: "64 word" where "SYS_WRITE = 1"
definition SYS_FORK :: "64 word" where "SYS_FORK = 2"
definition SYS_EXIT :: "64 word" where "SYS_EXIT = 3"
definition SYS_WAIT :: "64 word" where "SYS_WAIT = 4"
definition SYS_GETPID :: "64 word" where "SYS_GETPID = 5"
definition SYS_SLEEP :: "64 word" where "SYS_SLEEP = 6"
definition SYS_PS :: "64 word" where "SYS_PS = 7"
definition SYS_LS :: "64 word" where "SYS_LS = 8"
definition SYS_CAT :: "64 word" where "SYS_CAT = 9"

lemmas sysnums = SYS_READ_def SYS_WRITE_def SYS_FORK_def SYS_EXIT_def SYS_WAIT_def SYS_GETPID_def
  SYS_SLEEP_def SYS_PS_def SYS_LS_def SYS_CAT_def

definition int_arg :: "64 word \<Rightarrow> int" where
  "int_arg x = sint (ucast x :: 32 word)"

text \<open>The call itself; \<open>c\<close> is the slot whose trap frame is handled.\<close>

definition do_syscall :: "machine \<Rightarrow> trapframe \<Rightarrow> kernel \<Rightarrow> (int \<times> kernel) run" where
  "do_syscall M tf k =
     (let n = tf_regs tf ! 17 in
      if n = SYS_READ then sys_read M tf k
      else if n = SYS_WRITE then sys_write M tf k
      else if n = SYS_FORK then sys_fork M tf k
      else if n = SYS_EXIT then run_bind (proc_exit M (int_arg (tf_regs tf ! 10)) k) (\<lambda>k1. Done (0, k1))
      else if n = SYS_WAIT then sys_wait M k
      else if n = SYS_GETPID then Done (sys_getpid k, k)
      else if n = SYS_SLEEP then Done (sys_sleep tf k)
      else if n = SYS_PS then sys_ps k
      else if n = SYS_LS then sys_ls k
      else if n = SYS_CAT then sys_cat M tf k
      else Done (-1, k))"

definition syscall_dispatch :: "machine \<Rightarrow> nat \<Rightarrow> kernel \<Rightarrow> kernel run" where
  "syscall_dispatch M c k =
     run_bind (do_syscall M (p_tf (proc_at k c)) k) (\<lambda>(ret, k1).
       Done (set_proc c (\<lambda>p. p\<lparr>p_tf := set_reg 10 (of_int ret) (p_tf p)\<rparr>) k1))"

section \<open>Traps\<close>

definition SCAUSE_STIMER :: "64 word" where "SCAUSE_STIMER = push_bit 63 1 OR 5"
definition SCAUSE_ECALL_U :: "64 word" where "SCAUSE_ECALL_U = 8"

text \<open>The trap frame the trap returns to: that of the idle loop, or that of a slot.\<close>

datatype target = Idle | User nat

definition switch_to :: "machine \<Rightarrow> nat option \<Rightarrow> kernel \<Rightarrow> kernel run" where
  "switch_to M p k =
     (case p of
        None \<Rightarrow> run_bind (switch_to_kernel_pt M k) (\<lambda>k1. Done (k1\<lparr>k_stvec := kernel_trap_entry\<rparr>))
      | Some i \<Rightarrow>
          let k1 = set_proc i (\<lambda>p. p\<lparr>p_state := P_RUNNING\<rparr>) k in
          Done ((vm_switch (p_pagetable (proc_at k1 i)) k1)\<lparr>k_stvec := user_trap_entry\<rparr>))"

definition idle_target :: "machine \<Rightarrow> kernel \<Rightarrow> (target \<times> kernel) run" where
  "idle_target M k = run_bind (switch_to M None k) (\<lambda>k1. Done (Idle, k1))"

text \<open>
  The loop that waits for a process to become runnable. One round waits for one timer interval (the
  time counter runs on its own) and counts a tick; the argument bounds the rounds, and \<open>Hang\<close> says that they
  do not suffice.
\<close>

primrec idle_wait :: "nat \<Rightarrow> kernel \<Rightarrow> kernel run" where
  "idle_wait 0 k = (if k_current k \<noteq> None then Done k else Hang)"
| "idle_wait (Suc n) k = (if k_current k \<noteq> None then Done k else idle_wait n (reschedule (timer_tick k)))"

definition timer_trap :: "kernel \<Rightarrow> kernel" where
  "timer_trap k =
     (let k1 = timer_tick k in
      case k_current k1 of
        None \<Rightarrow> k1
      | Some c \<Rightarrow>
          if p_state (proc_at k1 c) = P_RUNNING then
            (case proc_schedule (set_proc c (\<lambda>p. p\<lparr>p_state := P_RUNNABLE\<rparr>) k1) of
               (None, k2) \<Rightarrow> k2\<lparr>k_current := None\<rparr>
             | (Some i, k2) \<Rightarrow> if i \<noteq> c then k2\<lparr>k_current := Some i\<rparr> else k2)
          else k1)"

definition bad_trap :: "machine \<Rightarrow> trapframe \<Rightarrow> kernel \<Rightarrow> kernel run" where
  "bad_trap M tf k =
     run_bind (of_uart
       (Option.bind (uart_puts ([newline] @ ''NanoBoot: unexpected user trap scause='') (k_uart k)) (\<lambda>u1.
          Option.bind (uart_print_u64 (tf_scause tf) u1) (\<lambda>u2.
            Option.bind (uart_puts '' sepc='' u2) (\<lambda>u3.
              Option.bind (uart_print_u64 (tf_sepc tf) u3) (uart_puts [newline]))))) k)
       (proc_exit M (-1))"

text \<open>The end of \<^verbatim>\<open>trap_handler\<close>: a process runs.\<close>

definition resume :: "machine \<Rightarrow> kernel \<Rightarrow> (target \<times> kernel) run" where
  "resume M k =
     (case k_current k of
        None \<Rightarrow> Fault NullDeref
      | Some c \<Rightarrow>
          let k1 = (if p_state (proc_at k c) \<noteq> P_RUNNING
                    then (case proc_schedule k of (None, k') \<Rightarrow> k' | (Some i, k') \<Rightarrow> k'\<lparr>k_current := Some i\<rparr>)
                    else k) in
          run_bind (switch_to M (k_current k1) k1) (\<lambda>k2.
            case k_current k2 of None \<Rightarrow> Fault NullDeref | Some i \<Rightarrow> Done (User i, k2)))"

definition trap_handler :: "machine \<Rightarrow> nat \<Rightarrow> trapframe \<Rightarrow> kernel \<Rightarrow> (target \<times> kernel) run" where
  "trap_handler M rounds tf k =
     (case k_current k of
        None \<Rightarrow> idle_target M k
      | Some c \<Rightarrow>
          let k1 = set_proc c (\<lambda>p. p\<lparr>p_tf := tf\<rparr>) k in
          run_bind
            (if tf_scause tf = SCAUSE_ECALL_U then
               syscall_dispatch M c (set_proc c (\<lambda>p. p\<lparr>p_tf := (p_tf p)\<lparr>tf_sepc := tf_sepc (p_tf p) + 4\<rparr>\<rparr>) k1)
             else if tf_scause tf = SCAUSE_STIMER then Done (timer_trap k1)
             else bad_trap M tf k1)
            (\<lambda>k2. run_bind (idle_wait rounds k2) (resume M)))"

definition kernel_trap_handler :: "machine \<Rightarrow> 64 word \<Rightarrow> kernel \<Rightarrow> (target \<times> kernel) run" where
  "kernel_trap_handler M scause k =
     (if scause \<noteq> SCAUSE_STIMER then Hang
      else
        let k1 = timer_tick k;
            k2 = (case k_current k1 of
                    None \<Rightarrow> reschedule k1
                  | Some c \<Rightarrow> if p_state (proc_at k1 c) \<noteq> P_RUNNING then reschedule k1 else k1) in
        (case k_current k2 of
           None \<Rightarrow> idle_target M k2
         | Some c \<Rightarrow> run_bind (switch_to M (Some c) k2) (\<lambda>k3. Done (User c, k3))))"

section \<open>Starting\<close>

definition print_banner :: string where
  "print_banner =
     [newline] @ ''========================================'' @ [newline] @
     '' NanoBoot - RISC-V Boot-to-Shell Kernel'' @ [newline] @
     ''========================================'' @ [newline] @
     ''boot: supervisor mode / QEMU virt'' @ [newline] @
     ''vm  : Sv39 per-process page tables'' @ [newline] @
     ''trap: stvec + ecall + timer interrupt'' @ [newline] @
     ''sched: fixed table / round-robin'' @ [newline, newline]"

text \<open>
  \<^verbatim>\<open>panic\<close> prints its message and waits for ever. \<^verbatim>\<open>main\<close>: the state and the arguments with which \<^verbatim>\<open>enter_user\<close> is
  called, or \<open>Hang\<close> for a panic or a console that is never ready.
\<close>

definition panic :: "string \<Rightarrow> kernel \<Rightarrow> 'a run" where
  "panic msg k =
     run_bind (of_uart (Option.bind (uart_puts ([newline] @ ''PANIC: '') (k_uart k)) (\<lambda>u1.
         Option.bind (uart_puts msg u1) (uart_puts [newline]))) k)
       (\<lambda>k1. Hang)"

lemma panic_hangs [simp]: "panic msg k = Hang"
  unfolding panic_def by (cases "of_uart (Option.bind (uart_puts ([newline] @ ''PANIC: '') (k_uart k)) (\<lambda>u1.
      Option.bind (uart_puts msg u1) (uart_puts [newline]))) k") (auto simp: of_uart_def split: option.splits)

definition main :: "machine \<Rightarrow> kernel \<Rightarrow> (nat \<times> 64 word \<times> kernel) run" where
  "main M k =
     run_bind (of_uart (uart_puts print_banner (uart_init (k_uart k))) k) (\<lambda>k1.
       let k2 = proc_init M (k1\<lparr>k_vm := vm_init (k_vm k1)\<rparr>);
           k3 = timer_init (k2\<lparr>k_stvec := kernel_trap_entry\<rparr>) in
       run_bind (proc_create_init M k3) (\<lambda>(i, k4).
         case i of
           None \<Rightarrow> panic ''cannot create init process'' k4
         | Some _ \<Rightarrow>
             let k5 = reschedule k4 in
             (case k_current k5 of
                None \<Rightarrow> panic ''scheduler found no initial process'' k5
              | Some c \<Rightarrow>
                  run_bind (of_uart (Option.bind (uart_puts ''init: pid='' (k_uart k5)) (\<lambda>u1.
                      Option.bind (uart_print_int (of_int (p_pid (proc_at k5 c))) u1)
                        (uart_puts ('' ready'' @ [newline])))) k5)
                    (\<lambda>k6. Done (c, vm_satp (p_pagetable (proc_at k6 c)), k6)))))"

end
