(* ===== verification/Nano_Sched.thy ===== *)
theory Nano_Sched
  imports Nano_Kernel
begin

text \<open>
  The process table and the scheduler of NanoBoot: the invariant of the table, what the scheduler
  chooses, and that it is fair.
\<close>

section \<open>The order of the scheduler\<close>

lemma schedule_order_set: "set (schedule_order s) = {..<NPROC}"
proof -
  have "\<exists>n \<in> {1..<9}. j = nat ((s + int n) mod 8)" if "j < 8" for j
  proof -
    let ?n = "nat ((int j - s - 1) mod 8) + 1"
    have "(s + int ?n) mod 8 = (s + 1 + (int j - s - 1) mod 8) mod 8" by (simp add: algebra_simps)
    also have "\<dots> = int j mod 8" by (simp add: mod_add_right_eq)
    finally have "j = nat ((s + int ?n) mod 8)" using that by simp
    moreover have "?n \<in> {1..<9}" by (auto simp: nat_less_iff)
    ultimately show ?thesis by blast
  qed
  then have "{..<NPROC} \<subseteq> set (schedule_order s)" by (auto simp: schedule_order_def simp del: upt_Suc)
  moreover have "set (schedule_order s) \<subseteq> {..<NPROC}" by (auto simp: schedule_order_def nat_less_iff simp del: upt_Suc)
  ultimately show ?thesis by blast
qed

text \<open>How many places after \<open>s\<close> slot \<open>j\<close> comes, from 1 to 8.\<close>

definition distance :: "int \<Rightarrow> nat \<Rightarrow> nat" where
  "distance s j = nat ((int j - s - 1) mod 8) + 1"

lemma distance_bounds: "1 \<le> distance s j" "distance s j \<le> NPROC"
  by (auto simp: distance_def nat_less_iff Suc_le_eq)

lemma schedule_order_nth:
  assumes "n < NPROC"
  shows "schedule_order s ! n = nat ((s + int n + 1) mod int NPROC)"
  using assms by (simp add: schedule_order_def ac_simps del: upt_Suc)

lemma schedule_order_distance:
  assumes "j < NPROC"
  shows "schedule_order s ! (distance s j - 1) = j"
proof -
  have lt: "distance s j - 1 < NPROC" by (simp add: distance_def nat_less_iff)
  have "(s + int (distance s j - 1) + 1) mod 8 = (s + 1 + (int j - s - 1) mod 8) mod 8"
    by (simp add: distance_def algebra_simps)
  also have "\<dots> = int j" using assms by (simp add: mod_add_right_eq)
  finally show ?thesis using schedule_order_nth [OF lt, of s] by simp
qed

lemma distance_unique:
  assumes "j < NPROC" "n < NPROC" "schedule_order s ! n = j"
  shows "distance s j = Suc n"
proof -
  have "int j = (s + int n + 1) mod 8" using assms(2,3) schedule_order_nth [OF assms(2), of s] by (auto simp: pos_mod_sign)
  then have "(int j - s - 1) mod 8 = (s + int n + 1 - s - 1) mod 8" by (metis mod_diff_left_eq diff_diff_eq)
  then show ?thesis using assms(2) by (simp add: distance_def)
qed

text \<open>Passing the turn from \<open>s\<close> to a slot \<open>i\<close> that is not beyond \<open>j\<close> brings \<open>j\<close> nearer.\<close>

lemma distance_step:
  assumes "i < NPROC" "j < NPROC" "distance s i < distance s j"
  shows "distance (int i) j = distance s j - distance s i"
proof -
  let ?a = "(int i - s - 1) mod 8" and ?b = "(int j - s - 1) mod 8"
  have lt: "?a < ?b" using assms(3) by (simp add: distance_def nat_less_iff zless_nat_conj pos_mod_sign)
  have "(?b - ?a) mod 8 = ((int j - s - 1) - (int i - s - 1)) mod 8" by (simp only: mod_diff_eq)
  then have "(?b - ?a) mod 8 = (int j - int i) mod 8" by simp
  then have "((?b - ?a) mod 8 - 1) mod 8 = ((int j - int i) mod 8 - 1) mod 8" by simp
  then have "(?b - ?a - 1) mod 8 = (int j - int i - 1) mod 8"
    using mod_diff_left_eq [of "?b - ?a" 8 1] mod_diff_left_eq [of "int j - int i" 8 1] by metis
  then have "(int j - int i - 1) mod 8 = (?b - ?a - 1) mod 8" ..
  also have "\<dots> = ?b - ?a - 1" using lt by (intro mod_pos_pos_trivial) (auto simp: pos_mod_bound intro: less_trans)
  finally have "nat ((int j - int i - 1) mod 8) = nat ?b - Suc (nat ?a)" using lt by (simp add: nat_diff_distrib)
  moreover have "nat ?a < nat ?b" using lt by (simp add: nat_less_eq_zless)
  ultimately show ?thesis by (simp add: distance_def Suc_diff_Suc)
qed

section \<open>The table\<close>

abbreviation live :: "kernel \<Rightarrow> nat \<Rightarrow> bool" where
  "live k i \<equiv> p_state (proc_at k i) \<noteq> P_UNUSED"

definition procs_ok :: "kernel \<Rightarrow> bool" where
  "procs_ok k \<longleftrightarrow>
     length (k_procs k) = NPROC \<and> 0 < k_next_pid k \<and> -1 \<le> k_last_slot k \<and> k_last_slot k < int NPROC \<and>
     (\<forall>i < NPROC. live k i \<longrightarrow> 0 < p_pid (proc_at k i) \<and> p_pid (proc_at k i) < k_next_pid k) \<and>
     inj_on (\<lambda>i. p_pid (proc_at k i)) {i. i < NPROC \<and> live k i} \<and>
     (\<forall>i < NPROC. \<forall>q. p_parent (proc_at k i) = Some q \<longrightarrow> q < NPROC) \<and>
     (\<forall>i < NPROC. length (tf_regs (p_tf (proc_at k i))) = 32)"

text \<open>The live processes are exactly the address spaces, each in its own slot.\<close>

definition owns :: "kernel \<Rightarrow> spaces \<Rightarrow> bool" where
  "owns k T \<longleftrightarrow> (\<forall>pt i. T pt = Some i \<longleftrightarrow> i < NPROC \<and> live k i \<and> p_pagetable (proc_at k i) = pt)"

definition spaces_match :: "layout \<Rightarrow> kernel \<Rightarrow> bool" where
  "spaces_match L k \<longleftrightarrow> (\<exists>T. vm_reachable L (k_vm k, T) \<and> owns k T)"

lemma ownsD: "owns k T \<Longrightarrow> T pt = Some i \<longleftrightarrow> i < NPROC \<and> live k i \<and> p_pagetable (proc_at k i) = pt"
  by (simp add: owns_def)

lemma owns_cong: "k_procs k' = k_procs k \<Longrightarrow> owns k' = owns k"
  by (simp add: owns_def fun_eq_iff)

definition kinv :: "machine \<Rightarrow> kernel \<Rightarrow> bool" where
  "kinv M k \<longleftrightarrow> procs_ok k \<and> spaces_match (m_layout M) k"

text \<open>The current process is the one that runs.\<close>

definition one_running :: "kernel \<Rightarrow> bool" where
  "one_running k \<longleftrightarrow>
     (\<forall>i < NPROC. p_state (proc_at k i) = P_RUNNING \<longleftrightarrow> k_current k = Some i) \<and>
     (\<forall>c. k_current k = Some c \<longrightarrow> c < NPROC)"

definition quiet :: "kernel \<Rightarrow> bool" where
  "quiet k \<longleftrightarrow> (\<forall>i < NPROC. p_state (proc_at k i) \<noteq> P_RUNNING) \<and> (\<forall>c. k_current k = Some c \<longrightarrow> c < NPROC)"

lemma kinv_length: "kinv M k \<Longrightarrow> length (k_procs k) = NPROC"
  by (simp add: kinv_def procs_ok_def)

lemma set_proc_simps [simp]:
  "k_current (set_proc i f k) = k_current k" "k_vm (set_proc i f k) = k_vm k" "k_uart (set_proc i f k) = k_uart k"
  "k_next_pid (set_proc i f k) = k_next_pid k" "k_last_slot (set_proc i f k) = k_last_slot k"
  "k_ticks (set_proc i f k) = k_ticks k" "length (k_procs (set_proc i f k)) = length (k_procs k)"
  "k_satp (set_proc i f k) = k_satp k"
  by (simp_all add: set_proc_def)

lemma set_proc_at:
  "i < length (k_procs k) \<Longrightarrow> proc_at (set_proc i f k) j = (if j = i then f (proc_at k i) else proc_at k j)"
  by (simp add: set_proc_def nth_list_update)

text \<open>Changes of a process the invariant does not see.\<close>

definition same_core :: "proc \<Rightarrow> proc \<Rightarrow> bool" where
  "same_core p q \<longleftrightarrow>
     (p_state p = P_UNUSED \<longleftrightarrow> p_state q = P_UNUSED) \<and> p_pid p = p_pid q \<and> p_parent p = p_parent q \<and>
     p_pagetable p = p_pagetable q \<and> length (tf_regs (p_tf p)) = length (tf_regs (p_tf q))"

lemma pids_mono:
  assumes "inj_on (\<lambda>i. p_pid (proc_at k i)) {i. i < NPROC \<and> live k i}"
    and "\<And>i. i < NPROC \<Longrightarrow> live k' i \<Longrightarrow> live k i \<and> p_pid (proc_at k' i) = p_pid (proc_at k i)"
  shows "inj_on (\<lambda>i. p_pid (proc_at k' i)) {i. i < NPROC \<and> live k' i}"
  by (rule inj_onI) (use assms in \<open>force simp: inj_on_def\<close>)

lemma kinv_cong:
  assumes "kinv M k" "length (k_procs k') = NPROC" "\<And>i. i < NPROC \<Longrightarrow> same_core (proc_at k i) (proc_at k' i)"
    and "k_next_pid k' = k_next_pid k" "k_vm k' = k_vm k" "-1 \<le> k_last_slot k'" "k_last_slot k' < int NPROC"
  shows "kinv M k'"
proof -
  have e: "live k' i = live k i" "p_pid (proc_at k' i) = p_pid (proc_at k i)" "p_parent (proc_at k' i) = p_parent (proc_at k i)"
    "p_pagetable (proc_at k' i) = p_pagetable (proc_at k i)"
    "length (tf_regs (p_tf (proc_at k' i))) = length (tf_regs (p_tf (proc_at k i)))" if "i < NPROC" for i
    using assms(3) [OF that] by (auto simp: same_core_def)
  have ok: "procs_ok k" using assms(1) by (simp add: kinv_def)
  then have "inj_on (\<lambda>i. p_pid (proc_at k i)) {i. i < NPROC \<and> live k i}" by (simp add: procs_ok_def)
  then have "inj_on (\<lambda>i. p_pid (proc_at k' i)) {i. i < NPROC \<and> live k' i}"
    by (rule pids_mono) (use e(1,2) in blast)
  then have "procs_ok k'" using ok assms(2,4,6,7) e unfolding procs_ok_def by simp
  moreover have "spaces_match (m_layout M) k'"
    using assms(1) e unfolding kinv_def spaces_match_def owns_def assms(5) by (auto cong: conj_cong)
  ultimately show ?thesis by (simp add: kinv_def)
qed

lemma same_core_refl [simp]: "same_core p p"
  by (simp add: same_core_def)

lemma kinv_last_slot: "kinv M k \<Longrightarrow> -1 \<le> k_last_slot k \<and> k_last_slot k < int NPROC"
  by (simp add: kinv_def procs_ok_def)

lemma kinv_set_proc:
  assumes "kinv M k" "i < NPROC" "same_core (proc_at k i) (f (proc_at k i))"
  shows "kinv M (set_proc i f k)"
  by (rule kinv_cong [OF assms(1)]) (use assms kinv_length [OF assms(1)] kinv_last_slot [OF assms(1)] in \<open>auto simp: set_proc_at\<close>)

lemma kinv_update:
  "kinv M (k\<lparr>k_current := c\<rparr>) = kinv M k" "kinv M (k\<lparr>k_ticks := t\<rparr>) = kinv M k" "kinv M (k\<lparr>k_satp := s\<rparr>) = kinv M k"
  "kinv M (k\<lparr>k_uart := u\<rparr>) = kinv M k" "kinv M (k\<lparr>k_stvec := x\<rparr>) = kinv M k"
  "kinv M (k\<lparr>k_deadline := t\<rparr>) = kinv M k" "kinv M (k\<lparr>k_stie := b\<rparr>) = kinv M k" "kinv M (timer_init k) = kinv M k"
  by (simp_all add: kinv_def procs_ok_def spaces_match_def owns_def)

section \<open>What the scheduler chooses\<close>

lemma schedule_cases:
  assumes "length (k_procs k) = NPROC"
  obtains (none) "proc_schedule k = (None, k)" "\<And>i. i < NPROC \<Longrightarrow> p_state (proc_at k i) \<noteq> P_RUNNABLE"
    | (one) i where "proc_schedule k = (Some i, set_proc i (\<lambda>p. p\<lparr>p_state := P_RUNNING\<rparr>) (k\<lparr>k_last_slot := int i\<rparr>))"
      "i < NPROC" "p_state (proc_at k i) = P_RUNNABLE"
      "\<And>j. j < NPROC \<Longrightarrow> p_state (proc_at k j) = P_RUNNABLE \<Longrightarrow> distance (schedule_start k) i \<le> distance (schedule_start k) j"
proof (cases "find (\<lambda>i. p_state (proc_at k i) = P_RUNNABLE) (schedule_order (schedule_start k))")
  case None
  then have "p_state (proc_at k i) \<noteq> P_RUNNABLE" if "i < NPROC" for i
    using that schedule_order_set [of "schedule_start k"] by (auto simp: find_None_iff)
  then show thesis using none None by (simp add: proc_schedule_def)
next
  case (Some i)
  let ?o = "schedule_order (schedule_start k)"
  obtain n where n: "n < length ?o" "p_state (proc_at k (?o ! n)) = P_RUNNABLE" "i = ?o ! n"
    "\<And>m. m < n \<Longrightarrow> p_state (proc_at k (?o ! m)) \<noteq> P_RUNNABLE"
    using Some by (auto simp: find_Some_iff)
  have len: "length ?o = NPROC" by (simp add: schedule_order_def)
  have i: "i < NPROC" using n(1,3) schedule_order_set [of "schedule_start k"] nth_mem by blast
  have d: "distance (schedule_start k) i = Suc n" using distance_unique [OF i] n(1,3) len by simp
  have "distance (schedule_start k) i \<le> distance (schedule_start k) j"
    if j: "j < NPROC" "p_state (proc_at k j) = P_RUNNABLE" for j
  proof (rule ccontr)
    assume "\<not> ?thesis"
    then have "distance (schedule_start k) j - 1 < n" using d distance_bounds(1) [of "schedule_start k" j] by simp
    then show False using n(4) schedule_order_distance [OF j(1), of "schedule_start k"] j(2) by metis
  qed
  then show thesis using one [OF _ i] Some n(2,3) by (simp add: proc_schedule_def)
qed

lemma reschedule_cases:
  assumes "length (k_procs k) = NPROC"
  obtains (none) "reschedule k = k\<lparr>k_current := None\<rparr>" "\<And>i. i < NPROC \<Longrightarrow> p_state (proc_at k i) \<noteq> P_RUNNABLE"
    | (one) i where "reschedule k = (set_proc i (\<lambda>p. p\<lparr>p_state := P_RUNNING\<rparr>) (k\<lparr>k_last_slot := int i\<rparr>))\<lparr>k_current := Some i\<rparr>"
      "i < NPROC" "p_state (proc_at k i) = P_RUNNABLE"
  by (cases rule: schedule_cases [OF assms]) (auto simp: reschedule_def)

lemma reschedule_inv:
  assumes "kinv M k" "quiet k"
  shows "kinv M (reschedule k)" "one_running (reschedule k)"
proof -
  have len: "length (k_procs k) = NPROC" using kinv_length [OF assms(1)] .
  have "kinv M (reschedule k) \<and> one_running (reschedule k)"
  proof (cases rule: reschedule_cases [OF len])
    case 1
    then show ?thesis using assms by (simp add: kinv_update one_running_def quiet_def)
  next
    case (2 i)
    have "kinv M (k\<lparr>k_last_slot := int i\<rparr>)" using assms(1) 2(2) by (simp add: kinv_def procs_ok_def spaces_match_def owns_def)
    then have "kinv M (reschedule k)"
      unfolding 2(1) kinv_update using 2(2,3) by (intro kinv_set_proc) (auto simp: same_core_def)
    moreover have "one_running (reschedule k)"
      unfolding 2(1) one_running_def using assms(2) 2(2) len by (auto simp: quiet_def set_proc_at)
    ultimately show ?thesis by blast
  qed
  then show "kinv M (reschedule k)" "one_running (reschedule k)" by blast+
qed

end
