(* ===== verification/Nano_Safety.thy ===== *)
theory Nano_Safety
  imports Nano_Sched
begin

text \<open>
  The kernel of NanoBoot is safe: every operation on processes, every system call and every trap keeps the
  invariant of the process table and its agreement with the address spaces, and none faults.
\<close>

section \<open>Processes and their address spaces\<close>

lemma kinv_spaces:
  assumes "layout_ok (m_layout M)" "kinv M k"
  obtains T D where "vm_reachable (m_layout M) (k_vm k, T)" "owns k T" "spaces_ok (m_layout M) (k_vm k) T D"
proof -
  obtain T where T: "vm_reachable (m_layout M) (k_vm k, T)" "owns k T"
    using assms(2) unfolding kinv_def spaces_match_def by blast
  then show thesis using that vm_reachable_inv [OF assms(1) T(1)] by auto
qed

lemma kinv_vm:
  assumes "kinv M k" "vm_reachable (m_layout M) (v, T)" "owns k T"
  shows "kinv M (k\<lparr>k_vm := v\<rparr>)"
proof -
  have "owns (k\<lparr>k_vm := v\<rparr>) T" using assms(3) owns_cong [of "k\<lparr>k_vm := v\<rparr>" k] by simp
  then show ?thesis using assms unfolding kinv_def procs_ok_def spaces_match_def by auto
qed

lemma switch_to_kernel_pt_ok:
  assumes "layout_ok (m_layout M)" "kinv M k"
  obtains v s where "switch_to_kernel_pt M k = Done (k\<lparr>k_vm := v, k_satp := s\<rparr>)" "kinv M (k\<lparr>k_vm := v, k_satp := s\<rparr>)"
    "vm_mem v = vm_mem (k_vm k)"
proof -
  obtain T D where T: "vm_reachable (m_layout M) (k_vm k, T)" "owns k T" "spaces_ok (m_layout M) (k_vm k) T D"
    by (rule kinv_spaces [OF assms])
  then have ok: "vm_ok (k_vm k)" "kernel_ok (m_layout M) (k_vm k)" by (simp_all add: spaces_ok_def)
  obtain pt v where p: "kernel_pagetable (m_layout M) (k_vm k) = Inr (pt, v)"
    by (cases rule: kernel_pagetable_cases [OF assms(1) ok]) auto
  have st: "vm_step (m_layout M) None (k_vm k, T) (v, T)" by (rule vm_step.kernel [OF p])
  then have "vm_reachable (m_layout M) (v, T)" by (rule vm_reachable.step [OF T(1)])
  then have kv: "kinv M (k\<lparr>k_vm := v\<rparr>)" using kinv_vm [OF assms(2) _ T(2)] by blast
  have mem: "vm_mem v = vm_mem (k_vm k)" using vm_step_memory [OF assms(1) st T(3)] by auto
  have "switch_to_kernel_pt M k = Done (k\<lparr>k_vm := v, k_satp := if pt = 0 then k_satp k else vm_satp pt\<rparr>)"
    using p by (simp add: switch_to_kernel_pt_def vm_switch_def)
  then show thesis using that kv mem by (simp add: kinv_update)
qed

text \<open>Releasing the slot of a process that ended.\<close>

lemma release_slot_ok:
  assumes "layout_ok (m_layout M)" "kinv M k" "c < NPROC" "live k c"
  obtains k' where "destroy_pagetable M c k = Done k'" "kinv M (free_slot c k')"
    "k_procs (free_slot c k') = (k_procs k)[c := (proc_at k c)\<lparr>p_pagetable := 0, p_state := P_UNUSED, p_pid := 0, p_parent := None\<rparr>]"
    "k_current (free_slot c k') = k_current k" "k_ticks (free_slot c k') = k_ticks k" "k_uart (free_slot c k') = k_uart k"
    "vm_mem (k_vm (free_slot c k')) = vm_mem (k_vm k)"
proof -
  let ?L = "m_layout M" and ?pt = "p_pagetable (proc_at k c)"
  have len: "length (k_procs k) = NPROC" using kinv_length [OF assms(2)] .
  obtain T D where T: "vm_reachable ?L (k_vm k, T)" "owns k T" "spaces_ok ?L (k_vm k) T D"
    by (rule kinv_spaces [OF assms(1,2)])
  have pc: "T ?pt = Some c" using ownsD [OF T(2)] assms(3,4) by blast
  obtain v where v: "vm_destroy ?L ?pt (k_vm k) = Inr v" by (rule spaces_ok_destroy [OF assms(1) T(3) pc])
  have st: "vm_step ?L None (k_vm k, T) (v, T(?pt := None))" by (rule vm_step.destroy [of T, OF pc v])
  then have r: "vm_reachable ?L (v, T(?pt := None))" by (rule vm_reachable.step [OF T(1)])
  have mem: "vm_mem v = vm_mem (k_vm k)" using vm_step_memory [OF assms(1) st T(3)] by auto
  let ?k = "set_proc c (\<lambda>p. p\<lparr>p_pagetable := 0\<rparr>) (k\<lparr>k_vm := v\<rparr>)"
  let ?f = "free_slot c ?k"
  have d: "destroy_pagetable M c k = Done ?k" using v by (simp add: destroy_pagetable_def)
  have procs: "k_procs ?f = (k_procs k)[c := (proc_at k c)\<lparr>p_pagetable := 0, p_state := P_UNUSED, p_pid := 0, p_parent := None\<rparr>]"
    using len assms(3) by (simp add: free_slot_def set_proc_def)
  then have at: "proc_at ?f i = (if i = c then (proc_at k c)\<lparr>p_pagetable := 0, p_state := P_UNUSED, p_pid := 0, p_parent := None\<rparr> else proc_at k i)"
    if "i < NPROC" for i using that len assms(3) by (simp add: nth_list_update)
  have ok: "procs_ok k" using assms(2) by (simp add: kinv_def)
  then have "inj_on (\<lambda>i. p_pid (proc_at k i)) {i. i < NPROC \<and> live k i}" by (simp add: procs_ok_def)
  then have "inj_on (\<lambda>i. p_pid (proc_at ?f i)) {i. i < NPROC \<and> live ?f i}"
    by (rule pids_mono) (use at in \<open>auto split: if_splits\<close>)
  moreover have "length (k_procs ?f) = NPROC" using len by (simp add: free_slot_def)
  ultimately have "procs_ok ?f" using ok at unfolding procs_ok_def by (auto simp: free_slot_def split: if_splits)
  moreover have "spaces_match ?L ?f"
  proof -
    have "(T(?pt := None)) pt = Some i \<longleftrightarrow> i < NPROC \<and> live ?f i \<and> p_pagetable (proc_at ?f i) = pt" for pt i
    proof (cases "i < NPROC")
      case True
      then show ?thesis using ownsD [OF T(2), of pt i] pc at [OF True] by (cases "i = c") auto
    next
      case False
      then show ?thesis using ownsD [OF T(2), of pt i] by simp
    qed
    then show ?thesis using r unfolding spaces_match_def owns_def by (auto simp: free_slot_def)
  qed
  ultimately show thesis using that [OF d _ procs] mem by (simp add: kinv_def free_slot_def)
qed

text \<open>
  Filling a free slot. \<open>new_proc\<close> is what \<^verbatim>\<open>proc_create_init\<close> and \<^verbatim>\<open>proc_fork\<close> leave in the slot when the
  address space could be made; the slot stays unused otherwise.
\<close>

definition new_proc :: "kernel \<Rightarrow> nat option \<Rightarrow> addr \<Rightarrow> trapframe \<Rightarrow> proc" where
  "new_proc k par pt tf =
     \<lparr>p_pid = k_next_pid k, p_state = P_RUNNABLE, p_exit_status = 0, p_parent = par, p_pagetable = pt, p_tf = tf, p_wake_tick = 0\<rparr>"

definition put_proc :: "nat \<Rightarrow> proc \<Rightarrow> vm \<Rightarrow> kernel \<Rightarrow> kernel" where
  "put_proc i p v k = k\<lparr>k_procs := (k_procs k)[i := p], k_next_pid := k_next_pid k + 1, k_vm := v\<rparr>"

lemma put_proc_at:
  "length (k_procs k) = NPROC \<Longrightarrow> i < NPROC \<Longrightarrow> proc_at (put_proc i p v k) j = (if j = i then p else proc_at k j)"
  by (simp add: put_proc_def nth_list_update)

lemma put_proc_procs_ok:
  assumes "procs_ok k" "i < NPROC" "\<not> live k i" "p_pid p = k_next_pid k"
    and "\<And>q. p_parent p = Some q \<Longrightarrow> q < NPROC" "length (tf_regs (p_tf p)) = 32"
  shows "procs_ok (put_proc i p v k)"
proof -
  let ?k = "put_proc i p v k"
  have len: "length (k_procs k) = NPROC" using assms(1) by (simp add: procs_ok_def)
  note at = put_proc_at [OF len assms(2), of p v]
  have inj: "inj_on (\<lambda>i. p_pid (proc_at k i)) {i. i < NPROC \<and> live k i}"
    and below: "\<And>j. j < NPROC \<Longrightarrow> live k j \<Longrightarrow> 0 < p_pid (proc_at k j) \<and> p_pid (proc_at k j) < k_next_pid k"
    and pos: "0 < k_next_pid k"
    using assms(1) by (simp_all add: procs_ok_def)
  have "inj_on (\<lambda>i. p_pid (proc_at ?k i)) {i. i < NPROC \<and> live ?k i}"
  proof (rule inj_onI)
    fix a b
    assume ab: "a \<in> {i. i < NPROC \<and> live ?k i}" "b \<in> {i. i < NPROC \<and> live ?k i}" "p_pid (proc_at ?k a) = p_pid (proc_at ?k b)"
    have old: "x < NPROC \<and> live k x \<and> proc_at ?k x = proc_at k x \<and> p_pid (proc_at k x) < k_next_pid k"
      if "x \<in> {i. i < NPROC \<and> live ?k i}" "x \<noteq> i" for x
      using that below [of x] by (simp add: at)
    have new: "p_pid (proc_at ?k i) = k_next_pid k" using assms(4) by (simp add: at)
    consider "a = i" "b = i" | "a = i" "b \<noteq> i" | "a \<noteq> i" "b = i" | "a \<noteq> i" "b \<noteq> i" by blast
    then show "a = b"
    proof cases
      case 2
      then show ?thesis using old [OF ab(2)] ab(3) new by simp
    next
      case 3
      then show ?thesis using old [OF ab(1)] ab(3) new by simp
    next
      case 4
      show ?thesis by (rule inj_onD [OF inj]) (use 4 old [OF ab(1)] old [OF ab(2)] ab(3) in auto)
    qed simp
  qed
  moreover have "0 < p_pid (proc_at ?k j) \<and> p_pid (proc_at ?k j) < k_next_pid ?k" if "j < NPROC" "live ?k j" for j
    using that assms(4) pos at [of j] below [of j] by (cases "j = i") (auto simp: put_proc_def)
  moreover have "p_parent (proc_at ?k j) = Some q \<Longrightarrow> q < NPROC" if "j < NPROC" for j q
    using that assms(1,5) at [of j] by (cases "j = i") (auto simp: procs_ok_def)
  moreover have "length (tf_regs (p_tf (proc_at ?k j))) = 32" if "j < NPROC" for j
    using that assms(1,6) at [of j] by (cases "j = i") (auto simp: procs_ok_def)
  moreover have "length (k_procs ?k) = NPROC" "0 < k_next_pid ?k" "-1 \<le> k_last_slot ?k" "k_last_slot ?k < int NPROC"
    using assms(1) by (simp_all add: put_proc_def procs_ok_def)
  ultimately show ?thesis unfolding procs_ok_def by blast
qed

lemma put_proc_owns:
  assumes "owns k T" "length (k_procs k) = NPROC" "i < NPROC" "\<not> live k i"
  shows "p_state p \<noteq> P_UNUSED \<Longrightarrow> p_pagetable p \<notin> dom T \<Longrightarrow> owns (put_proc i p v k) (T(p_pagetable p \<mapsto> i))"
    and "p_state p = P_UNUSED \<Longrightarrow> owns (put_proc i p v k) T"
proof -
  note at = put_proc_at [OF assms(2,3), of p v]
  show "owns (put_proc i p v k) (T(p_pagetable p \<mapsto> i))" if p: "p_state p \<noteq> P_UNUSED" "p_pagetable p \<notin> dom T"
  proof -
    have "(T(p_pagetable p \<mapsto> i)) pt = Some j \<longleftrightarrow> j < NPROC \<and> p_state (if j = i then p else proc_at k j) \<noteq> P_UNUSED \<and>
        p_pagetable (if j = i then p else proc_at k j) = pt" for pt j
      using p ownsD [OF assms(1), of pt j] ownsD [OF assms(1), of "p_pagetable p" j] assms(3,4) by (cases "j = i") auto
    then show ?thesis unfolding owns_def at by blast
  qed
  show "owns (put_proc i p v k) T" if "p_state p = P_UNUSED"
  proof -
    have "T pt = Some j \<longleftrightarrow> j < NPROC \<and> p_state (if j = i then p else proc_at k j) \<noteq> P_UNUSED \<and>
        p_pagetable (if j = i then p else proc_at k j) = pt" for pt j
      using that ownsD [OF assms(1), of pt j] assms(4) by (cases "j = i") auto
    then show ?thesis unfolding owns_def at by blast
  qed
qed

lemma unused_slot_SomeD:
  assumes "unused_slot k = Some i" "length (k_procs k) = NPROC"
  shows "i < NPROC" "\<not> live k i"
  using first_index_SomeD assms unfolding unused_slot_def by fastforce+

lemma owns_free:
  assumes "owns k T" "\<not> live k i"
  shows "i \<notin> ran T"
  using ownsD [OF assms(1)] assms(2) by (auto simp: ran_def)

lemma kinv_put_proc:
  assumes "kinv M k" "i < NPROC" "\<not> live k i" "p_pid p = k_next_pid k"
    and "\<And>q. p_parent p = Some q \<Longrightarrow> q < NPROC" "length (tf_regs (p_tf p)) = 32"
    and "vm_reachable (m_layout M) (v, T')" "owns (put_proc i p v k) T'"
  shows "kinv M (put_proc i p v k)"
proof -
  have "procs_ok (put_proc i p v k)" using assms by (intro put_proc_procs_ok) (auto simp: kinv_def)
  moreover have "k_vm (put_proc i p v k) = v" by (simp add: put_proc_def)
  ultimately show ?thesis using assms(7,8) unfolding kinv_def spaces_match_def by metis
qed

lemma claim_put:
  assumes "length (k_procs k) = NPROC" "i < NPROC"
  shows "set_proc i (\<lambda>p. p\<lparr>p_tf := tf\<rparr>) (set_proc i (\<lambda>p. p\<lparr>p_pagetable := pt\<rparr>) ((claim_slot i par k)\<lparr>k_vm := v\<rparr>)) =
      put_proc i (new_proc k par pt tf) v k"
    and "set_proc i (\<lambda>p. p\<lparr>p_state := P_UNUSED\<rparr>) (set_proc i (\<lambda>p. p\<lparr>p_pagetable := pt\<rparr>) ((claim_slot i par k)\<lparr>k_vm := v\<rparr>)) =
      put_proc i ((new_proc k par pt (p_tf (proc_at k i)))\<lparr>p_state := P_UNUSED\<rparr>) v k"
proof -
  have "q\<lparr>p_pid := n, p_state := P_RUNNABLE, p_parent := par, p_exit_status := 0, p_wake_tick := 0, p_pagetable := pt, p_tf := tf\<rparr> =
      \<lparr>p_pid = n, p_state = P_RUNNABLE, p_exit_status = 0, p_parent = par, p_pagetable = pt, p_tf = tf, p_wake_tick = 0\<rparr>"
    "q\<lparr>p_pid := n, p_parent := par, p_exit_status := 0, p_wake_tick := 0, p_pagetable := pt, p_state := P_UNUSED\<rparr> =
      \<lparr>p_pid = n, p_state = P_UNUSED, p_exit_status = 0, p_parent = par, p_pagetable = pt, p_tf = p_tf q, p_wake_tick = 0\<rparr>"
    for q :: proc and n by simp_all
  note fields = this
  show "set_proc i (\<lambda>p. p\<lparr>p_tf := tf\<rparr>) (set_proc i (\<lambda>p. p\<lparr>p_pagetable := pt\<rparr>) ((claim_slot i par k)\<lparr>k_vm := v\<rparr>)) =
      put_proc i (new_proc k par pt tf) v k"
    using assms by (intro kernel.equality) (simp_all add: claim_slot_def set_proc_def put_proc_def new_proc_def fields)
  show "set_proc i (\<lambda>p. p\<lparr>p_state := P_UNUSED\<rparr>) (set_proc i (\<lambda>p. p\<lparr>p_pagetable := pt\<rparr>) ((claim_slot i par k)\<lparr>k_vm := v\<rparr>)) =
      put_proc i ((new_proc k par pt (p_tf (proc_at k i)))\<lparr>p_state := P_UNUSED\<rparr>) v k"
    using assms by (intro kernel.equality) (simp_all add: claim_slot_def set_proc_def put_proc_def new_proc_def fields)
qed

lemma claim_slot_vm [simp]: "k_vm (claim_slot i par k) = k_vm k"
  by (simp add: claim_slot_def)

lemma prepare_user_tf_regs [simp]: "length (tf_regs (prepare_user_tf M i)) = 32"
  by (simp add: prepare_user_tf_def set_reg_def tf_clear_def)

lemma set_reg_length [simp]: "length (tf_regs (set_reg r x tf)) = length (tf_regs tf)"
  by (simp add: set_reg_def)

lemma kinv_regs: "kinv M k \<Longrightarrow> i < NPROC \<Longrightarrow> length (tf_regs (p_tf (proc_at k i))) = 32"
  by (simp add: kinv_def procs_ok_def)

lemma proc_create_init_cases:
  assumes "layout_ok (m_layout M)" "kinv M k"
  obtains (none) k' where "proc_create_init M k = Done (None, k')" "kinv M k'"
    | (some) i pt v where "unused_slot k = Some i" "i < NPROC" "\<not> live k i"
      "proc_create_init M k = Done (Some i, put_proc i (new_proc k None pt (prepare_user_tf M i)) v k)"
      "kinv M (put_proc i (new_proc k None pt (prepare_user_tf M i)) v k)"
proof (cases "unused_slot k")
  case None
  then show thesis using none [of k] assms(2) by (simp add: proc_create_init_def)
next
  case (Some i)
  let ?L = "m_layout M"
  have len: "length (k_procs k) = NPROC" using kinv_length [OF assms(2)] .
  have i: "i < NPROC" "\<not> live k i" using unused_slot_SomeD [OF Some len] by simp_all
  obtain T D where T: "vm_reachable ?L (k_vm k, T)" "owns k T" "spaces_ok ?L (k_vm k) T D"
    by (rule kinv_spaces [OF assms])
  have nr: "i \<notin> ran T" using owns_free [OF T(2) i(2)] .
  show thesis
  proof (cases rule: create_cases [OF assms(1) T(3) i(1), of "m_image M"])
    case (1 v)
    let ?p = "(new_proc k None 0 (p_tf (proc_at k i)))\<lparr>p_state := P_UNUSED\<rparr>"
    have "vm_reachable ?L (v, add_space 0 i T)" using T(1) vm_step.create [OF i(1) nr 1] by (rule vm_reachable.step)
    then have "kinv M (put_proc i ?p v k)"
      using put_proc_owns(2) [OF T(2) len i, of ?p v] kinv_regs [OF assms(2) i(1)]
      by (intro kinv_put_proc [OF assms(2) i]) (auto simp: new_proc_def add_space_def)
    moreover have "proc_create_init M k = Done (None, put_proc i ?p v k)"
      using Some 1 claim_put(2) [OF len i(1), where pt = 0 and par = None and v = v] by (simp add: proc_create_init_def Let_def)
    ultimately show thesis using none by blast
  next
    case (2 pt v)
    let ?p = "new_proc k None pt (prepare_user_tf M i)"
    have "vm_reachable ?L (v, add_space pt i T)" using T(1) vm_step.create [OF i(1) nr 2(1)] by (rule vm_reachable.step)
    then have "kinv M (put_proc i ?p v k)"
      using put_proc_owns(1) [OF T(2) len i, of ?p v] 2(2,3)
      by (intro kinv_put_proc [OF assms(2) i]) (auto simp: new_proc_def add_space_def)
    moreover have "proc_create_init M k = Done (Some i, put_proc i ?p v k)"
      using Some 2(1,2) claim_put(1) [OF len i(1), where tf = "prepare_user_tf M i" and pt = pt and par = None and v = v] by (simp add: proc_create_init_def Let_def)
    ultimately show thesis using some Some i by blast
  qed
qed

lemma proc_fork_cases:
  assumes "layout_ok (m_layout M)" "kinv M k" "k_current k = Some c" "c < NPROC" "live k c" "length (tf_regs tf) = 32"
  obtains (full) "unused_slot k = None" "proc_fork M tf k = Done (-1, k)"
    | (fail) i v where "unused_slot k = Some i" "vm_clone_user (m_layout M) (int i) (int c) (k_vm k) = Inr (0, v)"
      "proc_fork M tf k = Done (-1, put_proc i ((new_proc k (Some c) 0 (p_tf (proc_at k i)))\<lparr>p_state := P_UNUSED\<rparr>) v k)"
      "kinv M (put_proc i ((new_proc k (Some c) 0 (p_tf (proc_at k i)))\<lparr>p_state := P_UNUSED\<rparr>) v k)"
    | (child) i pt v where "unused_slot k = Some i" "vm_clone_user (m_layout M) (int i) (int c) (k_vm k) = Inr (pt, v)" "pt \<noteq> 0"
      "proc_fork M tf k = Done (k_next_pid k,
         put_proc i (new_proc k (Some c) pt (set_reg 10 0 (tf\<lparr>tf_kernel_sp := kstack_top M i\<rparr>))) v k)"
      "kinv M (put_proc i (new_proc k (Some c) pt (set_reg 10 0 (tf\<lparr>tf_kernel_sp := kstack_top M i\<rparr>))) v k)"
proof (cases "unused_slot k")
  case None
  then show thesis using full assms(3) by (simp add: proc_fork_def)
next
  case (Some i)
  let ?L = "m_layout M" and ?tf = "set_reg 10 0 (tf\<lparr>tf_kernel_sp := kstack_top M i\<rparr>)"
  have len: "length (k_procs k) = NPROC" using kinv_length [OF assms(2)] .
  have i: "i < NPROC" "\<not> live k i" using unused_slot_SomeD [OF Some len] by simp_all
  obtain T D where T: "vm_reachable ?L (k_vm k, T)" "owns k T" "spaces_ok ?L (k_vm k) T D"
    by (rule kinv_spaces [OF assms(1,2)])
  have nr: "i \<notin> ran T" using owns_free [OF T(2) i(2)] .
  show thesis
  proof (cases rule: clone_cases [OF assms(1) T(3) i(1) assms(4)])
    case (1 v)
    let ?p = "(new_proc k (Some c) 0 (p_tf (proc_at k i)))\<lparr>p_state := P_UNUSED\<rparr>"
    have "vm_reachable ?L (v, add_space 0 i T)" using T(1) vm_step.clone [OF i(1) nr assms(4) 1] by (rule vm_reachable.step)
    then have "kinv M (put_proc i ?p v k)"
      using put_proc_owns(2) [OF T(2) len i, of ?p v] kinv_regs [OF assms(2) i(1)] assms(4)
      by (intro kinv_put_proc [OF assms(2) i]) (auto simp: new_proc_def add_space_def)
    moreover have "proc_fork M tf k = Done (-1, put_proc i ?p v k)"
      using Some 1 assms(3) claim_put(2) [OF len i(1), where pt = 0 and par = "Some c" and v = v] by (simp add: proc_fork_def Let_def)
    ultimately show thesis using fail Some 1 by blast
  next
    case (2 pt v)
    let ?p = "new_proc k (Some c) pt ?tf"
    have "vm_reachable ?L (v, add_space pt i T)" using T(1) vm_step.clone [OF i(1) nr assms(4) 2(1)] by (rule vm_reachable.step)
    then have "kinv M (put_proc i ?p v k)"
      using put_proc_owns(1) [OF T(2) len i, of ?p v] 2(2,3) assms(4,6)
      by (intro kinv_put_proc [OF assms(2) i]) (auto simp: new_proc_def add_space_def)
    moreover have "proc_fork M tf k = Done (k_next_pid k, put_proc i ?p v k)"
      using Some 2(1,2) assms(3) claim_put(1) [OF len i(1), where tf = ?tf and pt = pt and par = "Some c" and v = v] put_proc_at [OF len i(1), of ?p v i]
      by (simp add: proc_fork_def Let_def new_proc_def)
    ultimately show thesis using child Some 2 by blast
  qed
qed

section \<open>Exit, wait and sleep\<close>

lemma reschedule_vm [simp]: "k_vm (reschedule k) = k_vm k" "k_ticks (reschedule k) = k_ticks k"
  by (simp_all add: reschedule_def proc_schedule_def split: option.splits)

lemma one_runningD:
  assumes "one_running k"
  shows "i < NPROC \<Longrightarrow> p_state (proc_at k i) = P_RUNNING \<longleftrightarrow> k_current k = Some i"
    and "k_current k = Some c \<Longrightarrow> c < NPROC"
    and "k_current k = Some c \<Longrightarrow> p_state (proc_at k c) = P_RUNNING"
    and "k_current k = Some c \<Longrightarrow> live k c"
  using assms by (auto simp: one_running_def)

text \<open>Stopping the current process leaves none running.\<close>

lemma quiet_set_current:
  assumes "one_running k" "k_current k = Some c" "length (k_procs k) = NPROC" "p_state (f (proc_at k c)) \<noteq> P_RUNNING"
  shows "quiet (set_proc c f k)"
  using assms one_runningD(2) [OF assms(1,2)] by (auto simp: quiet_def one_running_def set_proc_at)

lemma one_running_cong:
  assumes "one_running k" "k_current k' = k_current k"
    and "\<And>i. i < NPROC \<Longrightarrow> p_state (proc_at k' i) = P_RUNNING \<longleftrightarrow> p_state (proc_at k i) = P_RUNNING"
  shows "one_running k'"
  using assms unfolding one_running_def by simp

text \<open>The end of a process whose slot is released: the kernel's page table is switched in before its own is destroyed.\<close>

abbreviation gone :: "proc \<Rightarrow> proc" where
  "gone p \<equiv> p\<lparr>p_pagetable := 0, p_state := P_UNUSED, p_pid := 0, p_parent := None\<rparr>"

abbreviation release_current :: "machine \<Rightarrow> nat \<Rightarrow> kernel \<Rightarrow> kernel run" where
  "release_current M c k \<equiv>
     run_bind (switch_to_kernel_pt M k) (\<lambda>k2. run_bind (destroy_pagetable M c k2) (\<lambda>k3. Done (reschedule (free_slot c k3))))"

lemma release_current_ok:
  assumes "layout_ok (m_layout M)" "kinv M k" "one_running k" "k_current k = Some c"
  obtains kf where "release_current M c k = Done (reschedule kf)" "kinv M kf" "quiet kf" "vm_mem (k_vm kf) = vm_mem (k_vm k)"
    "k_procs kf = (k_procs k)[c := gone (proc_at k c)]" "k_current kf = Some c" "k_ticks kf = k_ticks k"
proof -
  note c = one_runningD [OF assms(3), of c]
  obtain v s where s: "switch_to_kernel_pt M k = Done (k\<lparr>k_vm := v, k_satp := s\<rparr>)" "kinv M (k\<lparr>k_vm := v, k_satp := s\<rparr>)"
    "vm_mem v = vm_mem (k_vm k)"
    by (rule switch_to_kernel_pt_ok [OF assms(1,2)])
  let ?k = "k\<lparr>k_vm := v, k_satp := s\<rparr>"
  have lv: "live ?k c" using c(4) assms(4) by simp
  obtain k' where k': "destroy_pagetable M c ?k = Done k'" "kinv M (free_slot c k')" "k_procs (free_slot c k') = (k_procs ?k)[c := gone (proc_at ?k c)]"
    "k_current (free_slot c k') = k_current ?k" "k_ticks (free_slot c k') = k_ticks ?k" "vm_mem (k_vm (free_slot c k')) = vm_mem (k_vm ?k)"
    by (rule release_slot_ok [OF assms(1) s(2) c(2) lv]) (use assms(4) in auto)
  have "quiet (free_slot c k')"
    using k'(3,4) assms(3,4) c(2) kinv_length [OF assms(2)] by (auto simp: quiet_def one_running_def nth_list_update)
  then show thesis using that [of "free_slot c k'"] k' s(1,3) assms(4) by simp
qed

lemma free_slot_ok:
  assumes "layout_ok (m_layout M)" "kinv M k" "one_running k" "k_current k = Some c"
  obtains k' where "release_current M c k = Done k'" "kinv M k'" "one_running k'" "vm_mem (k_vm k') = vm_mem (k_vm k)"
proof (rule release_current_ok [OF assms])
  fix kf
  assume kf: "release_current M c k = Done (reschedule kf)" "kinv M kf" "quiet kf" "vm_mem (k_vm kf) = vm_mem (k_vm k)"
  show thesis by (rule that [OF kf(1) reschedule_inv [OF kf(2,3)]]) (simp add: kf(4))
qed

lemma proc_exit_ok:
  assumes "layout_ok (m_layout M)" "kinv M k" "one_running k" "k_current k = Some c"
  obtains k' where "proc_exit M status k = Done k'" "kinv M k'" "one_running k'" "vm_mem (k_vm k') = vm_mem (k_vm k)"
proof -
  note c = one_runningD [OF assms(3), of c]
  have cN: "c < NPROC" using c(2) assms(4) by simp
  have len: "length (k_procs k) = NPROC" using kinv_length [OF assms(2)] .
  let ?k1 = "set_proc c (\<lambda>p. p\<lparr>p_exit_status := status\<rparr>) k"
  have k1: "kinv M ?k1" using cN by (intro kinv_set_proc [OF assms(2)]) (simp_all add: same_core_def)
  have o1: "one_running ?k1" using len cN by (intro one_running_cong [OF assms(3)]) (auto simp: set_proc_at)
  show thesis
  proof (cases "p_parent (proc_at ?k1 c)")
    case None
    obtain k' where "run_bind (switch_to_kernel_pt M ?k1) (\<lambda>k2. run_bind (destroy_pagetable M c k2) (\<lambda>k3. Done (reschedule (free_slot c k3)))) = Done k'"
      "kinv M k'" "one_running k'" "vm_mem (k_vm k') = vm_mem (k_vm ?k1)"
      by (rule free_slot_ok [OF assms(1) k1 o1]) (use assms(4) in auto)
    then show thesis using that None assms(4) by (simp add: proc_exit_def Let_def)
  next
    case (Some q)
    have q: "q < NPROC" using k1 Some cN by (auto simp: kinv_def procs_ok_def)
    show thesis
    proof (cases "waiting (proc_at ?k1 q)")
      case True
      let ?k2 = "set_proc q (\<lambda>r. r\<lparr>p_tf := set_reg 10 (of_int (p_pid (proc_at ?k1 c))) (p_tf r), p_state := P_RUNNABLE\<rparr>) ?k1"
      have k2: "kinv M ?k2" using q True by (intro kinv_set_proc [OF k1]) (auto simp: same_core_def waiting_def)
      have o2: "one_running ?k2"
        using len q True by (intro one_running_cong [OF o1]) (auto simp: set_proc_at waiting_def split: if_splits)
      obtain k' where "run_bind (switch_to_kernel_pt M ?k2) (\<lambda>k2. run_bind (destroy_pagetable M c k2) (\<lambda>k3. Done (reschedule (free_slot c k3)))) = Done k'"
        "kinv M k'" "one_running k'" "vm_mem (k_vm k') = vm_mem (k_vm ?k2)"
        by (rule free_slot_ok [OF assms(1) k2 o2]) (use assms(4) in auto)
      then show thesis using that Some True assms(4) by (simp add: proc_exit_def Let_def)
    next
      case False
      let ?k2 = "set_proc c (\<lambda>p. p\<lparr>p_state := P_ZOMBIE\<rparr>) ?k1"
      have lv: "live ?k1 c" using one_runningD(4) [OF o1] assms(4) by simp
      have "kinv M ?k2" using cN lv by (intro kinv_set_proc [OF k1]) (simp_all add: same_core_def)
      moreover have "quiet ?k2" by (rule quiet_set_current [OF o1]) (use assms(4) len in auto)
      ultimately show thesis
        using that [of "reschedule ?k2"] reschedule_inv Some False assms(4) by (simp add: proc_exit_def Let_def)
    qed
  qed
qed

lemma sleep_ok:
  assumes "kinv M k" "one_running k" "k_current k = Some c" "same_core (proc_at k c) (f (proc_at k c))" "p_state (f (proc_at k c)) \<noteq> P_RUNNING"
  shows "kinv M (reschedule (set_proc c f k))" "one_running (reschedule (set_proc c f k))"
proof -
  have "kinv M (set_proc c f k)" using kinv_set_proc [where f = f, OF assms(1) one_runningD(2) [OF assms(2,3)] assms(4)] .
  moreover have "quiet (set_proc c f k)" by (rule quiet_set_current [where f = f, OF assms(2,3) kinv_length [OF assms(1)] assms(5)])
  ultimately show "kinv M (reschedule (set_proc c f k))" "one_running (reschedule (set_proc c f k))"
    using reschedule_inv by blast+
qed

lemma proc_wait_ok:
  assumes "layout_ok (m_layout M)" "kinv M k" "one_running k" "k_current k = Some c"
  obtains r k' where "proc_wait M k = Done (r, k')" "kinv M k'" "one_running k'" "vm_mem (k_vm k') = vm_mem (k_vm k)"
proof (cases "first_index (zombie_of c) (k_procs k)")
  case (Some i)
  have len: "length (k_procs k) = NPROC" using kinv_length [OF assms(2)] .
  have i: "i < NPROC" "zombie_of c (proc_at k i)" using first_index_SomeD [OF Some] len by simp_all
  then have lv: "live k i" by (simp add: zombie_of_def)
  obtain k' where k': "destroy_pagetable M i k = Done k'" "kinv M (free_slot i k')"
    "k_procs (free_slot i k') = (k_procs k)[i := (proc_at k i)\<lparr>p_pagetable := 0, p_state := P_UNUSED, p_pid := 0, p_parent := None\<rparr>]"
    "k_current (free_slot i k') = k_current k" "vm_mem (k_vm (free_slot i k')) = vm_mem (k_vm k)"
    by (rule release_slot_ok [OF assms(1,2) i(1) lv])
  have "one_running (free_slot i k')"
    using k'(3,4) i len by (intro one_running_cong [OF assms(3)]) (auto simp: nth_list_update zombie_of_def)
  then show thesis using that k'(1,2,5) Some assms(4) by (simp add: proc_wait_def Let_def)
next
  case None
  have lv: "live k c" using one_runningD(4) [OF assms(3,4)] .
  have "kinv M (reschedule (set_proc c (\<lambda>p. p\<lparr>p_state := P_SLEEPING\<rparr>) k))"
    "one_running (reschedule (set_proc c (\<lambda>p. p\<lparr>p_state := P_SLEEPING\<rparr>) k))"
    by (rule sleep_ok [OF assms(2-4)]; use lv in \<open>simp add: same_core_def\<close>)+
  then show thesis using that None assms by (cases "have_child c k") (auto simp: proc_wait_def)
qed

lemma proc_sleep_ok:
  assumes "kinv M k" "one_running k" "k_current k = Some c"
  shows "kinv M (proc_sleep n k)" "one_running (proc_sleep n k)"
proof -
  have lv: "live k c" using one_runningD(4) [OF assms(2,3)] .
  show "kinv M (proc_sleep n k)" "one_running (proc_sleep n k)"
    using assms sleep_ok [OF assms, of "\<lambda>p. p\<lparr>p_wake_tick := timer_now k + n, p_state := P_SLEEPING\<rparr>"] lv
    by (auto simp: proc_sleep_def same_core_def)
qed

lemma wake_core: "same_core p (wake now p)" "p_state (wake now p) = P_RUNNING \<longleftrightarrow> p_state p = P_RUNNING"
  by (auto simp: wake_def same_core_def)

lemma timer_tick_ok:
  assumes "kinv M k"
  shows "kinv M (timer_tick k)" "one_running k \<Longrightarrow> one_running (timer_tick k)" "quiet k \<Longrightarrow> quiet (timer_tick k)"
    "k_current (timer_tick k) = k_current k"
proof -
  have len: "length (k_procs k) = NPROC" using kinv_length [OF assms] .
  have at: "proc_at (timer_tick k) i = wake (k_ticks k + 1) (proc_at k i)" if "i < NPROC" for i
    using that len by (simp add: tick_defs timer_now_def)
  show cur: "k_current (timer_tick k) = k_current k" by (simp add: tick_defs)
  show "kinv M (timer_tick k)"
    using kinv_last_slot [OF assms] len at wake_core(1)
    by (intro kinv_cong [OF assms]) (simp_all add: tick_defs timer_now_def)
  show "one_running (timer_tick k)" if "one_running k"
    by (rule one_running_cong [OF that cur]) (simp add: at wake_core)
  show "quiet (timer_tick k)" if "quiet k"
    using that at cur wake_core(2) by (simp add: quiet_def)
qed

section \<open>System calls\<close>

text \<open>A computation is safe when it does not fault and what it returns satisfies a predicate.\<close>

definition safe :: "('a \<Rightarrow> bool) \<Rightarrow> 'a run \<Rightarrow> bool" where
  "safe P r \<longleftrightarrow> (case r of Done x \<Rightarrow> P x | Fault _ \<Rightarrow> False | Hang \<Rightarrow> True)"

lemma safe_simps [simp]: "safe P (Done x) = P x" "safe P Hang" "\<not> safe P (Fault e)"
  by (simp_all add: safe_def)

lemma safe_bind: "safe Q r \<Longrightarrow> (\<And>x. Q x \<Longrightarrow> safe P (f x)) \<Longrightarrow> safe P (run_bind r f)"
  by (cases r) auto

lemma safe_mono: "safe Q r \<Longrightarrow> (\<And>x. Q x \<Longrightarrow> P x) \<Longrightarrow> safe P r"
  by (cases r) auto

definition good :: "machine \<Rightarrow> kernel \<Rightarrow> bool" where
  "good M k \<longleftrightarrow> kinv M k \<and> one_running k"

lemma good_update:
  "good M (k\<lparr>k_uart := u\<rparr>) = good M k" "good M (k\<lparr>k_satp := s\<rparr>) = good M k" "good M (k\<lparr>k_stvec := x\<rparr>) = good M k"
  by (simp_all add: good_def kinv_update one_running_def)

text \<open>
  The invariant holds after a step, and the memory of the slots outside a set is as before it.
\<close>

definition harmless :: "machine \<Rightarrow> nat set \<Rightarrow> kernel \<Rightarrow> kernel \<Rightarrow> bool" where
  "harmless M S k k' \<longleftrightarrow>
     good M k' \<and> (\<forall>x. (\<forall>s \<in> S. x \<notin> slot_memory (m_layout M) s) \<longrightarrow> vm_mem (k_vm k') x = vm_mem (k_vm k) x)"

lemma harmless_same: "good M k' \<Longrightarrow> vm_mem (k_vm k') = vm_mem (k_vm k) \<Longrightarrow> harmless M S k k'"
  by (simp add: harmless_def)

lemma harmless_refl: "good M k \<Longrightarrow> harmless M S k k"
  by (rule harmless_same) simp_all

lemma harmless_trans: "harmless M S k k1 \<Longrightarrow> harmless M S k1 k2 \<Longrightarrow> harmless M S k k2"
  by (simp add: harmless_def)

lemma safe_of_uart: "good M k \<Longrightarrow> safe (harmless M S k) (of_uart u k)"
  by (cases u) (simp_all add: of_uart_def good_update harmless_def)

lemma current_table:
  assumes "layout_ok (m_layout M)" "kinv M k" "i < NPROC" "live k i"
  obtains T D where "vm_reachable (m_layout M) (k_vm k, T)" "owns k T" "T (p_pagetable (proc_at k i)) = Some i"
    "user_table (m_layout M) (k_vm k) (p_pagetable (proc_at k i)) i D"
proof -
  obtain T E where T: "vm_reachable (m_layout M) (k_vm k, T)" "owns k T" "spaces_ok (m_layout M) (k_vm k) T E"
    by (rule kinv_spaces [OF assms(1,2)])
  have "T (p_pagetable (proc_at k i)) = Some i" using ownsD [OF T(2)] assms(3,4) by blast
  moreover from this have "user_table (m_layout M) (k_vm k) (p_pagetable (proc_at k i)) i (E (p_pagetable (proc_at k i)))"
    using T(3) by (simp add: spaces_ok_def)
  ultimately show thesis using that T by blast
qed

lemma good_copyin:
  assumes "layout_ok (m_layout M)" "good M k" "k_current k = Some c"
  shows "copyin (m_layout M) (p_pagetable (proc_at k c)) va n (k_vm k) = Inr (user_bytes (m_layout M) c (vm_mem (k_vm k)) va n)"
proof -
  have k: "kinv M k" "one_running k" using assms(2) by (simp_all add: good_def)
  note c = one_runningD(2,4) [OF k(2) assms(3)]
  obtain D where "user_table (m_layout M) (k_vm k) (p_pagetable (proc_at k c)) c D"
    using current_table [OF assms(1) k(1) c] by metis
  then show ?thesis using copyin_user_bytes [OF assms(1) c(1)] by blast
qed

lemma good_copyout:
  assumes "layout_ok (m_layout M)" "good M k" "k_current k = Some c"
  obtains rc v where "copyout (m_layout M) (p_pagetable (proc_at k c)) va bs (k_vm k) = Inr (rc, v)" "good M (k\<lparr>k_vm := v\<rparr>)"
    "\<forall>x. x \<notin> slot_memory (m_layout M) c \<longrightarrow> vm_mem v x = vm_mem (k_vm k) x"
proof -
  have k: "kinv M k" "one_running k" using assms(2) by (simp_all add: good_def)
  note c = one_runningD(2,4) [OF k(2) assms(3)]
  let ?pt = "p_pagetable (proc_at k c)"
  obtain T D where T: "vm_reachable (m_layout M) (k_vm k, T)" "owns k T" "T ?pt = Some c" "user_table (m_layout M) (k_vm k) ?pt c D"
    by (rule current_table [OF assms(1) k(1) c])
  obtain rc v where co: "copyout (m_layout M) ?pt va bs (k_vm k) = Inr (rc, v)" and sw: "slot_write (m_layout M) c (k_vm k) v"
    using copyout_writes [OF assms(1) c(1) T(4)] by blast
  have "vm_reachable (m_layout M) (v, T)" using T(1) vm_step.store [of T, OF T(3) co] by (rule vm_reachable.step)
  then have "kinv M (k\<lparr>k_vm := v\<rparr>)" using kinv_vm [OF k(1) _ T(2)] by blast
  moreover have "vm_mem v x = vm_mem (k_vm k) x" if "x \<notin> slot_memory (m_layout M) c" for x
    using sw that by (auto simp: slot_write_def)
  ultimately show thesis using that co k(2) by (simp add: good_def one_running_def)
qed

lemma current_pt_good: "k_current k = Some c \<Longrightarrow> current_pt k = Done (p_pagetable (proc_at k c))"
  by (simp add: current_pt_def)

lemma sys_write_safe:
  assumes "layout_ok (m_layout M)" "good M k" "k_current k = Some c"
  shows "safe (\<lambda>(r, k'). harmless M S k k') (sys_write M tf k)"
proof -
  let ?n = "min (unat (tf_regs tf ! 11)) 1024"
  let ?r = "user_bytes (m_layout M) c (vm_mem (k_vm k)) (tf_regs tf ! 10) ?n"
  have "safe (\<lambda>(r, k'). harmless M S k k') (run_bind (of_uart u k) (\<lambda>k1. Done (int ?n, k1)))" for u
    by (rule safe_bind [OF safe_of_uart [OF assms(2)]]) simp
  then show ?thesis
    using good_copyin [OF assms, of "tf_regs tf ! 10" ?n] assms(2) current_pt_good [OF assms(3)]
    by (cases ?r) (simp_all add: sys_write_def Let_def harmless_refl)
qed

lemma read_loop_safe:
  assumes "layout_ok (m_layout M)" "good M k" "k_current k = Some c" "pt = p_pagetable (proc_at k c)" "c \<in> S"
  shows "safe (\<lambda>(r, k'). harmless M S k k') (read_loop M pt uva i n k)"
  using assms(2-4)
proof (induction n arbitrary: i k)
  case 0
  then show ?case by (simp add: harmless_refl)
next
  case (Suc n)
  show ?case
  proof (cases "uart_getc (k_uart k)")
    case None
    then show ?thesis by simp
  next
    case (Some cu)
    obtain ch u where cu: "cu = (ch, u)" by fastforce
    obtain rc v where co: "copyout (m_layout M) (p_pagetable (proc_at k c)) (uva + of_nat i) [char_byte ch] (k_vm k) = Inr (rc, v)"
      "good M (k\<lparr>k_vm := v\<rparr>)" and mem: "\<forall>x. x \<notin> slot_memory (m_layout M) c \<longrightarrow> vm_mem v x = vm_mem (k_vm k) x"
      by (rule good_copyout [OF assms(1) Suc.prems(1,2)])
    let ?k = "k\<lparr>k_uart := u, k_vm := v\<rparr>"
    have "?k = (k\<lparr>k_vm := v\<rparr>)\<lparr>k_uart := u\<rparr>" by simp
    then have g: "good M ?k" using co(2) by (simp only: good_update)
    then have h: "harmless M S k ?k" using mem assms(5) by (auto simp: harmless_def)
    have "safe (\<lambda>(r, k'). harmless M S ?k k') (read_loop M pt uva (Suc i) n ?k)"
      using Suc.IH [OF g, of "Suc i"] Suc.prems(2,3) by simp
    then have "safe (\<lambda>(r, k'). harmless M S k k') (read_loop M pt uva (Suc i) n ?k)"
      by (rule safe_mono) (use harmless_trans [OF h] in auto)
    then show ?thesis using Some cu co(1) h Suc.prems(3) by (simp add: Let_def)
  qed
qed

lemma copyinstr_total:
  assumes "layout_ok L" "slot < NPROC" "user_table L v pt slot D"
  obtains r where "copyinstr L pt va (Suc n) v = Inr r"
proof -
  have "\<exists>r. copyinstr_loop L pt a m v = Inr r" for a m
  proof (induction m arbitrary: a)
    case (Suc m)
    then obtain r where "copyinstr_loop L pt (a + 1) m v = Inr r" by blast
    then show ?case
      using copyin_user_bytes [OF assms, of a 1] by (auto split: option.splits)
  qed simp
  then obtain r where r: "copyinstr_loop L pt va (Suc n) v = Inr r" by blast
  have "\<exists>x. copyinstr L pt va (Suc n) v = Inr x"
    unfolding copyinstr_def r by (simp split: option.splits)
  then show thesis using that by blast
qed

lemma sys_cat_safe:
  assumes "layout_ok (m_layout M)" "good M k" "k_current k = Some c"
  shows "safe (\<lambda>(r, k'). harmless M S k k') (sys_cat M tf k)"
proof -
  have k: "kinv M k" "one_running k" using assms(2) by (simp_all add: good_def)
  note c = one_runningD(2,4) [OF k(2) assms(3)]
  obtain D where D: "user_table (m_layout M) (k_vm k) (p_pagetable (proc_at k c)) c D"
    using current_table [OF assms(1) k(1) c] by metis
  obtain r where r: "copyinstr (m_layout M) (p_pagetable (proc_at k c)) (tf_regs tf ! 10) MAX_FILE_NAME (k_vm k) = Inr r"
    using copyinstr_total [OF assms(1) c(1) D, of _ 31] by auto
  have u: "safe (\<lambda>(r, k'). harmless M S k k') (run_bind (of_uart u k) (\<lambda>k1. Done (rc, k1)))" for u and rc :: int
    by (rule safe_bind [OF safe_of_uart [OF assms(2)]]) simp
  show ?thesis
    using r current_pt_good [OF assms(3)] harmless_refl [OF assms(2)] u by (cases r) (auto simp: sys_cat_def split: prod.splits)
qed

end
