(* ===== verification/Nano_Traps.thy ===== *)
theory Nano_Traps
  imports Nano_Safety
begin

text \<open>
  Traps of NanoBoot: every system call, timer interrupt and unexpected trap keeps the invariant of the kernel and
  none faults; the kernel as a state machine.
\<close>

section \<open>System calls keep the invariant\<close>

lemma good_set_proc:
  assumes "good M k" "i < NPROC" "same_core (proc_at k i) (f (proc_at k i))"
    and "p_state (f (proc_at k i)) = P_RUNNING \<longleftrightarrow> p_state (proc_at k i) = P_RUNNING"
  shows "good M (set_proc i f k)" "harmless M S k (set_proc i f k)"
proof -
  have k: "kinv M k" "one_running k" using assms(1) by (simp_all add: good_def)
  have "kinv M (set_proc i f k)" using kinv_set_proc [where f = f, OF k(1) assms(2,3)] .
  moreover have "one_running (set_proc i f k)"
    using assms(2,4) kinv_length [OF k(1)] by (intro one_running_cong [OF k(2)]) (auto simp: set_proc_at)
  ultimately show "good M (set_proc i f k)" by (simp add: good_def)
  then show "harmless M S k (set_proc i f k)" by (simp add: harmless_def)
qed

lemma one_running_put_proc:
  assumes "one_running k" "length (k_procs k) = NPROC" "i < NPROC" "\<not> live k i" "p_state p \<noteq> P_RUNNING"
  shows "one_running (put_proc i p v k)"
  by (rule one_running_cong [OF assms(1)]) (use assms in \<open>auto simp: put_proc_at\<close>, simp add: put_proc_def)

lemma clone_fork_memory:
  assumes "layout_ok (m_layout M)" "kinv M k" "unused_slot k = Some i" "c < NPROC"
    and "vm_clone_user (m_layout M) (int i) (int c) (k_vm k) = Inr (pt, v)" "x \<notin> slot_memory (m_layout M) i"
  shows "vm_mem v x = vm_mem (k_vm k) x"
proof -
  obtain T D where T: "vm_reachable (m_layout M) (k_vm k, T)" "owns k T" "spaces_ok (m_layout M) (k_vm k) T D"
    by (rule kinv_spaces [OF assms(1,2)])
  have i: "i < NPROC" "\<not> live k i" using unused_slot_SomeD [OF assms(3) kinv_length [OF assms(2)]] by simp_all
  have "vm_step (m_layout M) (Some i) (k_vm k, T) (v, add_space pt i T)"
    by (rule vm_step.clone [OF i(1) owns_free [OF T(2) i(2)] assms(4,5)])
  then show ?thesis using vm_step_memory [OF assms(1) _ T(3)] assms(6) by blast
qed

lemma proc_fork_safe:
  assumes "layout_ok (m_layout M)" "good M k" "k_current k = Some c" "length (tf_regs tf) = 32"
    and "{i. i < NPROC \<and> \<not> live k i} \<subseteq> S"
  shows "safe (\<lambda>(r, k'). harmless M S k k') (proc_fork M tf k)"
proof -
  have k: "kinv M k" "one_running k" using assms(2) by (simp_all add: good_def)
  note c = one_runningD(2,4) [OF k(2) assms(3)]
  note len = kinv_length [OF k(1)]
  have put: "harmless M S k (put_proc i p v k)"
    if "unused_slot k = Some i" "vm_clone_user (m_layout M) (int i) (int c) (k_vm k) = Inr (pt, v)"
      "kinv M (put_proc i p v k)" "p_state p \<noteq> P_RUNNING" for i p v pt
  proof -
    note i = unused_slot_SomeD [OF that(1) len]
    have "i \<in> S" using assms(5) i by blast
    then have "vm_mem v x = vm_mem (k_vm k) x" if "\<forall>s \<in> S. x \<notin> slot_memory (m_layout M) s" for x
      using clone_fork_memory [OF assms(1) k(1) \<open>unused_slot k = Some i\<close> c(1) \<open>vm_clone_user _ _ _ _ = _\<close>] that by blast
    then show ?thesis
      using that(3) one_running_put_proc [OF k(2) len i that(4)] by (simp add: harmless_def good_def put_proc_def)
  qed
  show ?thesis
  proof (cases rule: proc_fork_cases [OF assms(1) k(1) assms(3) c assms(4)])
    case 1
    then show ?thesis using harmless_refl [OF assms(2)] by simp
  next
    case (2 i v)
    then show ?thesis using put [OF 2(1,2,4)] by simp
  next
    case (3 i pt v)
    then show ?thesis using put [OF 3(1,2,5)] by (simp add: new_proc_def)
  qed
qed

lemma proc_sleep_vm: "k_vm (proc_sleep n k) = k_vm k"
  by (simp add: proc_sleep_def split: option.splits)

lemma do_syscall_safe:
  assumes "layout_ok (m_layout M)" "good M k" "k_current k = Some c" "length (tf_regs tf) = 32"
    and "c \<in> S" "{i. i < NPROC \<and> \<not> live k i} \<subseteq> S"
  shows "safe (\<lambda>(r, k'). harmless M S k k') (do_syscall M tf k)"
proof -
  let ?P = "\<lambda>(r :: int, k'). harmless M S k k'"
  have k: "kinv M k" "one_running k" using assms(2) by (simp_all add: good_def)
  note refl = harmless_refl [OF assms(2), of S]
  have "safe ?P (sys_read M tf k)"
    using refl read_loop_safe [OF assms(1-3) _ assms(5)] by (simp add: sys_read_def Let_def current_pt_good [OF assms(3)])
  moreover have "safe ?P (sys_fork M tf k)" using proc_fork_safe [OF assms(1-4,6)] by (simp add: sys_fork_def)
  moreover have "safe ?P (run_bind (proc_exit M s k) (\<lambda>k1. Done (0, k1)))" for s
    by (rule proc_exit_ok [OF assms(1) k assms(3), of s]) (simp add: good_def harmless_same)
  moreover have "safe ?P (sys_wait M k)"
    by (rule proc_wait_ok [OF assms(1) k assms(3)]) (simp add: sys_wait_def good_def harmless_same split: prod.splits)
  moreover have "harmless M S k (proc_sleep n k)" for n
    using proc_sleep_ok [OF k assms(3)] by (intro harmless_same) (simp_all add: good_def proc_sleep_vm)
  then have "safe ?P (Done (sys_sleep tf k))" using refl by (simp add: sys_sleep_def Let_def)
  moreover have "safe ?P (sys_ps k)" "safe ?P (sys_ls k)"
    unfolding sys_ps_def sys_ls_def by (rule safe_bind [OF safe_of_uart [OF assms(2)]], simp)+
  moreover note sys_write_safe [OF assms(1-3)] sys_cat_safe [OF assms(1-3)] refl
  ultimately show ?thesis unfolding do_syscall_def Let_def by (simp only: safe_simps case_prod_conv simp_thms split: if_split)
qed

lemma syscall_dispatch_safe:
  assumes "layout_ok (m_layout M)" "good M k" "k_current k = Some c"
    and "c \<in> S" "{i. i < NPROC \<and> \<not> live k i} \<subseteq> S"
  shows "safe (harmless M S k) (syscall_dispatch M c k)"
proof -
  have k: "kinv M k" "one_running k" using assms(2) by (simp_all add: good_def)
  have c: "c < NPROC" using one_runningD(2) [OF k(2) assms(3)] .
  have "safe (\<lambda>(r, k'). harmless M S k k') (do_syscall M (p_tf (proc_at k c)) k)"
    using do_syscall_safe [OF assms(1-3) _ assms(4,5)] kinv_regs [OF k(1) c] by blast
  moreover have "harmless M S k (set_proc c (\<lambda>p. p\<lparr>p_tf := set_reg 10 (of_int ret) (p_tf p)\<rparr>) k')" if h: "harmless M S k k'" for ret k'
  proof (rule harmless_trans [OF h])
    show "harmless M S k' (set_proc c (\<lambda>p. p\<lparr>p_tf := set_reg 10 (of_int ret) (p_tf p)\<rparr>) k')"
      using h c by (intro good_set_proc(2)) (auto simp: harmless_def same_core_def)
  qed
  ultimately show ?thesis
    unfolding syscall_dispatch_def by (intro safe_bind [where Q = "\<lambda>(r, k'). harmless M S k k'"]) auto
qed

section \<open>Traps keep the invariant\<close>

lemma good_quiet: "good M k \<Longrightarrow> k_current k = None \<Longrightarrow> quiet k"
  by (simp add: good_def one_running_def quiet_def)

lemma timer_tick_current [simp]: "k_current (timer_tick k) = k_current k" "k_vm (timer_tick k) = k_vm k"
    "k_ticks (timer_tick k) = k_ticks k + 1"
  by (simp_all add: tick_defs)

lemma good_tick: "good M k \<Longrightarrow> good M (timer_tick k)"
  unfolding good_def using timer_tick_ok(1,2) by blast

text \<open>A timer interrupt in user mode hands the turn to the next runnable process.\<close>

lemma timer_trap_eq:
  assumes "good M k" "k_current k = Some c"
  shows "timer_trap k = reschedule (set_proc c (\<lambda>p. p\<lparr>p_state := P_RUNNABLE\<rparr>) (timer_tick k))"
proof -
  let ?k = "set_proc c (\<lambda>p. p\<lparr>p_state := P_RUNNABLE\<rparr>) (timer_tick k)"
  have g: "good M (timer_tick k)" using good_tick [OF assms(1)] .
  have cur: "k_current (timer_tick k) = Some c" using assms(2) by simp
  have "p_state (proc_at (timer_tick k) c) = P_RUNNING" using one_runningD(3) [OF _ cur] g by (simp add: good_def)
  moreover have "k_current (snd (proc_schedule ?k)) = Some c"
    using cur by (simp add: proc_schedule_def split: option.splits)
  ultimately show ?thesis
    using cur unfolding timer_trap_def reschedule_def Let_def
    by (auto split: prod.splits option.splits)
qed

lemma runnable_quiet:
  assumes "good M k" "k_current k = Some c"
  shows "kinv M (set_proc c (\<lambda>p. p\<lparr>p_state := P_RUNNABLE\<rparr>) k)" "quiet (set_proc c (\<lambda>p. p\<lparr>p_state := P_RUNNABLE\<rparr>) k)"
proof -
  have k: "kinv M k" "one_running k" using assms(1) by (simp_all add: good_def)
  note c = one_runningD(2,3) [OF k(2) assms(2)]
  show "kinv M (set_proc c (\<lambda>p. p\<lparr>p_state := P_RUNNABLE\<rparr>) k)"
    using c by (intro kinv_set_proc [OF k(1)]) (simp_all add: same_core_def)
  show "quiet (set_proc c (\<lambda>p. p\<lparr>p_state := P_RUNNABLE\<rparr>) k)"
    by (rule quiet_set_current [OF k(2) assms(2) kinv_length [OF k(1)]]) simp
qed

lemma timer_trap_good:
  assumes "good M k" "k_current k = Some c"
  shows "harmless M S k (timer_trap k)"
proof -
  have "k_current (timer_tick k) = Some c" using assms(2) by simp
  note q = runnable_quiet [OF good_tick [OF assms(1)] this]
  then show ?thesis unfolding timer_trap_eq [OF assms] using reschedule_inv [OF q] by (intro harmless_same) (simp_all add: good_def)
qed

lemma bad_trap_safe:
  assumes "layout_ok (m_layout M)" "good M k" "k_current k = Some c"
  shows "safe (harmless M S k) (bad_trap M tf k)"
proof -
  have "safe (\<lambda>k'. good M k' \<and> k_current k' = Some c \<and> k_vm k' = k_vm k) (of_uart u k)" for u
    using assms by (cases u) (simp_all add: of_uart_def good_update)
  then show ?thesis
    unfolding bad_trap_def
  proof (rule safe_bind)
    fix k' assume "good M k' \<and> k_current k' = Some c \<and> k_vm k' = k_vm k"
    then have k': "kinv M k'" "one_running k'" "k_current k' = Some c" and v: "k_vm k' = k_vm k" by (simp_all add: good_def)
    show "safe (harmless M S k) (proc_exit M (-1) k')"
      by (rule proc_exit_ok [OF assms(1) k', of "-1"]) (simp add: good_def harmless_same v)
  qed
qed

lemma idle_wait_safe:
  assumes "good M k"
  shows "safe (\<lambda>k'. good M k' \<and> k_current k' \<noteq> None \<and> k_vm k' = k_vm k) (idle_wait n k)"
  using assms
proof (induction n arbitrary: k)
  case (Suc n)
  show ?case
  proof (cases "k_current k")
    case None
    have "kinv M (timer_tick k)" "quiet (timer_tick k)"
      using timer_tick_ok(1,3) Suc.prems good_quiet [OF Suc.prems None] unfolding good_def by blast+
    then have "good M (reschedule (timer_tick k))" using reschedule_inv by (simp add: good_def)
    then show ?thesis using Suc.IH [of "reschedule (timer_tick k)"] None by simp
  qed (use Suc.prems in simp)
qed simp

text \<open>The state in which a process runs: its page table is active and its traps arrive at \<^verbatim>\<open>user_trap_entry\<close>.\<close>

definition runs :: "machine \<Rightarrow> nat \<Rightarrow> kernel \<Rightarrow> bool" where
  "runs M c k \<longleftrightarrow> good M k \<and> k_current k = Some c \<and> k_satp k = vm_satp (p_pagetable (proc_at k c)) \<and> k_stvec k = user_trap_entry"

lemma live_table_nonzero:
  assumes "layout_ok (m_layout M)" "kinv M k" "i < NPROC" "live k i"
  shows "p_pagetable (proc_at k i) \<noteq> 0"
proof -
  obtain D where "user_table (m_layout M) (k_vm k) (p_pagetable (proc_at k i)) i D"
    using current_table [OF assms] by metis
  then obtain r where "p_pagetable (proc_at k i) = page_addr (m_layout M) r" "r < PT_POOL_PAGES"
    by (rule user_table_root [OF assms(1)])
  then show ?thesis using assms(1) by simp
qed

lemma switch_to_runs:
  assumes "layout_ok (m_layout M)" "good M k" "k_current k = Some c"
  obtains k' where "switch_to M (Some c) k = Done k'" "runs M c k'" "k_procs k' = k_procs k" "k_vm k' = k_vm k" "k_ticks k' = k_ticks k"
proof -
  have k: "kinv M k" "one_running k" using assms(2) by (simp_all add: good_def)
  note c = one_runningD(2,3) [OF k(2) assms(3)]
  have "set_proc c (\<lambda>p. p\<lparr>p_state := P_RUNNING\<rparr>) k = k"
    using c kinv_length [OF k(1)] by (simp add: set_proc_def list_update_same_conv)
  then have "switch_to M (Some c) k = Done (k\<lparr>k_satp := vm_satp (p_pagetable (proc_at k c)), k_stvec := user_trap_entry\<rparr>)"
    using live_table_nonzero [OF assms(1) k(1), of c] c by (simp add: switch_to_def vm_switch_def)
  moreover have "good M (k\<lparr>k_satp := vm_satp (p_pagetable (proc_at k c)), k_stvec := user_trap_entry\<rparr>)"
    using assms(2) by (simp add: good_update)
  ultimately show thesis using that assms(3) by (simp add: runs_def)
qed

lemma resume_runs:
  assumes "layout_ok (m_layout M)" "good M k" "k_current k = Some c"
  obtains k' where "resume M k = Done (User c, k')" "runs M c k'" "k_procs k' = k_procs k" "k_vm k' = k_vm k" "k_ticks k' = k_ticks k"
proof -
  have run: "p_state (proc_at k c) = P_RUNNING" using assms(2,3) one_runningD(3) by (simp add: good_def)
  obtain k' where k': "switch_to M (Some c) k = Done k'" "runs M c k'" "k_procs k' = k_procs k" "k_vm k' = k_vm k" "k_ticks k' = k_ticks k"
    by (rule switch_to_runs [OF assms])
  then have "resume M k = Done (User c, k')" using assms(3) run by (simp add: resume_def Let_def runs_def)
  then show thesis using that k' by blast
qed

text \<open>What a trap returns to.\<close>

fun in_target :: "machine \<Rightarrow> target \<times> kernel \<Rightarrow> bool" where
  "in_target M (User c, k) = runs M c k"
| "in_target M (Idle, k) = (good M k \<and> k_current k = None \<and> k_stvec k = kernel_trap_entry)"

lemma trap_handler_safe:
  assumes "layout_ok (m_layout M)" "good M k" "k_current k = Some c" "length (tf_regs tf) = 32"
    and "c \<in> S" "{i. i < NPROC \<and> \<not> live k i} \<subseteq> S"
  shows "safe (\<lambda>(t, k'). (\<exists>d. t = User d \<and> runs M d k') \<and> harmless M S k k') (trap_handler M rounds tf k)"
proof -
  let ?P = "\<lambda>(t, k'). (\<exists>d. t = User d \<and> runs M d k') \<and> harmless M S k k'"
  have k: "kinv M k" "one_running k" using assms(2) by (simp_all add: good_def)
  have c: "c < NPROC" using one_runningD(2) [OF k(2) assms(3)] .
  let ?k = "set_proc c (\<lambda>p. p\<lparr>p_tf := tf\<rparr>) k"
  let ?e = "set_proc c (\<lambda>p. p\<lparr>p_tf := (p_tf p)\<lparr>tf_sepc := tf_sepc (p_tf p) + 4\<rparr>\<rparr>) ?k"
  have g: "good M ?k" "harmless M S k ?k"
    using c kinv_regs [OF k(1) c] assms(4) by (intro good_set_proc [OF assms(2)]; simp add: same_core_def)+
  have e: "good M ?e" "harmless M S ?k ?e" using c by (intro good_set_proc [OF g(1)]; simp add: same_core_def)+
  have "{i. i < NPROC \<and> \<not> live ?e i} \<subseteq> S"
    using assms(6) c kinv_length [OF k(1)] by (auto simp: set_proc_at split: if_splits)
  then have "safe (harmless M S ?e) (syscall_dispatch M c ?e)" using syscall_dispatch_safe [OF assms(1) e(1) _ assms(5)] assms(3) by simp
  then have "safe (harmless M S k) (syscall_dispatch M c ?e)"
    by (rule safe_mono) (rule harmless_trans [OF harmless_trans [OF g(2) e(2)]])
  moreover have "harmless M S k (timer_trap ?k)" using harmless_trans [OF g(2) timer_trap_good [OF g(1)]] assms(3) by simp
  moreover have "safe (harmless M S k) (bad_trap M tf ?k)"
    by (rule safe_mono [OF bad_trap_safe [OF assms(1) g(1)]]) (use assms(3) harmless_trans [OF g(2)] in auto)
  ultimately have s: "safe (harmless M S k) (if tf_scause tf = SCAUSE_ECALL_U then syscall_dispatch M c ?e
      else if tf_scause tf = SCAUSE_STIMER then Done (timer_trap ?k) else bad_trap M tf ?k)" by simp
  have r: "safe ?P (resume M k')" if k': "harmless M S k k'" "k_current k' \<noteq> None" for k'
  proof -
    obtain d where d: "k_current k' = Some d" using k' by blast
    have "good M k'" using k'(1) by (simp add: harmless_def)
    then show ?thesis
      by (rule resume_runs [OF assms(1) _ d]) (use k'(1) in \<open>simp add: harmless_def runs_def\<close>)
  qed
  have "safe ?P (run_bind (idle_wait rounds k2) (resume M))" if h: "harmless M S k k2" for k2
  proof (rule safe_bind [OF idle_wait_safe])
    show "good M k2" using h by (simp add: harmless_def)
    show "safe ?P (resume M k')" if "good M k' \<and> k_current k' \<noteq> None \<and> k_vm k' = k_vm k2" for k'
      using that h by (intro r) (auto simp: harmless_def)
  qed
  then show ?thesis unfolding trap_handler_def Let_def assms(3) option.case by (rule safe_bind [OF s])
qed

lemma idle_target_safe:
  assumes "layout_ok (m_layout M)" "good M k" "k_current k = None"
  obtains k' where "idle_target M k = Done (Idle, k')" "in_target M (Idle, k')"
proof -
  have k: "kinv M k" "one_running k" using assms(2) by (simp_all add: good_def)
  obtain v s where v: "switch_to_kernel_pt M k = Done (k\<lparr>k_vm := v, k_satp := s\<rparr>)" "kinv M (k\<lparr>k_vm := v, k_satp := s\<rparr>)"
    by (rule switch_to_kernel_pt_ok [OF assms(1) k(1)])
  have "one_running (k\<lparr>k_vm := v, k_satp := s\<rparr>)" using k(2) by (simp add: one_running_def)
  then have "good M (k\<lparr>k_vm := v, k_satp := s, k_stvec := kernel_trap_entry\<rparr>)" using v(2) good_update(3) by (simp add: good_def kinv_update one_running_def)
  then show thesis using that v(1) assms(3) by (simp add: idle_target_def switch_to_def)
qed

lemma kernel_trap_safe:
  assumes "layout_ok (m_layout M)" "good M k" "k_current k = None"
  shows "safe (in_target M) (kernel_trap_handler M scause k)"
proof (cases "scause = SCAUSE_STIMER")
  case True
  let ?k = "reschedule (timer_tick k)"
  have "kinv M (timer_tick k)" "quiet (timer_tick k)"
    using timer_tick_ok(1,3) assms(2) good_quiet [OF assms(2,3)] unfolding good_def by blast+
  then have g: "good M ?k" using reschedule_inv by (simp add: good_def)
  show ?thesis
  proof (cases "k_current ?k")
    case None
    show ?thesis
      by (rule idle_target_safe [OF assms(1) g None]) (use True None assms(3) in \<open>simp add: kernel_trap_handler_def Let_def\<close>)
  next
    case (Some c)
    show ?thesis
      by (rule switch_to_runs [OF assms(1) g Some]) (use True Some assms(3) in \<open>simp add: kernel_trap_handler_def Let_def\<close>)
  qed
qed (simp add: kernel_trap_handler_def)

section \<open>The kernel as a state machine\<close>

lemma proc_init_inv:
  "kinv M (proc_init M (k\<lparr>k_vm := vm_init v\<rparr>))" "quiet (proc_init M (k\<lparr>k_vm := vm_init v\<rparr>))"
proof -
  let ?k = "proc_init M (k\<lparr>k_vm := vm_init v\<rparr>)"
  have at: "proc_at ?k i = \<lparr>p_pid = 0, p_state = P_UNUSED, p_exit_status = 0, p_parent = None, p_pagetable = 0,
      p_tf = tf_clear\<lparr>tf_kernel_sp := kstack_top M i\<rparr>, p_wake_tick = 0\<rparr>" if "i < NPROC" for i
    using that by (simp add: proc_init_def del: upt_Suc)
  have "procs_ok ?k"
    unfolding procs_ok_def by (simp add: at tf_clear_def inj_on_def cong: conj_cong) (simp add: proc_init_def)
  moreover have "owns ?k Map.empty" by (simp add: owns_def at cong: conj_cong)
  then have "spaces_match (m_layout M) ?k"
    unfolding spaces_match_def by (intro exI conjI) (simp_all add: proc_init_def vm_reachable.init)
  ultimately show "kinv M ?k" by (simp add: kinv_def)
  show "quiet ?k" unfolding quiet_def by (simp add: at) (simp add: proc_init_def)
qed

lemma quiet_put_proc:
  assumes "quiet k" "length (k_procs k) = NPROC" "i < NPROC" "p_state p \<noteq> P_RUNNING"
  shows "quiet (put_proc i p v k)"
  using assms by (auto simp: quiet_def put_proc_at) (simp add: put_proc_def)

text \<open>\<^verbatim>\<open>enter_user\<close> of \<^verbatim>\<open>kernel/entry.S\<close>: the page table and the trap vector of the first process.\<close>

definition enter_user :: "64 word \<Rightarrow> kernel \<Rightarrow> kernel" where
  "enter_user satp k = k\<lparr>k_satp := satp, k_stvec := user_trap_entry\<rparr>"

lemma main_safe:
  assumes "layout_ok (m_layout M)"
  shows "safe (\<lambda>(c, satp, k). runs M c (enter_user satp k)) (main M k0)"
proof -
  have boot: "safe (\<lambda>(c, satp, k). runs M c (enter_user satp k))
      (run_bind (of_uart u k) (\<lambda>k6. Done (c, vm_satp (p_pagetable (proc_at k6 c)), k6)))"
    if "good M k" "k_current k = Some c" for u k c
    using that by (cases u) (simp_all add: of_uart_def runs_def enter_user_def good_update)
  show ?thesis
  proof (cases "uart_puts print_banner (uart_init (k_uart k0))")
    case None
    then show ?thesis by (simp add: main_def of_uart_def)
  next
    case (Some u)
    let ?k1 = "k0\<lparr>k_uart := u\<rparr>"
    let ?k2 = "proc_init M (?k1\<lparr>k_vm := vm_init (k_vm ?k1)\<rparr>)"
    let ?k3 = "timer_init (?k2\<lparr>k_stvec := kernel_trap_entry\<rparr>)"
    have k3: "kinv M ?k3" "quiet ?k3"
      using proc_init_inv [where k = ?k1 and v = "k_vm ?k1"] by (simp_all add: kinv_update quiet_def)
    note len = kinv_length [OF k3(1)]
    show ?thesis
    proof (cases rule: proc_create_init_cases [OF assms k3(1)])
      case (1 k')
      then show ?thesis using Some by (simp add: main_def of_uart_def Let_def)
    next
      case (2 i pt v)
      let ?k4 = "put_proc i (new_proc ?k3 None pt (prepare_user_tf M i)) v ?k3"
      have "quiet ?k4" by (rule quiet_put_proc [OF k3(2) len 2(2)]) (simp add: new_proc_def)
      then have "good M (reschedule ?k4)" using reschedule_inv [OF 2(5)] by (simp add: good_def)
      then show ?thesis
        using Some 2(4) boot by (simp add: main_def of_uart_def [of "Some u"] Let_def split: option.split)
    qed
  qed
qed

inductive kernel_reachable :: "machine \<Rightarrow> target \<times> kernel \<Rightarrow> bool" for M where
  boot: "main M k0 = Done (c, satp, k) \<Longrightarrow> kernel_reachable M (User c, enter_user satp k)"
| store: "kernel_reachable M (User c, k) \<Longrightarrow> copyout (m_layout M) (p_pagetable (proc_at k c)) va bs (k_vm k) = Inr (rc, v) \<Longrightarrow>
    kernel_reachable M (User c, k\<lparr>k_vm := v\<rparr>)"
| trap: "kernel_reachable M (User c, k) \<Longrightarrow> length (tf_regs tf) = 32 \<Longrightarrow> trap_handler M rounds tf k = Done st \<Longrightarrow>
    kernel_reachable M st"
| idle_trap: "kernel_reachable M (Idle, k) \<Longrightarrow> kernel_trap_handler M scause k = Done st \<Longrightarrow> kernel_reachable M st"

lemma kernel_reachable_runs:
  assumes "layout_ok (m_layout M)" "kernel_reachable M st"
  shows "\<exists>c k. st = (User c, k) \<and> runs M c k"
  using assms(2)
proof induction
  case (boot k0 c satp k)
  then show ?case using main_safe [OF assms(1), of k0] by simp
next
  case (store c k va bs rc v)
  then have r: "good M k" "k_current k = Some c" "runs M c k" by (simp_all add: runs_def)
  obtain rc' v' where "copyout (m_layout M) (p_pagetable (proc_at k c)) va bs (k_vm k) = Inr (rc', v')" "good M (k\<lparr>k_vm := v'\<rparr>)"
    by (rule good_copyout [OF assms(1) r(1,2)])
  then show ?case using store(2) r(3) by (simp add: runs_def)
next
  case (trap c k tf rounds st)
  then have "good M k" "k_current k = Some c" by (simp_all add: runs_def)
  then have "safe (\<lambda>(t, k'). (\<exists>d. t = User d \<and> runs M d k') \<and> harmless M UNIV k k') (trap_handler M rounds tf k)"
    using trap_handler_safe [OF assms(1), of k c tf UNIV] trap(2) by simp
  then show ?case using trap(3) by (cases st) auto
qed simp

end
