(* ===== verification/Nano_Pool.thy ===== *)
theory Nano_Pool
  imports Nano_Isolation
begin

text \<open>
  The pool of page-table pages of \<^verbatim>\<open>kernel/vm.c\<close> never runs out: in every reachable state all pages in use
  belong to a live address space or to the kernel's own table, and each of these has at most 39 of the
  1024 pages. Creating or cloning an address space for a free slot therefore always succeeds.
\<close>

lemma grows_kernel:
  assumes "grows v pos v' pos'"
  shows "grows (v\<lparr>vm_kernel_pt := p\<rparr>) pos (v'\<lparr>vm_kernel_pt := p\<rparr>) pos'"
  using assms by (simp add: grows_def shaped_kernel)

lemma kernel_pagetable_takes:
  assumes "layout_ok L" "vm_ok v" "card (used v) + card (space_paths L) < PT_POOL_PAGES"
  obtains pt v' where "kernel_pagetable L v = Inr (pt, v')" "pt \<noteq> 0" "vm_kernel_pt v' = pt" "vm_kernel_pt v \<noteq> 0 \<Longrightarrow> v' = v"
    "used v \<subseteq> used v'" "card (used v' - used v) \<le> card (space_paths L)"
proof (cases "vm_kernel_pt v = 0")
  case False
  then show thesis using that [of "vm_kernel_pt v" v] by (simp add: kernel_pagetable_def)
next
  case z: True
  show thesis
  proof (cases rule: fresh_table [OF assms(1,2)])
    case 1
    then show thesis using assms(3) by simp
  next
    case (2 r v1)
    let ?p = "page_addr L r"
    have nz: "?p \<noteq> 0" using assms(1) 2(2) by simp
    have sh: "shaped L (v1\<lparr>vm_kernel_pt := ?p\<rparr>) r [r \<mapsto> []]" and lf: "\<And>m e. \<not> leaf (v1\<lparr>vm_kernel_pt := ?p\<rparr>) [r \<mapsto> []] m e"
      using 2(4,6) by (simp_all add: shaped_kernel)
    have g1: "grows (v\<lparr>vm_kernel_pt := ?p\<rparr>) Map.empty (v1\<lparr>vm_kernel_pt := ?p\<rparr>) [r \<mapsto> []]" by (rule grows_kernel [OF 2(5)])
    have sub: "ran pos \<subseteq> space_paths L" if "ran pos \<subseteq> ran [r \<mapsto> []] \<union> kernel_paths L" for pos
      using that by (auto simp: space_paths_def)
    have fin: "finite (space_paths L)" using finite_paths by blast
    show thesis
    proof (cases rule: kernel_map_cases [OF assms(1) sh lf])
      case (1 v2 pos)
      have "PT_POOL_PAGES \<le> card (used (v\<lparr>vm_kernel_pt := ?p\<rparr>)) + card (space_paths L)"
        by (rule full_bound [OF assms(1) grows_trans [OF g1 1(3)] 1(2) sub [OF 1(4)] fin 1(5)])
      then show thesis using assms(3) by (simp add: shaped_kernel)
    next
      case k: (2 v2 pos)
      have g: "grows (v\<lparr>vm_kernel_pt := ?p\<rparr>) Map.empty v2 pos" by (rule grows_trans [OF g1 k(3)])
      then have u: "used v2 = used v \<union> dom pos" "vm_kernel_pt v2 = ?p" by (simp_all add: grows_def shaped_kernel)
      have t: "tree L v2 r pos" using k(2) by (simp add: shaped_def)
      have "card (used v2 - used v) \<le> card (dom pos)"
        using u(1) table_card(1) [OF assms(1) t sub [OF k(4)] fin] by (intro card_mono) auto
      also have "\<dots> \<le> card (space_paths L)" by (rule table_card(2) [OF assms(1) t sub [OF k(4)] fin])
      finally show thesis
        using that [of ?p v2] z 2(1) nz k(1) u by (simp add: kernel_pagetable_def Let_def)
    qed
  qed
qed

text \<open>Every page in use belongs to a live address space or to the kernel's table.\<close>

definition pool_ok :: "layout \<Rightarrow> vm \<Rightarrow> spaces \<Rightarrow> (addr \<Rightarrow> nat set) \<Rightarrow> nat set \<Rightarrow> bool" where
  "pool_ok L v T D K \<longleftrightarrow>
     spaces_ok L v T D \<and> used v \<subseteq> (\<Union>pt \<in> dom T. D pt) \<union> K \<and> (\<forall>pt \<in> dom T. card (D pt) \<le> 39) \<and>
     finite K \<and> card K \<le> 39 \<and> (vm_kernel_pt v = 0 \<longrightarrow> K = {})"

lemma live_spaces_few:
  assumes "spaces_ok L v T D"
  shows "finite (dom T)" "card (dom T) \<le> NPROC"
proof -
  show f: "finite (dom T)" using assms by (simp add: spaces_ok_def)
  have i: "inj_on (\<lambda>pt. the (T pt)) (dom T)"
  proof (rule inj_onI)
    fix a b
    assume ab: "a \<in> dom T" "b \<in> dom T" "the (T a) = the (T b)"
    then have "T a = T b" by auto
    then show "a = b" using assms ab unfolding spaces_ok_def by metis
  qed
  have "(\<lambda>pt. the (T pt)) ` dom T \<subseteq> {..<NPROC}" using assms by (auto simp: spaces_ok_def)
  then have "card (dom T) \<le> card {..<NPROC}" by (intro card_inj_on_le [OF i]) auto
  then show "card (dom T) \<le> NPROC" by simp
qed

lemma pool_ok_card:
  assumes "pool_ok L v T D K"
  shows "card (used v) \<le> 351"
proof -
  have s: "spaces_ok L v T D" using assms by (simp add: pool_ok_def)
  note few = live_spaces_few [OF s]
  have fd: "finite (D pt)" if "pt \<in> dom T" for pt
    using finite_subset [OF spaces_ok_used [OF s that]] by (simp add: used_def)
  have "card (used v) \<le> card ((\<Union>pt \<in> dom T. D pt) \<union> K)"
    using assms few(1) fd by (intro card_mono) (auto simp: pool_ok_def)
  also have "\<dots> \<le> card (\<Union>pt \<in> dom T. D pt) + card K" by (rule card_Un_le)
  also have "card (\<Union>pt \<in> dom T. D pt) \<le> (\<Sum>pt \<in> dom T. card (D pt))" by (rule card_UN_le [OF few(1)])
  also have "\<dots> \<le> card (dom T) * 39" using sum_bounded_above [of "dom T" "\<lambda>pt. card (D pt)" 39] assms by (simp add: pool_ok_def)
  finally show ?thesis using few(2) assms by (simp add: pool_ok_def)
qed

lemma pool_ok_build:
  assumes "layout_ok L" "lay_kernel_end L \<le> 0x84000000" "pool_ok L v T D K" "s < NPROC" "s \<notin> ran T" "build_space L s g v = Inr (pt, v')"
  shows "pool_ok L v' (add_space pt s T) (D(pt := used v' - used v)) K"
proof -
  have s: "spaces_ok L v T D" using assms(3) by (simp add: pool_ok_def)
  then have ok: "vm_ok v" "kernel_ok L v" by (simp_all add: spaces_ok_def)
  have few: "card (used v) \<le> 984" using pool_ok_card [OF assms(3)] by simp
  have b: "pt \<noteq> 0" "made L s pt v v'"
    by (rule build_space_succeeds [OF assms(1,2,4) ok few, of g]; use assms(6) in simp)+
  have "spaces_ok L v' (T(pt \<mapsto> s)) (D(pt := used v' - used v))" by (rule spaces_ok_add [OF assms(1) s assms(4,5) b(2)])
  moreover have "card (used v' - used v) \<le> 39" "vm_kernel_pt v' = vm_kernel_pt v"
    using b(2) space_paths_card [OF assms(1,2)] by (simp_all add: made_def)
  moreover have "used v' \<subseteq> (\<Union>q \<in> dom (T(pt \<mapsto> s)). (D(pt := used v' - used v)) q) \<union> K"
  proof
    fix x
    assume "x \<in> used v'"
    then consider "x \<in> used v' - used v" | "x \<in> K" | q where "q \<in> dom T" "x \<in> D q"
      using assms(3) unfolding pool_ok_def by blast
    then show "x \<in> (\<Union>q \<in> dom (T(pt \<mapsto> s)). (D(pt := used v' - used v)) q) \<union> K"
      using made_fresh [OF assms(1) s b(2)] by cases auto
  qed
  ultimately show ?thesis using assms(3) b(1) by (simp add: pool_ok_def add_space_def)
qed

lemma pool_ok_step:
  assumes "layout_ok L" "lay_kernel_end L \<le> 0x84000000" "vm_step L l (v, T) (v', T')" "pool_ok L v T D K"
  shows "\<exists>D' K'. pool_ok L v' T' D' K'"
  using assms(3)
proof (cases rule: vm_step.cases)
  case (create s img pt)
  then show ?thesis using pool_ok_build [OF assms(1,2,4)] by (simp add: create_is_build) blast
next
  case (clone d s pt)
  then show ?thesis using pool_ok_build [OF assms(1,2,4)] by (simp add: clone_is_build) blast
next
  case (destroy pt s)
  have s: "spaces_ok L v T D" using assms(4) by (simp add: pool_ok_def)
  obtain w where w: "vm_destroy L pt v = Inr w" "freed v (D pt) w" "spaces_ok L w (T(pt := None)) D"
    by (rule spaces_ok_destroy [OF assms(1) s destroy(3)])
  have "used w \<subseteq> (\<Union>q \<in> dom (T(pt := None)). D q) \<union> K" using w(2) assms(4) by (fastforce simp: pool_ok_def freed_def)
  then have "pool_ok L v' T' D K" using w destroy assms(4) by (simp add: pool_ok_def freed_def)
  then show ?thesis by blast
next
  case (store pt s va bs rc)
  have "s < NPROC" "user_table L v pt s (D pt)" using assms(4) store by (simp_all add: pool_ok_def spaces_ok_def)
  then obtain m where "v' = v\<lparr>vm_mem := m\<rparr>" using copyout_writes [OF assms(1), of s v pt "D pt" va bs] store by (auto simp: slot_write_def)
  then have "pool_ok L v' T' D K" using assms(4) store(2) by (simp add: pool_ok_def spaces_ok_mem used_def)
  then show ?thesis by blast
next
  case (kernel pt)
  have s: "spaces_ok L v T D" using assms(4) by (simp add: pool_ok_def)
  have "card (used v) + card (space_paths L) < PT_POOL_PAGES" using pool_ok_card [OF assms(4)] space_paths_card [OF assms(1,2)] by simp
  moreover have "vm_ok v" using s by (simp add: spaces_ok_def)
  ultimately obtain w where w: "kernel_pagetable L v = Inr (pt, w)" "vm_kernel_pt w \<noteq> 0" "vm_kernel_pt v \<noteq> 0 \<Longrightarrow> w = v"
    "used v \<subseteq> used w" "card (used w - used v) \<le> 39"
    using kernel_pagetable_takes [OF assms(1), of v] space_paths_card [OF assms(1,2)] kernel(3) by (metis Inr_inject Pair_inject le_trans)
  have e: "v' = w" "T' = T" using w(1) kernel by simp_all
  have s': "spaces_ok L w T D" by (rule spaces_ok_kernel [OF assms(1) s w(1)])
  have "pool_ok L w T D (if vm_kernel_pt v = 0 then used w - used v else K)"
    using assms(4) s' w(2-5) by (auto simp: pool_ok_def used_def)
  then show ?thesis unfolding e by blast
qed

lemma pool_reachable:
  assumes "layout_ok L" "lay_kernel_end L \<le> 0x84000000" "vm_reachable L st"
  shows "\<exists>D K. pool_ok L (fst st) (snd st) D K"
  using assms(3)
proof induction
  case (init v)
  have "pool_ok L (vm_init v) Map.empty (\<lambda>_. {}) {}"
    by (simp add: pool_ok_def spaces_ok_def vm_init_def vm_ok_def kernel_ok_def used_def)
  then show ?case by (simp add: fst_def snd_def) blast
next
  case (step st l st')
  then show ?case using pool_ok_step [OF assms(1,2), of l "fst st" "snd st" "fst st'" "snd st'"] by auto
qed

lemma pool_room:
  assumes "layout_ok L" "lay_kernel_end L \<le> 0x84000000" "vm_reachable L (v, T)"
  shows "card (used v) \<le> 351" "vm_ok v" "kernel_ok L v"
proof -
  obtain D K where "pool_ok L v T D K" using pool_reachable [OF assms] by auto
  then show "card (used v) \<le> 351" "vm_ok v" "kernel_ok L v" using pool_ok_card [of L v T D K] by (simp_all add: pool_ok_def spaces_ok_def)
qed

end
