(* ===== verification/Nano_System.thy ===== *)
theory Nano_System
  imports Nano_Traps Nano_Pool
begin

text \<open>
  The running kernel of NanoBoot: it boots, what a trap from a process does as a whole, and concrete machines and states on which
  the properties are exercised.
\<close>

section \<open>There is room for every process\<close>

lemma kinv_room:
  assumes "layout_ok (m_layout M)" "lay_kernel_end (m_layout M) \<le> 0x84000000" "kinv M k"
  shows "vm_ok (k_vm k)" "kernel_ok (m_layout M) (k_vm k)" "card (used (k_vm k)) \<le> 984"
proof -
  obtain T where "vm_reachable (m_layout M) (k_vm k, T)" using assms(3) by (auto simp: kinv_def spaces_match_def)
  note r = pool_room [OF assms(1,2) this]
  then show "vm_ok (k_vm k)" "kernel_ok (m_layout M) (k_vm k)" "card (used (k_vm k)) \<le> 984" by simp_all
qed

lemma proc_create_init_succeeds:
  assumes "layout_ok (m_layout M)" "lay_kernel_end (m_layout M) \<le> 0x84000000" "kinv M k" "unused_slot k = Some i"
  obtains pt v where "proc_create_init M k = Done (Some i, put_proc i (new_proc k None pt (prepare_user_tf M i)) v k)"
    "kinv M (put_proc i (new_proc k None pt (prepare_user_tf M i)) v k)"
proof -
  note len = kinv_length [OF assms(3)]
  have i: "i < NPROC" using unused_slot_SomeD(1) [OF assms(4) len] .
  obtain pt v where c: "vm_create_user (m_layout M) (m_image M) (int i) (k_vm k) = Inr (pt, v)" "pt \<noteq> 0"
    by (rule create_succeeds [OF assms(1,2) i kinv_room [OF assms(1-3)]])
  then have "proc_create_init M k = Done (Some i, put_proc i (new_proc k None pt (prepare_user_tf M i)) v k)"
    using assms(4) claim_put(1) [OF len i, where tf = "prepare_user_tf M i" and pt = pt and par = None and v = v]
    by (simp add: proc_create_init_def Let_def)
  then show thesis using that by (cases rule: proc_create_init_cases [OF assms(1,3)]) auto
qed

section \<open>Booting\<close>

lemma uart_puts_idle:
  assumes "idle_for (length (crlf (c_str s)) + n) u"
  obtains u' where "uart_puts s u = Some u'" "idle_for n u'" "uart_thr u' = uart_thr u @ crlf (c_str s)"
  using put_chars_idle [OF assms] put_chars_thr unfolding uart_puts_put_chars by blast

lemma uart_print_int_idle:
  assumes "idle_for (length (dec_int (sint x)) + n) u"
  obtains u' where "uart_print_int x u = Some u'" "idle_for n u'" "uart_thr u' = uart_thr u @ dec_int (sint x)"
proof -
  have "idle_for (length (crlf (dec_int (sint x))) + n) u" using assms by (simp add: crlf_dec)
  then obtain u' where u': "put_chars (dec_int (sint x)) u = Some u'" "idle_for n u'" using put_chars_idle by blast
  then show thesis using that put_chars_thr [OF u'(1)] by (simp add: uart_print_int_chars crlf_dec)
qed

text \<open>Printing takes the status reads it needs and leaves the characters received alone.\<close>

definition uses :: "uart \<Rightarrow> uart \<Rightarrow> bool" where
  "uses u u' \<longleftrightarrow> uart_rhr u' = uart_rhr u \<and> (\<exists>p. uart_lsr u = p @ uart_lsr u')"

lemma uses_trans: "uses u v \<Longrightarrow> uses v w \<Longrightarrow> uses u w"
  by (auto simp: uses_def)

lemma poll_suffix: "poll bits ss = Some ss' \<Longrightarrow> \<exists>p. ss = p @ ss'"
proof (induction ss)
  case (Cons s ss)
  show ?case
  proof (cases "s AND bits = 0")
    case True
    then obtain p where "ss = p @ ss'" using Cons by auto
    then show ?thesis by (intro exI [of _ "s # p"]) simp
  next
    case False
    then show ?thesis using Cons.prems by (intro exI [of _ "[s]"]) simp
  qed
qed simp

lemma uart_putc_uses: "uart_putc c u = Some u' \<Longrightarrow> uses u u'"
proof -
  have send: "uses u u'" if "uart_send c u = Some u'" for c u u'
    using that poll_suffix [of TX_IDLE "uart_lsr u"] by (auto simp: uart_send_def uses_def)
  assume "uart_putc c u = Some u'"
  then show ?thesis using send uses_trans by (fastforce simp: uart_putc_def split: if_splits Option.bind_splits)
qed

lemma put_chars_uses: "put_chars s u = Some u' \<Longrightarrow> uses u u'"
proof (induction s arbitrary: u)
  case Nil
  then show ?case by (simp add: uses_def)
next
  case (Cons c s)
  then obtain v where "uart_putc c u = Some v" "put_chars s v = Some u'" by (auto split: Option.bind_splits)
  then show ?case using Cons.IH uart_putc_uses uses_trans by blast
qed

lemma unused_slot_init: "unused_slot (timer_init ((proc_init M k)\<lparr>k_stvec := x\<rparr>)) = Some 0"
  by (simp add: unused_slot_def proc_init_def upt_conv_Cons)

definition boot_text :: string where
  "boot_text = print_banner @ ''init: pid=1 ready'' @ [newline]"

lemma boot_text_printed:
  assumes "idle_for (length (crlf boot_text) + n) u"
  obtains u1 u2 u3 u4 where "uart_puts print_banner u = Some u1" "uart_puts ''init: pid='' u1 = Some u2"
    "uart_print_int 1 u2 = Some u3" "uart_puts ('' ready'' @ [newline]) u3 = Some u4" "uart_thr u4 = uart_thr u @ crlf boot_text"
    "idle_for n u4" "uses u u4"
proof -
  let ?r = "'' ready'' @ [newline]"
  have e: "c_str print_banner = print_banner" "c_str ''init: pid='' = ''init: pid=''"
    "c_str ?r = ?r" "dec_int (sint (1 :: 64 word)) = ''1''"
    by (simp_all add: c_str_def print_banner_def) code_simp
  have p: "uart_puts print_banner = put_chars print_banner" "uart_puts ''init: pid='' = put_chars ''init: pid=''"
    "uart_puts ?r = put_chars ?r" "uart_print_int 1 = put_chars ''1''"
    unfolding fun_eq_iff uart_puts_put_chars uart_print_int_chars e by simp_all
  have step: "\<exists>u'. put_chars s u = Some u' \<and> idle_for m u' \<and> uart_thr u' = uart_thr u @ crlf s \<and> uses u u'"
    if "idle_for (length (crlf s) + m) u" for s m u
    using put_chars_idle [OF that] put_chars_thr put_chars_uses by blast
  have "idle_for (length (crlf print_banner) + (length (crlf ''init: pid='') + (length (crlf ''1'') + (length (crlf ?r) + n)))) u"
    using assms by (simp add: boot_text_def)
  from step [OF this] obtain u1 where u1: "put_chars print_banner u = Some u1" "uart_thr u1 = uart_thr u @ crlf print_banner" "uses u u1"
    "idle_for (length (crlf ''init: pid='') + (length (crlf ''1'') + (length (crlf ?r) + n))) u1" by blast
  from step [OF u1(4)] obtain u2 where u2: "put_chars ''init: pid='' u1 = Some u2" "uart_thr u2 = uart_thr u1 @ crlf ''init: pid=''" "uses u1 u2"
    "idle_for (length (crlf ''1'') + (length (crlf ?r) + n)) u2" by blast
  from step [OF u2(4)] obtain u3 where u3: "put_chars ''1'' u2 = Some u3" "uart_thr u3 = uart_thr u2 @ crlf ''1''" "uses u2 u3"
    "idle_for (length (crlf ?r) + n) u3" by blast
  from step [OF u3(4)] obtain u4 where u4: "put_chars ?r u3 = Some u4" "uart_thr u4 = uart_thr u3 @ crlf ?r" "uses u3 u4" "idle_for n u4" by blast
  have "uart_thr u4 = uart_thr u @ crlf boot_text" using u1(2) u2(2) u3(2) u4(2) by (simp add: boot_text_def)
  moreover have "uses u u4" using u1(3) u2(3) u3(3) u4(3) uses_trans by blast
  ultimately show thesis using that u1(1) u2(1) u3(1) u4(1,4) unfolding p by blast
qed

lemma main_boots:
  assumes "layout_ok (m_layout M)" "lay_kernel_end (m_layout M) \<le> 0x84000000" "idle_for (length (crlf boot_text) + n) (k_uart k0)"
  obtains satp k where "main M k0 = Done (0, satp, k)" "runs M 0 (enter_user satp k)" "p_pid (proc_at k 0) = 1"
    "\<And>i. i < NPROC \<Longrightarrow> i \<noteq> 0 \<Longrightarrow> \<not> live k i" "uart_thr (k_uart k) = uart_thr (k_uart k0) @ crlf boot_text"
    "p_tf (proc_at k 0) = prepare_user_tf M 0" "k_next_pid k = 2" "k_ticks k = 0" "p_parent (proc_at k 0) = None" "p_wake_tick (proc_at k 0) = 0"
    "idle_for n (k_uart k)" "uses (k_uart k0) (k_uart k)"
proof -
  obtain u1 u2 u3 u4 where u: "uart_puts print_banner (uart_init (k_uart k0)) = Some u1" "uart_puts ''init: pid='' u1 = Some u2"
    "uart_print_int 1 u2 = Some u3" "uart_puts ('' ready'' @ [newline]) u3 = Some u4" "uart_thr u4 = uart_thr (k_uart k0) @ crlf boot_text"
    "idle_for n u4" "uses (k_uart k0) u4"
  proof -
    have "idle_for (length (crlf boot_text) + n) (uart_init (k_uart k0))" using assms(3) by (simp add: idle_for_def)
    then show thesis by (rule boot_text_printed) (use that in \<open>simp add: uses_def\<close>)
  qed
  define k3 where "k3 = timer_init ((proc_init M (k0\<lparr>k_uart := u1, k_vm := vm_init (k_vm k0)\<rparr>))\<lparr>k_stvec := kernel_trap_entry\<rparr>)"
  have k3: "kinv M k3"
    using proc_init_inv [where k = "k0\<lparr>k_uart := u1\<rparr>" and v = "k_vm k0"] by (simp add: k3_def kinv_update)
  note len = kinv_length [OF k3]
  have f: "k_uart k3 = u1" "k_next_pid k3 = 1" "k_ticks k3 = 0" "unused_slot k3 = Some 0"
    by (simp_all add: k3_def unused_slot_init) (simp_all add: proc_init_def)
  have at3: "\<not> live k3 i" if "i < NPROC" for i using that by (simp add: k3_def proc_init_def del: upt_Suc)
  obtain pt v where c: "proc_create_init M k3 = Done (Some 0, put_proc 0 (new_proc k3 None pt (prepare_user_tf M 0)) v k3)"
    "kinv M (put_proc 0 (new_proc k3 None pt (prepare_user_tf M 0)) v k3)"
    by (rule proc_create_init_succeeds [OF assms(1,2) k3 f(4)])
  define p where "p = new_proc k3 None pt (prepare_user_tf M 0)"
  have pf: "p_pid p = 1" "p_state p = P_RUNNABLE" "p_tf p = prepare_user_tf M 0" "p_parent p = None" "p_wake_tick p = 0" using f(2) by (simp_all add: p_def new_proc_def)
  define k4 where "k4 = put_proc 0 p v k3"
  have at4: "proc_at k4 i = (if i = 0 then p else proc_at k3 i)" for i unfolding k4_def by (rule put_proc_at [OF len]) simp
  have len4: "length (k_procs k4) = NPROC" using kinv_length [OF c(2)] by (simp add: k4_def p_def)
  have k5: "reschedule k4 = (set_proc 0 (\<lambda>p. p\<lparr>p_state := P_RUNNING\<rparr>) (k4\<lparr>k_last_slot := 0\<rparr>))\<lparr>k_current := Some 0\<rparr>"
  proof (cases rule: reschedule_cases [OF len4])
    case 1
    then show ?thesis using pf(2) at4 [of 0] 1(2) [of 0] by simp
  next
    case (2 i)
    then have "i = 0" using at3 [of i] at4 [of i] by (cases "i = 0") auto
    then show ?thesis using 2(1) by simp
  qed
  let ?k5 = "(set_proc 0 (\<lambda>p. p\<lparr>p_state := P_RUNNING\<rparr>) (k4\<lparr>k_last_slot := 0\<rparr>))\<lparr>k_current := Some 0\<rparr>"
  have at5: "proc_at ?k5 i = (if i = 0 then p\<lparr>p_state := P_RUNNING\<rparr> else proc_at k3 i)" for i
    using len4 at4 [of i] at4 [of 0] by (auto simp: set_proc_at)
  have f5: "k_uart ?k5 = u1" "k_next_pid ?k5 = 2" "k_ticks ?k5 = 0" "k_current ?k5 = Some 0" "p_pid (proc_at ?k5 0) = 1"
    using f at5 [of 0] pf(1) by (simp_all add: k4_def put_proc_def)
  have "main M k0 = run_bind (proc_create_init M k3) (\<lambda>(i, k4). case i of None \<Rightarrow> Hang | Some _ \<Rightarrow>
      let k5 = reschedule k4 in
      (case k_current k5 of None \<Rightarrow> Hang
       | Some c \<Rightarrow> run_bind (of_uart (Option.bind (uart_puts ''init: pid='' (k_uart k5)) (\<lambda>u1.
             Option.bind (uart_print_int (of_int (p_pid (proc_at k5 c))) u1) (uart_puts ('' ready'' @ [newline])))) k5)
           (\<lambda>k6. Done (c, vm_satp (p_pagetable (proc_at k6 c)), k6))))"
    unfolding main_def panic_hangs u(1) k3_def by (simp add: of_uart_def [of "Some u1"])
  also have "\<dots> = Done (0, vm_satp (p_pagetable (proc_at ?k5 0)), ?k5\<lparr>k_uart := u4\<rparr>)"
    unfolding c(1) p_def [symmetric] k4_def [symmetric] run_bind.simps prod.case option.case k5 Let_def f5(4) f5(5) f5(1)
    using u(2-4) by (simp add: of_uart_def)
  finally have m: "main M k0 = Done (0, vm_satp (p_pagetable (proc_at ?k5 0)), ?k5\<lparr>k_uart := u4\<rparr>)" .
  have "runs M 0 (enter_user (vm_satp (p_pagetable (proc_at ?k5 0))) (?k5\<lparr>k_uart := u4\<rparr>))"
    using main_safe [OF assms(1), of k0] unfolding m by simp
  then show thesis
    by (rule that [OF m]) (use at5 at3 f5 u(5-7) pf in simp_all)
qed

section \<open>System calls as traps\<close>

text \<open>The state in which a system call starts: the trap frame is saved and the return address is behind the call.\<close>

definition call_frame :: "trapframe \<Rightarrow> trapframe" where
  "call_frame tf = tf\<lparr>tf_sepc := tf_sepc tf + 4\<rparr>"

definition call_state :: "nat \<Rightarrow> trapframe \<Rightarrow> kernel \<Rightarrow> kernel" where
  "call_state c tf k = set_proc c (\<lambda>p. p\<lparr>p_tf := call_frame tf\<rparr>) k"

lemma idle_wait_current [simp]: "k_current k = Some c \<Longrightarrow> idle_wait n k = Done k"
  by (cases n) simp_all

lemma call_state_good:
  assumes "good M k" "k_current k = Some c" "length (tf_regs tf) = 32"
  shows "good M (call_state c tf k)" "c < NPROC" "p_tf (proc_at (call_state c tf k) c) = call_frame tf" "live k c"
    "k_current (call_state c tf k) = Some c" "k_vm (call_state c tf k) = k_vm k" "k_next_pid (call_state c tf k) = k_next_pid k"
    "unused_slot (call_state c tf k) = unused_slot k"
proof -
  have k: "kinv M k" "one_running k" using assms(1) by (simp_all add: good_def)
  show c: "c < NPROC" "live k c" using one_runningD(2,4) [OF k(2) assms(2)] by simp_all
  note len = kinv_length [OF k(1)]
  show "good M (call_state c tf k)"
    unfolding call_state_def using c kinv_regs [OF k(1) c(1)] assms(3)
    by (intro good_set_proc(1) [OF assms(1)]) (simp_all add: same_core_def call_frame_def)
  show "p_tf (proc_at (call_state c tf k) c) = call_frame tf" using c len by (simp add: call_state_def set_proc_at)
  show "unused_slot (call_state c tf k) = unused_slot k"
    unfolding unused_slot_def call_state_def set_proc_def using c len by (simp add: first_index_update)
qed (simp_all add: call_state_def assms(2))

lemma call_state_eq:
  assumes "good M k" "k_current k = Some c" "length (tf_regs tf) = 32"
  shows "set_proc c (\<lambda>p. p\<lparr>p_tf := (p_tf p)\<lparr>tf_sepc := tf_sepc (p_tf p) + 4\<rparr>\<rparr>) (set_proc c (\<lambda>p. p\<lparr>p_tf := tf\<rparr>) k) = call_state c tf k"
proof -
  have "length (k_procs k) = NPROC" using assms(1) kinv_length by (auto simp: good_def)
  then show ?thesis using call_state_good(2) [OF assms] by (simp add: call_state_def call_frame_def set_proc_def)
qed

lemma trap_ecall:
  assumes "layout_ok (m_layout M)" "good M k" "k_current k = Some c" "length (tf_regs tf) = 32" "tf_scause tf = SCAUSE_ECALL_U"
    and "do_syscall M (call_frame tf) (call_state c tf k) = Done (ret, k1)" "good M k1" "k_current k1 = Some d"
  obtains k' where "trap_handler M rounds tf k = Done (User d, k')" "runs M d k'" "k_vm k' = k_vm k1" "k_ticks k' = k_ticks k1"
    "k_procs k' = (k_procs k1)[c := (proc_at k1 c)\<lparr>p_tf := set_reg 10 (of_int ret) (p_tf (proc_at k1 c))\<rparr>]"
proof -
  note cs = call_state_good [OF assms(2-4)]
  note e = call_state_eq [OF assms(2-4)]
  let ?k2 = "set_proc c (\<lambda>p. p\<lparr>p_tf := set_reg 10 (of_int ret) (p_tf p)\<rparr>) k1"
  have g: "good M ?k2" using cs(2) by (intro good_set_proc(1) [OF assms(7)]) (simp_all add: same_core_def)
  have cur: "k_current ?k2 = Some d" using assms(8) by simp
  obtain k' where k': "resume M ?k2 = Done (User d, k')" "runs M d k'" "k_procs k' = k_procs ?k2" "k_vm k' = k_vm ?k2" "k_ticks k' = k_ticks ?k2"
    by (rule resume_runs [OF assms(1) g cur])
  have "syscall_dispatch M c (call_state c tf k) = Done ?k2" using assms(6) cs(3) by (simp add: syscall_dispatch_def)
  then have "trap_handler M rounds tf k = Done (User d, k')"
    unfolding trap_handler_def assms(3) option.case Let_def e using assms(5) k'(1) cur by simp
  then show thesis using that k' by (simp add: set_proc_def)
qed

section \<open>Forking\<close>

lemma proc_fork_succeeds:
  assumes "layout_ok (m_layout M)" "lay_kernel_end (m_layout M) \<le> 0x84000000" "good M k" "k_current k = Some c"
    and "length (tf_regs tf) = 32" "unused_slot k = Some i"
  obtains pt v where "proc_fork M tf k = Done (k_next_pid k,
       put_proc i (new_proc k (Some c) pt (set_reg 10 0 (tf\<lparr>tf_kernel_sp := kstack_top M i\<rparr>))) v k)"
    "good M (put_proc i (new_proc k (Some c) pt (set_reg 10 0 (tf\<lparr>tf_kernel_sp := kstack_top M i\<rparr>))) v k)"
    "vm_clone_user (m_layout M) (int i) (int c) (k_vm k) = Inr (pt, v)" "pt \<noteq> 0"
proof -
  have k: "kinv M k" "one_running k" using assms(3) by (simp_all add: good_def)
  note c = one_runningD(2,4) [OF k(2) assms(4)]
  note len = kinv_length [OF k(1)]
  note i = unused_slot_SomeD [OF assms(6) len]
  obtain pt v where cl: "vm_clone_user (m_layout M) (int i) (int c) (k_vm k) = Inr (pt, v)" "pt \<noteq> 0"
    by (rule clone_succeeds [OF assms(1,2) i(1) kinv_room [OF assms(1,2) k(1)] c(1)])
  let ?p = "new_proc k (Some c) pt (set_reg 10 0 (tf\<lparr>tf_kernel_sp := kstack_top M i\<rparr>))"
  have "one_running (put_proc i ?p v k)" by (rule one_running_put_proc [OF k(2) len i]) (simp add: new_proc_def)
  then show thesis
    using that cl assms(6) by (cases rule: proc_fork_cases [OF assms(1) k(1) assms(4) c assms(5)]) (auto simp: good_def)
qed

lemma fork_view:
  assumes "layout_ok (m_layout M)" "good M k" "k_current k = Some c" "unused_slot k = Some i"
    and "vm_clone_user (m_layout M) (int i) (int c) (k_vm k) = Inr (pt, v)" "pt \<noteq> 0"
  shows "copyin (m_layout M) pt va n v = copyin (m_layout M) (p_pagetable (proc_at k c)) va n (k_vm k)"
proof -
  have k: "kinv M k" "one_running k" using assms(2) by (simp_all add: good_def)
  note c = one_runningD(2,4) [OF k(2) assms(3)]
  note i = unused_slot_SomeD [OF assms(4) kinv_length [OF k(1)]]
  obtain T D where T: "vm_reachable (m_layout M) (k_vm k, T)" "owns k T" "spaces_ok (m_layout M) (k_vm k) T D"
    by (rule kinv_spaces [OF assms(1) k(1)])
  have t: "T (p_pagetable (proc_at k c)) = Some c" using ownsD [OF T(2)] c by blast
  show ?thesis by (rule clone_same_view [OF assms(1) T(1) t i(1) owns_free [OF T(2) i(2)] assms(5,6)])
qed

lemma fork_trap:
  assumes "layout_ok (m_layout M)" "lay_kernel_end (m_layout M) \<le> 0x84000000" "kernel_reachable M (User c, k)"
    and "length (tf_regs tf) = 32" "tf_scause tf = SCAUSE_ECALL_U" "tf_regs tf ! 17 = SYS_FORK"
  shows "\<exists>k'. trap_handler M rounds tf k = Done (User c, k') \<and> (case unused_slot k of
      None \<Rightarrow> (\<forall>i < NPROC. live k i) \<and> proc_at k' c = (proc_at k c)\<lparr>p_tf := set_reg 10 (-1) (call_frame tf)\<rparr> \<and> (\<forall>i < NPROC. i \<noteq> c \<longrightarrow> proc_at k' i = proc_at k i)
    | Some i \<Rightarrow> (\<forall>j < NPROC. live k j \<longrightarrow> p_pid (proc_at k j) < k_next_pid k) \<and>
        proc_at k' c = (proc_at k c)\<lparr>p_tf := set_reg 10 (of_int (k_next_pid k)) (call_frame tf)\<rparr> \<and>
        p_pid (proc_at k' i) = k_next_pid k \<and> p_state (proc_at k' i) = P_RUNNABLE \<and> p_parent (proc_at k' i) = Some c \<and>
        p_tf (proc_at k' i) = set_reg 10 0 ((call_frame tf)\<lparr>tf_kernel_sp := kstack_top M i\<rparr>) \<and>
        (\<forall>va n. copyin (m_layout M) (p_pagetable (proc_at k' i)) va n (k_vm k') =
                copyin (m_layout M) (p_pagetable (proc_at k c)) va n (k_vm k)) \<and>
        (\<forall>j < NPROC. j \<noteq> c \<longrightarrow> j \<noteq> i \<longrightarrow> proc_at k' j = proc_at k j))"
proof -
  have r: "runs M c k" using kernel_reachable_runs [OF assms(1,3)] by simp
  then have g: "good M k" "kinv M k" "k_current k = Some c" by (simp_all add: runs_def good_def)
  note cs = call_state_good [OF g(1,3) assms(4)]
  let ?k = "call_state c tf k" and ?tf = "call_frame tf"
  have len: "length (k_procs k) = NPROC" "length (k_procs ?k) = NPROC"
    using kinv_length [OF g(2)] by (simp_all add: call_state_def)
  have at: "proc_at ?k j = (if j = c then (proc_at k c)\<lparr>p_tf := ?tf\<rparr> else proc_at k j)" for j
    using cs(2) len(1) by (simp add: call_state_def set_proc_at)
  have call: "do_syscall M ?tf ?k = proc_fork M ?tf ?k"
    using assms(6) by (simp add: do_syscall_def call_frame_def sysnums sys_fork_def)
  have l32: "length (tf_regs ?tf) = 32" using assms(4) by (simp add: call_frame_def)
  show ?thesis
  proof (cases "unused_slot k")
    case None
    then have "do_syscall M ?tf ?k = Done (-1, ?k)" using call cs(5,8) by (simp add: proc_fork_def)
    then obtain k' where k': "trap_handler M rounds tf k = Done (User c, k')"
      "k_procs k' = (k_procs ?k)[c := (proc_at ?k c)\<lparr>p_tf := set_reg 10 (of_int (-1)) (p_tf (proc_at ?k c))\<rparr>]"
      by (rule trap_ecall [OF assms(1) g(1,3) assms(4,5) _ cs(1,5)])
    have "\<forall>i < NPROC. live k i" using None len(1) nth_mem unfolding unused_slot_def first_index_None by metis
    then show ?thesis using None k' cs(2,3) len at by (auto simp: nth_list_update)
  next
    case (Some i)
    note i = unused_slot_SomeD [OF Some len(1)]
    have ic: "i \<noteq> c" using i(2) cs(4) by blast
    have us: "unused_slot ?k = Some i" using Some cs(8) by simp
    obtain pt v where f: "proc_fork M ?tf ?k = Done (k_next_pid ?k,
        put_proc i (new_proc ?k (Some c) pt (set_reg 10 0 (?tf\<lparr>tf_kernel_sp := kstack_top M i\<rparr>))) v ?k)"
      "good M (put_proc i (new_proc ?k (Some c) pt (set_reg 10 0 (?tf\<lparr>tf_kernel_sp := kstack_top M i\<rparr>))) v ?k)"
      "vm_clone_user (m_layout M) (int i) (int c) (k_vm ?k) = Inr (pt, v)" "pt \<noteq> 0"
      by (rule proc_fork_succeeds [OF assms(1,2) cs(1,5) l32 us])
    define k1 where "k1 = put_proc i (new_proc ?k (Some c) pt (set_reg 10 0 (?tf\<lparr>tf_kernel_sp := kstack_top M i\<rparr>))) v ?k"
    have at1: "proc_at k1 j = (if j = i then new_proc ?k (Some c) pt (set_reg 10 0 (?tf\<lparr>tf_kernel_sp := kstack_top M i\<rparr>)) else proc_at ?k j)" for j
      unfolding k1_def by (rule put_proc_at [OF len(2) i(1)])
    have k1: "k_current k1 = Some c" "k_vm k1 = v" "length (k_procs k1) = NPROC"
      using cs(5) len(2) by (simp_all add: k1_def put_proc_def)
    have "do_syscall M ?tf ?k = Done (k_next_pid k, k1)" using call f(1) cs(7) by (simp add: k1_def)
    then obtain k' where k': "trap_handler M rounds tf k = Done (User c, k')" "k_vm k' = k_vm k1"
      "k_procs k' = (k_procs k1)[c := (proc_at k1 c)\<lparr>p_tf := set_reg 10 (of_int (k_next_pid k)) (p_tf (proc_at k1 c))\<rparr>]"
      by (rule trap_ecall [OF assms(1) g(1,3) assms(4,5) _ f(2) [folded k1_def] k1(1)])
    have at': "proc_at k' j = (if j = c then (proc_at k1 c)\<lparr>p_tf := set_reg 10 (of_int (k_next_pid k)) (p_tf (proc_at k1 c))\<rparr> else proc_at k1 j)" for j
      using k'(3) k1(3) cs(2) by (simp add: nth_list_update)
    have "copyin (m_layout M) pt va n v = copyin (m_layout M) (p_pagetable (proc_at k c)) va n (k_vm k)" for va n
      using fork_view [OF assms(1) cs(1,5) us f(3,4)] at [of c] cs(6) by simp
    moreover have "\<forall>j < NPROC. live k j \<longrightarrow> p_pid (proc_at k j) < k_next_pid k" using g(2) by (simp add: kinv_def procs_ok_def)
    ultimately show ?thesis
      using Some k'(1,2) k1(2) ic cs(3,7) by (intro exI [of _ k']) (simp add: at' at1 new_proc_def at)
  qed
qed

section \<open>A machine\<close>

definition sample_machine :: machine where
  "sample_machine = \<lparr>m_layout = sample_layout, m_kernel_stacks = 0x80500000, m_idle_stack = 0x80510000,
     m_idle_loop = 0x80001000, m_image = [0x13, 0, 0, 0]\<rparr>"

definition sample_kernel :: kernel where
  "sample_kernel = \<lparr>k_procs = [], k_current = None, k_next_pid = 0, k_last_slot = 0, k_ticks = 0, k_idle_tf = tf_clear,
     k_vm = blank_vm, k_satp = 0, k_stvec = kernel_trap_entry,
     k_uart = \<lparr>uart_lsr = replicate 2000 0x21, uart_rhr = ''ps'' @ [newline], uart_thr = [], uart_ctl = (\<lambda>r. 0)\<rparr>,
     k_time = (\<lambda>t. 0), k_deadline = 0, k_stie = False\<rparr>"

lemma sample_machine_ok [simp]:
  "layout_ok (m_layout sample_machine)" "lay_kernel_end (m_layout sample_machine) \<le> 0x84000000"
  using sample_layout_ok by (simp_all add: sample_machine_def)

lemma sample_idle: "idle_for (length (crlf boot_text) + 1000) (k_uart sample_kernel)"
proof -
  have "length (crlf boot_text) + 1000 \<le> 2000" by (simp add: boot_text_def print_banner_def)
  then show ?thesis by (simp add: idle_for_def sample_kernel_def TX_IDLE_def filter_replicate)
qed

lemma booted:
  obtains k where "kernel_reachable sample_machine (User 0, k)" "runs sample_machine 0 k" "\<And>i. i < NPROC \<Longrightarrow> i \<noteq> 0 \<Longrightarrow> \<not> live k i"
    "p_pid (proc_at k 0) = 1" "k_next_pid k = 2" "k_ticks k = 0" "p_parent (proc_at k 0) = None" "p_wake_tick (proc_at k 0) = 0"
    "idle_for 1000 (k_uart k)" "uses (k_uart sample_kernel) (k_uart k)"
proof -
  obtain satp k where b: "main sample_machine sample_kernel = Done (0, satp, k)" "runs sample_machine 0 (enter_user satp k)"
    "p_pid (proc_at k 0) = 1" "\<And>i. i < NPROC \<Longrightarrow> i \<noteq> 0 \<Longrightarrow> \<not> live k i" "k_next_pid k = 2" "k_ticks k = 0" "p_parent (proc_at k 0) = None" "p_wake_tick (proc_at k 0) = 0"
    "idle_for 1000 (k_uart k)" "uses (k_uart sample_kernel) (k_uart k)"
    by (rule main_boots [OF sample_machine_ok sample_idle]) blast
  show thesis
    using that [of "enter_user satp k"] kernel_reachable.boot [OF b(1)] b(2-10) by (simp add: enter_user_def)
qed

lemma booted_slots:
  obtains k where "kernel_reachable sample_machine (User 0, k)" "unused_slot k = Some 1" "k_next_pid k = 2" "p_parent (proc_at k 0) = None"
    "p_wake_tick (proc_at k 0) = 0" "\<forall>i < NPROC. i \<noteq> 0 \<longrightarrow> \<not> live k i"
proof -
  obtain k where k: "kernel_reachable sample_machine (User 0, k)" "runs sample_machine 0 k" "\<And>i. i < NPROC \<Longrightarrow> i \<noteq> 0 \<Longrightarrow> \<not> live k i"
    "k_next_pid k = 2" "p_parent (proc_at k 0) = None" "p_wake_tick (proc_at k 0) = 0" by (rule booted) blast
  have g: "kinv sample_machine k" "one_running k" "k_current k = Some 0" using k(2) by (simp_all add: runs_def good_def)
  have "live k 0" using one_runningD(4) [OF g(2,3)] .
  then have "unused_slot k = Some 1"
    unfolding unused_slot_def first_index_Some using kinv_length [OF g(1)] k(3) [of 1] by simp
  then show thesis using that k(1,3-6) by blast
qed

text \<open>The trap frame of a system call without arguments.\<close>

definition call_tf :: "64 word \<Rightarrow> trapframe" where
  "call_tf n = tf_clear\<lparr>tf_regs := (replicate 32 0)[17 := n], tf_scause := SCAUSE_ECALL_U\<rparr>"

lemma call_tf_simps [simp]:
  "length (tf_regs (call_tf n)) = 32" "tf_scause (call_tf n) = SCAUSE_ECALL_U" "tf_regs (call_tf n) ! 17 = n"
  by (simp_all add: call_tf_def)

definition call_tf1 :: "64 word \<Rightarrow> 64 word \<Rightarrow> trapframe" where
  "call_tf1 n a = (call_tf n)\<lparr>tf_regs := (tf_regs (call_tf n))[10 := a]\<rparr>"

lemma call_tf1_simps [simp]:
  "length (tf_regs (call_tf1 n a)) = 32" "tf_scause (call_tf1 n a) = SCAUSE_ECALL_U" "tf_regs (call_tf1 n a) ! 17 = n"
  "tf_regs (call_tf1 n a) ! 10 = a"
  by (simp_all add: call_tf1_def)

lemma two_processes:
  obtains k where "kernel_reachable sample_machine (User 0, k)" "p_state (proc_at k 1) = P_RUNNABLE" "p_parent (proc_at k 1) = Some 0"
    "p_pid (proc_at k 1) = 2" "p_parent (proc_at k 0) = None" "p_wake_tick (proc_at k 0) = 0" "\<forall>i < NPROC. i \<noteq> 0 \<longrightarrow> i \<noteq> 1 \<longrightarrow> \<not> live k i"
proof -
  obtain k where k: "kernel_reachable sample_machine (User 0, k)" "unused_slot k = Some 1" "k_next_pid k = 2" "p_parent (proc_at k 0) = None"
    "p_wake_tick (proc_at k 0) = 0" "\<forall>i < NPROC. i \<noteq> 0 \<longrightarrow> \<not> live k i" by (rule booted_slots)
  obtain k' where "trap_handler sample_machine 0 (call_tf SYS_FORK) k = Done (User 0, k')" "p_state (proc_at k' 1) = P_RUNNABLE"
    "p_parent (proc_at k' 1) = Some 0" "p_pid (proc_at k' 1) = 2" "p_parent (proc_at k' 0) = None" "p_wake_tick (proc_at k' 0) = 0"
    "\<forall>i < NPROC. i \<noteq> 0 \<longrightarrow> i \<noteq> 1 \<longrightarrow> \<not> live k' i"
    using fork_trap [OF sample_machine_ok k(1) call_tf_simps, of 0] k(2-6) by auto
  then show thesis using that kernel_reachable.trap [OF k(1) call_tf_simps(1)] by blast
qed

lemma getpid_trap:
  assumes "kernel_reachable sample_machine (User 0, k)" "live k i"
  obtains k' where "trap_handler sample_machine 0 (call_tf SYS_GETPID) k = Done (User 0, k')" "live k' i"
proof -
  have r: "runs sample_machine 0 k" using kernel_reachable_runs [OF sample_machine_ok(1) assms(1)] by simp
  then have g: "good sample_machine k" "k_current k = Some 0" by (simp_all add: runs_def)
  note cs = call_state_good [OF g call_tf_simps(1)]
  have len: "length (k_procs k) = NPROC" using g(1) kinv_length by (auto simp: good_def)
  have d: "do_syscall sample_machine (call_frame (call_tf SYS_GETPID)) (call_state 0 (call_tf SYS_GETPID) k) =
      Done (sys_getpid (call_state 0 (call_tf SYS_GETPID) k), call_state 0 (call_tf SYS_GETPID) k)"
    by (simp add: do_syscall_def call_frame_def sysnums)
  obtain k' where k': "trap_handler sample_machine 0 (call_tf SYS_GETPID) k = Done (User 0, k')"
    "k_procs k' = (k_procs (call_state 0 (call_tf SYS_GETPID) k))[0 := (proc_at (call_state 0 (call_tf SYS_GETPID) k) 0)
       \<lparr>p_tf := set_reg 10 (of_int (sys_getpid (call_state 0 (call_tf SYS_GETPID) k))) (p_tf (proc_at (call_state 0 (call_tf SYS_GETPID) k) 0))\<rparr>]"
    by (rule trap_ecall [OF sample_machine_ok(1) g call_tf_simps(1,2) d cs(1,5), of 0])
  have "live k' i"
    using k'(2) len assms(2) by (cases "i = 0") (simp_all add: call_state_def set_proc_def)
  then show thesis using that k'(1) by blast
qed

end
