(* ===== verification/Nano_Guarantees.thy ===== *)
theory Nano_Guarantees
  imports Nano_System
begin

text \<open>
  What the running NanoBoot kernel guarantees: no fault, isolation, forking, scheduling, waiting, sleeping and
  the system calls for input and output, each stated over the trap handler and the states it can reach.
\<close>

section \<open>Safety and isolation\<close>



text \<open>
  C1: Isolation of the running processes. In every reachable state the page table of a live process translates its
  user addresses to the memory of its own slot and nothing else, and whatever trap another process
  takes, with whatever registers, a process that lives before and after it reads the same bytes at every address.
\<close>

theorem kernel_isolates:
  assumes "layout_ok (m_layout M)" "kernel_reachable M (User c, k)" "length (tf_regs tf) = 32"
    and "trap_handler M rounds tf k = Done (t, k')" "j < NPROC" "j \<noteq> c" "live k j" "live k' j"
  shows "translate_user (m_layout M) (p_pagetable (proc_at k j)) va (k_vm k) = Inr (user_space (m_layout M) j va) \<and>
    copyin (m_layout M) (p_pagetable (proc_at k' j)) va n (k_vm k') = copyin (m_layout M) (p_pagetable (proc_at k j)) va n (k_vm k)"
proof -
  let ?L = "m_layout M" and ?S = "insert c {i. i < NPROC \<and> \<not> live k i}"
  have r: "runs M c k" using kernel_reachable_runs [OF assms(1,2)] by simp
  then have g: "good M k" "kinv M k" "one_running k" "k_current k = Some c" by (simp_all add: runs_def good_def)
  have c: "c < NPROC" using one_runningD(2) [OF g(3,4)] .
  have "safe (\<lambda>(t, k'). (\<exists>d. t = User d \<and> runs M d k') \<and> harmless M ?S k k') (trap_handler M rounds tf k)"
    by (rule trap_handler_safe [OF assms(1) g(1,4) assms(3)]) auto
  then have h: "harmless M ?S k k'" using assms(4) by simp
  then have k': "kinv M k'" by (simp add: harmless_def good_def)
  obtain D where D: "user_table ?L (k_vm k) (p_pagetable (proc_at k j)) j D"
    using current_table [OF assms(1) g(2) assms(5,7)] by metis
  obtain D' where D': "user_table ?L (k_vm k') (p_pagetable (proc_at k' j)) j D'"
    using current_table [OF assms(1) k' assms(5,8)] by metis
  have "vm_mem (k_vm k') x = vm_mem (k_vm k) x" if x: "x \<in> slot_memory ?L j" for x
  proof -
    have "x \<notin> slot_memory ?L s" if "s \<in> ?S" for s
      using that x assms(5-7) c slot_memory_disjoint [OF assms(1,5), of s] by auto
    then show ?thesis using h by (simp add: harmless_def)
  qed
  then have "user_bytes ?L j (vm_mem (k_vm k')) va n = user_bytes ?L j (vm_mem (k_vm k)) va n" by (rule user_bytes_cong)
  then show ?thesis
    unfolding copyin_user_bytes [OF assms(1,5) D] copyin_user_bytes [OF assms(1,5) D'] translate_user_table [OF assms(1,5) D] by simp
qed

theorem kernel_isolates_witness:
  "\<exists>k k'. kernel_reachable sample_machine (User 0, k) \<and> live k 1 \<and> trap_handler sample_machine 0 (call_tf SYS_GETPID) k = Done (User 0, k') \<and>
     copyin sample_layout (p_pagetable (proc_at k' 1)) 0x40000000 4 (k_vm k') = copyin sample_layout (p_pagetable (proc_at k 1)) 0x40000000 4 (k_vm k)"
proof -
  obtain k where k: "kernel_reachable sample_machine (User 0, k)" "live k 1" by (rule two_processes) auto
  obtain k' where t: "trap_handler sample_machine 0 (call_tf SYS_GETPID) k = Done (User 0, k')" "live k' 1" by (rule getpid_trap [OF k])
  have "copyin (m_layout sample_machine) (p_pagetable (proc_at k' 1)) 0x40000000 4 (k_vm k') =
      copyin (m_layout sample_machine) (p_pagetable (proc_at k 1)) 0x40000000 4 (k_vm k)"
    using kernel_isolates [OF sample_machine_ok(1) k(1) call_tf_simps(1) t(1) _ _ k(2) t(2)] by simp
  then show ?thesis using k t(1) by (auto simp: sample_machine_def)
qed

text \<open>
  Booting. On a machine whose console accepts the text, \<^verbatim>\<open>main\<close> prints the banner and hands over to the first
  process: it has id 1, the user program's entry point and stack, its own page table active, and it is the only one.
\<close>

theorem boot_starts_first_process:
  assumes "layout_ok (m_layout M)" "lay_kernel_end (m_layout M) \<le> 0x84000000" "idle_for (length (crlf boot_text)) (k_uart k0)"
  shows "\<exists>satp k. main M k0 = Done (0, satp, k) \<and> runs M 0 (enter_user satp k) \<and> p_pid (proc_at k 0) = 1 \<and>
    p_tf (proc_at k 0) = prepare_user_tf M 0 \<and> (\<forall>i < NPROC. i \<noteq> 0 \<longrightarrow> \<not> live k i) \<and>
    uart_thr (k_uart k) = uart_thr (k_uart k0) @ crlf boot_text"
proof -
  have "idle_for (length (crlf boot_text) + 0) (k_uart k0)" using assms(3) by simp
  then show ?thesis by (rule main_boots [OF assms(1,2)]) blast
qed

theorem boot_starts_first_process_witness:
  "\<exists>satp k. main sample_machine sample_kernel = Done (0, satp, k) \<and> p_pid (proc_at k 0) = 1 \<and> uart_thr (k_uart k) = crlf boot_text"
proof -
  have "idle_for (length (crlf boot_text)) (k_uart sample_kernel)" using sample_idle by (simp add: idle_for_def)
  moreover have "uart_thr (k_uart sample_kernel) = []" by (simp add: sample_kernel_def)
  ultimately show ?thesis using boot_starts_first_process [OF sample_machine_ok, of sample_kernel] by auto
qed

text \<open>
  C39: The pool of page-table pages is large enough. In every reachable state of a kernel of at most 64 MB, at most
  351 of the 1024 pages are in use, every one of them by a live process or the kernel's own table, which can
  always be built.
\<close>

theorem page_tables_never_run_out:
  assumes "layout_ok (m_layout M)" "lay_kernel_end (m_layout M) \<le> 0x84000000" "kernel_reachable M (User c, k)"
  shows "card (used (k_vm k)) \<le> 351 \<and> (\<exists>pt v. kernel_pagetable (m_layout M) (k_vm k) = Inr (pt, v) \<and> pt \<noteq> 0)"
proof -
  have "runs M c k" using kernel_reachable_runs [OF assms(1,3)] by simp
  then have "kinv M k" by (simp add: runs_def good_def)
  then obtain T where "vm_reachable (m_layout M) (k_vm k, T)" by (auto simp: kinv_def spaces_match_def)
  note r = pool_room [OF assms(1,2) this]
  have "card (used (k_vm k)) + card (space_paths (m_layout M)) < PT_POOL_PAGES" using r(1) space_paths_card [OF assms(1,2)] by simp
  then show ?thesis using kernel_pagetable_takes [OF assms(1) r(2)] r(1) by metis
qed

theorem page_tables_never_run_out_witness:
  "\<exists>k. kernel_reachable sample_machine (User 0, k) \<and> card (used (k_vm k)) \<le> 351"
proof -
  obtain k where k: "kernel_reachable sample_machine (User 0, k)" by (rule booted)
  show ?thesis using page_tables_never_run_out [OF sample_machine_ok k] k by blast
qed

section \<open>Forking\<close>



section \<open>Scheduling\<close>

lemma timer_tick_at: "length (k_procs k) = NPROC \<Longrightarrow> i < NPROC \<Longrightarrow> proc_at (timer_tick k) i = wake (k_ticks k + 1) (proc_at k i)"
  by (simp add: tick_defs timer_now_def)

text \<open>The processes a timer interrupt chooses from: the one that ran, and those runnable once the sleepers are woken.\<close>

definition ready_at_tick :: "kernel \<Rightarrow> nat \<Rightarrow> bool" where
  "ready_at_tick k j \<longleftrightarrow> k_current k = Some j \<or> p_state (wake (k_ticks k + 1) (proc_at k j)) = P_RUNNABLE"

lemma timer_interrupt:
  assumes "layout_ok (m_layout M)" "good M k" "k_current k = Some c" "length (tf_regs tf) = 32" "tf_scause tf = SCAUSE_STIMER"
  obtains i k' where "trap_handler M rounds tf k = Done (User i, k')" "runs M i k'" "i < NPROC" "ready_at_tick k i"
    "\<forall>j < NPROC. ready_at_tick k j \<longrightarrow> distance (int c) i \<le> distance (int c) j"
    "\<forall>j < NPROC. j \<noteq> i \<longrightarrow> p_state (proc_at k' j) = (if j = c then P_RUNNABLE else p_state (wake (k_ticks k + 1) (proc_at k j)))"
    "k_ticks k' = k_ticks k + 1" "k_vm k' = k_vm k"
proof -
  have k: "kinv M k" "one_running k" using assms(2) by (simp_all add: good_def)
  have c: "c < NPROC" using one_runningD(2) [OF k(2) assms(3)] .
  note len = kinv_length [OF k(1)]
  let ?k1 = "set_proc c (\<lambda>p. p\<lparr>p_tf := tf\<rparr>) k"
  let ?k2 = "set_proc c (\<lambda>p. p\<lparr>p_state := P_RUNNABLE\<rparr>) (timer_tick ?k1)"
  have g1: "good M ?k1"
    using c kinv_regs [OF k(1) c] assms(4) by (intro good_set_proc(1) [OF assms(2)]) (simp_all add: same_core_def)
  have cur: "k_current ?k1 = Some c" "k_current (timer_tick ?k1) = Some c" using assms(3) by simp_all
  note k2 = runnable_quiet [OF good_tick [OF g1] cur(2)]
  note len2 = kinv_length [OF k2(1)]
  have st: "p_state (proc_at ?k2 j) = (if j = c then P_RUNNABLE else p_state (wake (k_ticks k + 1) (proc_at k j)))" if "j < NPROC" for j
    using that c len len2 by (simp add: set_proc_at timer_tick_at)
  have ready: "p_state (proc_at ?k2 j) = P_RUNNABLE \<longleftrightarrow> ready_at_tick k j" if "j < NPROC" for j
    using st [OF that] assms(3) by (auto simp: ready_at_tick_def)
  have start: "schedule_start ?k2 = int c" using cur(2) by (simp add: schedule_start_def)
  have r: "timer_trap ?k1 = reschedule ?k2" by (rule timer_trap_eq [OF g1 cur(1)])
  show thesis
  proof (cases rule: schedule_cases [OF len2])
    case 1
    then show thesis using st [OF c] c by simp
  next
    case (2 i)
    let ?k3 = "(set_proc i (\<lambda>p. p\<lparr>p_state := P_RUNNING\<rparr>) (?k2\<lparr>k_last_slot := int i\<rparr>))\<lparr>k_current := Some i\<rparr>"
    have k3: "reschedule ?k2 = ?k3" using 2(1) by (simp add: reschedule_def)
    have "good M ?k3" using reschedule_inv [OF k2] unfolding k3 good_def by blast
    then obtain k' where k': "resume M ?k3 = Done (User i, k')" "runs M i k'" "k_procs k' = k_procs ?k3" "k_vm k' = k_vm ?k3" "k_ticks k' = k_ticks ?k3"
      by (rule resume_runs [OF assms(1)]) auto
    have "trap_handler M rounds tf k = Done (User i, k')"
      unfolding trap_handler_def assms(3) option.case Let_def
      using assms(5) r k3 k'(1) by (simp add: SCAUSE_ECALL_U_def SCAUSE_STIMER_def)
    moreover have "p_state (proc_at k' j) = p_state (proc_at ?k2 j)" if "j < NPROC" "j \<noteq> i" for j
      using that k'(3) len2 2(2) by (simp add: set_proc_at)
    ultimately show thesis
      using that k'(2,4,5) 2 st ready start by simp
  qed
qed

text \<open>
  Round robin. In every reachable state a timer interrupt wakes the sleepers whose time has come and
  returns to the first process after the interrupted one, in the cyclic order of the slots, that is then
  runnable; the interrupted one is last in that order and stays runnable.
\<close>

theorem timer_interrupt_round_robin:
  assumes "layout_ok (m_layout M)" "kernel_reachable M (User c, k)" "length (tf_regs tf) = 32" "tf_scause tf = SCAUSE_STIMER"
  shows "\<exists>i k'. trap_handler M rounds tf k = Done (User i, k') \<and> i < NPROC \<and> ready_at_tick k i \<and>
    (\<forall>j < NPROC. ready_at_tick k j \<longrightarrow> distance (int c) i \<le> distance (int c) j) \<and>
    (\<forall>j < NPROC. j \<noteq> i \<longrightarrow> p_state (proc_at k' j) = (if j = c then P_RUNNABLE else p_state (wake (k_ticks k + 1) (proc_at k j))))"
proof -
  have "runs M c k" using kernel_reachable_runs [OF assms(1,2)] by simp
  then have g: "good M k" "k_current k = Some c" by (simp_all add: runs_def)
  show ?thesis by (rule timer_interrupt [OF assms(1) g assms(3,4), of rounds]) blast
qed

definition timer_tf :: trapframe where
  "timer_tf = tf_clear\<lparr>tf_scause := SCAUSE_STIMER\<rparr>"

lemma timer_tf_simps [simp]: "length (tf_regs timer_tf) = 32" "tf_scause timer_tf = SCAUSE_STIMER"
  by (simp_all add: timer_tf_def tf_clear_def)

theorem timer_interrupt_round_robin_witness:
  "\<exists>k k'. kernel_reachable sample_machine (User 0, k) \<and> trap_handler sample_machine 0 timer_tf k = Done (User 1, k')"
proof -
  obtain k where k: "kernel_reachable sample_machine (User 0, k)" "p_state (proc_at k 1) = P_RUNNABLE" by (rule two_processes)
  obtain i k' where i: "trap_handler sample_machine 0 timer_tf k = Done (User i, k')" "i < NPROC"
    "\<forall>j < NPROC. ready_at_tick k j \<longrightarrow> distance (int 0) i \<le> distance (int 0) j"
    using timer_interrupt_round_robin [OF sample_machine_ok(1) k(1) timer_tf_simps, of 0] by blast
  have "ready_at_tick k 1" using k(2) by (simp add: ready_at_tick_def wake_def)
  then have "distance (int 0) i \<le> distance (int 0) 1" using i(3) by simp
  moreover have "distance (int 0) 1 = 1" by (simp add: distance_def)
  moreover have "schedule_order (int 0) ! (distance (int 0) i - 1) = i" by (rule schedule_order_distance [OF i(2)])
  ultimately have "i = 1" using distance_bounds(1) [of "int 0" i] schedule_order_nth [of 0 "int 0"] by simp
  then show ?thesis using k(1) i(1) by blast
qed

text \<open>Timer interrupts one after the other, whatever the registers of the interrupted processes.\<close>

primrec timer_run :: "machine \<Rightarrow> trapframe list \<Rightarrow> target \<times> kernel \<Rightarrow> (target \<times> kernel) run" where
  "timer_run M [] st = Done st"
| "timer_run M (tf # tfs) st = run_bind (trap_handler M 0 tf (snd st)) (timer_run M tfs)"

lemma timer_run_reaches:
  assumes "layout_ok (m_layout M)" "\<And>tf. tf \<in> set tfs \<Longrightarrow> length (tf_regs tf) = 32 \<and> tf_scause tf = SCAUSE_STIMER"
    and "good M k" "k_current k = Some c" "c < NPROC" "j < NPROC" "p_state (proc_at k j) = P_RUNNABLE" "distance (int c) j \<le> length tfs"
  shows "\<exists>n k'. n \<le> distance (int c) j \<and> timer_run M (take n tfs) (User c, k) = Done (User j, k')"
  using assms(2-)
proof (induction tfs arbitrary: c k)
  case Nil
  then show ?case using distance_bounds(1) [of "int c" j] by simp
next
  case (Cons tf tfs)
  have tf: "length (tf_regs tf) = 32" "tf_scause tf = SCAUSE_STIMER" using Cons.prems(1) by simp_all
  obtain i k' where i: "trap_handler M 0 tf k = Done (User i, k')" "runs M i k'" "i < NPROC" "ready_at_tick k i"
    "\<forall>j < NPROC. ready_at_tick k j \<longrightarrow> distance (int c) i \<le> distance (int c) j"
    "\<forall>j < NPROC. j \<noteq> i \<longrightarrow> p_state (proc_at k' j) = (if j = c then P_RUNNABLE else p_state (wake (k_ticks k + 1) (proc_at k j)))"
    by (rule timer_interrupt [OF assms(1) Cons.prems(2,3) tf, of 0])
  have w: "wake (k_ticks k + 1) (proc_at k j) = proc_at k j" using Cons.prems(6) by (simp add: wake_def)
  show ?case
  proof (cases "i = j")
    case True
    then show ?thesis using i(1) distance_bounds(1) [of "int c" j] by (intro exI [of _ 1]) auto
  next
    case False
    have "distance (int c) i \<le> distance (int c) j" using i(5) Cons.prems(5,6) w by (simp add: ready_at_tick_def)
    moreover have "distance (int c) i \<noteq> distance (int c) j"
      using False schedule_order_distance [OF i(3), of "int c"] schedule_order_distance [OF Cons.prems(5), of "int c"] by auto
    ultimately have lt: "distance (int c) i < distance (int c) j" by simp
    then have d: "distance (int i) j = distance (int c) j - distance (int c) i" using distance_step [OF i(3) Cons.prems(5)] by simp
    have small: "distance (int i) j < distance (int c) j" using d lt distance_bounds(1) [of "int c" i] by linarith
    have g: "good M k'" "k_current k' = Some i" using i(2) by (simp_all add: runs_def)
    have st: "p_state (proc_at k' j) = P_RUNNABLE" using i(6) Cons.prems(5,6) w False by simp
    have "distance (int i) j \<le> length tfs" using small Cons.prems(7) by simp
    then obtain n k'' where n: "n \<le> distance (int i) j" "timer_run M (take n tfs) (User i, k') = Done (User j, k'')"
      using Cons.IH [OF _ g i(3) Cons.prems(5) st] Cons.prems(1) by auto
    then show ?thesis using i(1) small by (intro exI [of _ "Suc n"]) auto
  qed
qed

text \<open>
  C9: Fairness. In every reachable state a runnable process runs after at most eight timer interrupts,
  more precisely after as many as there are slots from the running one to its own, whatever the processes that run in
  between do to their registers.
\<close>

theorem runnable_process_runs:
  assumes "layout_ok (m_layout M)" "kernel_reachable M (User c, k)" "j < NPROC" "p_state (proc_at k j) = P_RUNNABLE"
    and "\<forall>tf \<in> set tfs. length (tf_regs tf) = 32 \<and> tf_scause tf = SCAUSE_STIMER" "length tfs = NPROC"
  shows "\<exists>n k'. n \<le> NPROC \<and> n \<le> distance (int c) j \<and> timer_run M (take n tfs) (User c, k) = Done (User j, k')"
proof -
  have "runs M c k" using kernel_reachable_runs [OF assms(1,2)] by simp
  then have g: "good M k" "k_current k = Some c" by (simp_all add: runs_def)
  then have c: "c < NPROC" using one_runningD(2) by (auto simp: good_def)
  show ?thesis
    using timer_run_reaches [OF assms(1) _ g c assms(3,4), of tfs] assms(5,6) distance_bounds(2) [of "int c" j]
    by (metis le_trans)
qed

theorem runnable_process_runs_witness:
  "\<exists>k n k'. kernel_reachable sample_machine (User 0, k) \<and> n \<le> NPROC \<and>
     timer_run sample_machine (take n (replicate NPROC timer_tf)) (User 0, k) = Done (User 1, k')"
proof -
  obtain k where k: "kernel_reachable sample_machine (User 0, k)" "p_state (proc_at k 1) = P_RUNNABLE" by (rule two_processes)
  have "\<forall>tf \<in> set (replicate NPROC timer_tf). length (tf_regs tf) = 32 \<and> tf_scause tf = SCAUSE_STIMER" by simp
  then show ?thesis
    using runnable_process_runs [OF sample_machine_ok(1) k(1) _ k(2), of "replicate NPROC timer_tf"] k(1) by (metis length_replicate one_less_numeral_iff semiring_norm(76))
qed

end
