(* ===== verification/Nano_Calls.thy ===== *)
theory Nano_Calls
  imports Nano_Guarantees
begin

text \<open>
  The system calls of NanoBoot that block or move data: sleeping and the loop that waits for a process, exiting and
  waiting for a child, and writing to and reading from the console.
\<close>

section \<open>Sleeping\<close>

lemma reschedule_state:
  assumes "length (k_procs k) = NPROC" "i < NPROC" "k_current (reschedule k) \<noteq> Some i"
  shows "proc_at (reschedule k) i = proc_at k i"
  using assms by (cases rule: reschedule_cases [OF assms(1)]) (auto simp: set_proc_at)

lemma reschedule_none:
  assumes "length (k_procs k) = NPROC" "k_current (reschedule k) = None" "i < NPROC"
  shows "p_state (proc_at k i) \<noteq> P_RUNNABLE"
  using assms by (cases rule: reschedule_cases [OF assms(1)]) auto

lemma reschedule_some:
  assumes "length (k_procs k) = NPROC" "k_current (reschedule k) = Some i"
  shows "i < NPROC" "p_state (proc_at k i) = P_RUNNABLE"
  using assms by (cases rule: reschedule_cases [OF assms(1)]; auto)+

lemma less_Suc_word: "(a :: 64 word) < b \<Longrightarrow> a \<le> a + 1"
proof -
  assume "a < b"
  then have "unat a + 1 < 2 ^ 64" using unsigned_less [of b, where 'a = nat] by (simp add: word_less_nat_alt)
  then show ?thesis by (simp add: word_le_nat_alt unat_word_ariths(1))
qed

text \<open>A process asleep until tick \<open>w\<close>.\<close>

definition asleep_until :: "64 word \<Rightarrow> nat \<Rightarrow> kernel \<Rightarrow> bool" where
  "asleep_until w s k \<longleftrightarrow> p_state (proc_at k s) = P_SLEEPING \<and> p_wake_tick (proc_at k s) = w \<and> k_ticks k < w"

lemma asleep_step:
  assumes "good M k" "k_current k = None" "s < NPROC" "asleep_until w s k"
  shows "if w = k_ticks k + 1 then k_current (reschedule (timer_tick k)) \<noteq> None
    else k_current (reschedule (timer_tick k)) \<noteq> Some s \<and> asleep_until w s (reschedule (timer_tick k))"
    and "good M (reschedule (timer_tick k))" "unat (w - (k_ticks k + 1)) = unat (w - k_ticks k) - 1" "k_ticks k + 1 \<le> w"
proof -
  have kt: "kinv M (timer_tick k)" "quiet (timer_tick k)"
    using timer_tick_ok(1,3) assms(1) good_quiet [OF assms(1,2)] unfolding good_def by blast+
  then show "good M (reschedule (timer_tick k))" using reschedule_inv by (simp add: good_def)
  note len = kinv_length [OF kt(1)]
  have lenk: "length (k_procs k) = NPROC" using assms(1) kinv_length by (auto simp: good_def)
  have lt: "k_ticks k < w" and s: "p_state (proc_at k s) = P_SLEEPING" "p_wake_tick (proc_at k s) = w"
    using assms(4) by (simp_all add: asleep_until_def)
  have nz: "w \<noteq> 0" using lt by (metis word_not_simps(1))
  have le: "k_ticks k + 1 \<le> w" by (rule inc_le [OF lt])
  then show "k_ticks k + 1 \<le> w" .
  show "unat (w - (k_ticks k + 1)) = unat (w - k_ticks k) - 1"
  proof -
    have "w - k_ticks k \<noteq> 0" using lt by auto
    then have "unat (w - k_ticks k - 1) = unat (w - k_ticks k) - 1" by (rule unat_minus_one)
    then show ?thesis by (simp add: diff_diff_eq)
  qed
  have at: "proc_at (timer_tick k) s = wake (k_ticks k + 1) (proc_at k s)" by (rule timer_tick_at [OF lenk assms(3)])
  show "if w = k_ticks k + 1 then k_current (reschedule (timer_tick k)) \<noteq> None
    else k_current (reschedule (timer_tick k)) \<noteq> Some s \<and> asleep_until w s (reschedule (timer_tick k))"
  proof (cases "w = k_ticks k + 1")
    case True
    then have "p_state (proc_at (timer_tick k) s) = P_RUNNABLE" using at s nz by (simp add: wake_def)
    then show ?thesis using reschedule_none [OF len _ assms(3)] True by auto
  next
    case False
    then have lt': "k_ticks k + 1 < w" using le by simp
    then have "\<not> w \<le> k_ticks k + 1" by simp
    then have "proc_at (timer_tick k) s = proc_at k s" using at s by (simp add: wake_def)
    moreover from this have "k_current (reschedule (timer_tick k)) \<noteq> Some s" using reschedule_some(2) [OF len, of s] s(1) by auto
    ultimately show ?thesis using False lt' s reschedule_state [OF len assms(3)] by (simp add: asleep_until_def)
  qed
qed

lemma idle_wait_sleeper:
  assumes "good M k" "s < NPROC" "asleep_until w s k" "unat (w - k_ticks k) \<le> n"
  shows "\<exists>k'. idle_wait n k = Done k' \<and> good M k' \<and> k_current k' \<noteq> None \<and> k_ticks k \<le> k_ticks k' \<and> k_ticks k' \<le> w \<and>
    (k_current k' = Some s \<longrightarrow> k_ticks k' = w)"
  using assms
proof (induction n arbitrary: k)
  case 0
  then have "w - k_ticks k = 0" "k_ticks k < w" by (simp_all add: asleep_until_def unat_eq_zero)
  then show ?case by simp
next
  case (Suc n)
  have notme: "k_current k \<noteq> Some s"
    using Suc.prems(1,3) one_runningD(3) by (fastforce simp: good_def asleep_until_def)
  show ?case
  proof (cases "k_current k")
    case (Some d)
    then show ?thesis using Suc.prems notme by (auto simp: asleep_until_def)
  next
    case None
    let ?k = "reschedule (timer_tick k)"
    note st = asleep_step [OF Suc.prems(1) None Suc.prems(2,3)]
    have t: "k_ticks ?k = k_ticks k + 1" "k_ticks k \<le> k_ticks k + 1"
      using Suc.prems(3) less_Suc_word [of "k_ticks k" w] by (simp_all add: asleep_until_def)
    show ?thesis
    proof (cases "k_current ?k")
      case (Some d)
      then have "idle_wait n ?k = Done ?k" by simp
      moreover have "k_current ?k = Some s \<longrightarrow> k_ticks ?k = w" using st(1) t(1) by (auto split: if_splits)
      ultimately show ?thesis using None st(2,4) t Some by auto
    next
      case none: None
      have le: "unat (w - k_ticks ?k) \<le> n" using st(3) t(1) Suc.prems(4) by simp
      have "asleep_until w s ?k" using none st(1) by (auto split: if_splits)
      then obtain k' where "idle_wait n ?k = Done k'" "good M k'" "k_current k' \<noteq> None" "k_ticks ?k \<le> k_ticks k'" "k_ticks k' \<le> w"
        "k_current k' = Some s \<longrightarrow> k_ticks k' = w"
        using Suc.IH [OF st(2) Suc.prems(2) _ le] by blast
      then show ?thesis using None t by auto
    qed
  qed
qed

lemma trap_ecall_wait:
  assumes "layout_ok (m_layout M)" "good M k" "k_current k = Some c" "length (tf_regs tf) = 32" "tf_scause tf = SCAUSE_ECALL_U"
    and "do_syscall M (call_frame tf) (call_state c tf k) = Done (ret, k1)"
    and "idle_wait rounds (set_proc c (\<lambda>p. p\<lparr>p_tf := set_reg 10 (of_int ret) (p_tf p)\<rparr>) k1) = Done k2" "good M k2" "k_current k2 = Some d"
  obtains k' where "trap_handler M rounds tf k = Done (User d, k')" "runs M d k'" "k_vm k' = k_vm k2" "k_ticks k' = k_ticks k2" "k_procs k' = k_procs k2"
proof -
  note cs = call_state_good [OF assms(2-4)]
  note e = call_state_eq [OF assms(2-4)]
  obtain k' where k': "resume M k2 = Done (User d, k')" "runs M d k'" "k_procs k' = k_procs k2" "k_vm k' = k_vm k2" "k_ticks k' = k_ticks k2"
    by (rule resume_runs [OF assms(1,8,9)])
  have "syscall_dispatch M c (call_state c tf k) = Done (set_proc c (\<lambda>p. p\<lparr>p_tf := set_reg 10 (of_int ret) (p_tf p)\<rparr>) k1)"
    using assms(6) cs(3) by (simp add: syscall_dispatch_def)
  then have "trap_handler M rounds tf k = Done (User d, k')"
    unfolding trap_handler_def assms(3) option.case Let_def e using assms(5,7) k'(1) by simp
  then show thesis using that k' by blast
qed



section \<open>Exiting\<close>

text \<open>What the scheduler may do to a process.\<close>

definition chosen_or_same :: "proc \<Rightarrow> proc \<Rightarrow> bool" where
  "chosen_or_same p q \<longleftrightarrow> q = p \<or> p_state p = P_RUNNABLE \<and> q = p\<lparr>p_state := P_RUNNING\<rparr>"

lemma reschedule_chosen:
  assumes "length (k_procs k) = NPROC" "i < NPROC"
  shows "chosen_or_same (proc_at k i) (proc_at (reschedule k) i)"
  using assms by (cases rule: reschedule_cases [OF assms(1)]) (auto simp: set_proc_at chosen_or_same_def)

lemma chosen_state: "chosen_or_same p q \<Longrightarrow> p_state p \<noteq> P_RUNNABLE \<Longrightarrow> q = p"
  by (auto simp: chosen_or_same_def)

text \<open>Nothing can ever run again: no process is runnable and none sleeps until a time.\<close>

definition stuck :: "kernel \<Rightarrow> bool" where
  "stuck k \<longleftrightarrow> length (k_procs k) = NPROC \<and> k_current k = None \<and>
     (\<forall>i < NPROC. p_state (proc_at k i) \<noteq> P_RUNNABLE \<and> (p_state (proc_at k i) = P_SLEEPING \<longrightarrow> p_wake_tick (proc_at k i) = 0))"

lemma stuck_hangs: "stuck k \<Longrightarrow> idle_wait n k = Hang"
proof (induction n arbitrary: k)
  case 0
  then show ?case by (simp add: stuck_def)
next
  case (Suc n)
  then have st: "length (k_procs k) = NPROC" "k_current k = None" "\<And>i. i < NPROC \<Longrightarrow> p_state (proc_at k i) \<noteq> P_RUNNABLE"
    "\<And>i. i < NPROC \<Longrightarrow> p_state (proc_at k i) = P_SLEEPING \<Longrightarrow> p_wake_tick (proc_at k i) = 0" by (simp_all add: stuck_def)
  have len: "length (k_procs (timer_tick k)) = NPROC" using st(1) by (simp add: tick_defs)
  have at: "proc_at (timer_tick k) i = proc_at k i" if "i < NPROC" for i
    using that st(4) [OF that] timer_tick_at [OF st(1) that] by (auto simp: wake_def)
  have "reschedule (timer_tick k) = (timer_tick k)\<lparr>k_current := None\<rparr>"
    by (cases rule: reschedule_cases [OF len]) (use st(3) at in auto)
  then have "stuck (reschedule (timer_tick k))" using st at len by (simp add: stuck_def)
  then show ?case using Suc.IH st(2) by simp
qed

text \<open>What a call to exit does to the table, before the next process is chosen.\<close>

lemma exit_call:
  assumes "layout_ok (m_layout M)" "good M k" "k_current k = Some c" "length (tf_regs tf) = 32" "tf_regs tf ! 17 = SYS_EXIT"
  obtains kf where "do_syscall M (call_frame tf) (call_state c tf k) = Done (0, reschedule kf)" "length (k_procs kf) = NPROC"
    "kinv M kf" "quiet kf" "\<forall>j < NPROC. j \<noteq> c \<longrightarrow> p_parent (proc_at k c) = Some j \<longrightarrow> waiting (proc_at k j) \<longrightarrow>
       proc_at kf j = (proc_at k j)\<lparr>p_tf := set_reg 10 (of_int (p_pid (proc_at k c))) (p_tf (proc_at k j)), p_state := P_RUNNABLE\<rparr>"
    "\<forall>j < NPROC. j \<noteq> c \<longrightarrow> \<not> (p_parent (proc_at k c) = Some j \<and> waiting (proc_at k j)) \<longrightarrow> proc_at kf j = proc_at k j"
    "p_parent (proc_at k c) = None \<or> (\<exists>q. p_parent (proc_at k c) = Some q \<and> waiting (proc_at k q)) \<Longrightarrow> \<not> live kf c"
    "\<And>q. p_parent (proc_at k c) = Some q \<Longrightarrow> \<not> waiting (proc_at k q) \<Longrightarrow> p_state (proc_at kf c) = P_ZOMBIE \<and>
       p_parent (proc_at kf c) = Some q \<and> p_pid (proc_at kf c) = p_pid (proc_at k c) \<and>
       p_exit_status (proc_at kf c) = int_arg (tf_regs tf ! 10)"
proof -
  let ?st = "int_arg (tf_regs tf ! 10)" and ?p = "proc_at k c"
  note cs = call_state_good [OF assms(2-4)]
  define k1 where "k1 = set_proc c (\<lambda>p. p\<lparr>p_exit_status := ?st\<rparr>) (call_state c tf k)"
  have k: "kinv M k" "one_running k" using assms(2) by (simp_all add: good_def)
  note len = kinv_length [OF k(1)]
  have run: "p_state ?p = P_RUNNING" using one_runningD(3) [OF k(2) assms(3)] .
  have g1: "good M k1" unfolding k1_def using cs(2) by (intro good_set_proc(1) [OF cs(1)]) (simp_all add: same_core_def)
  have at1: "proc_at k1 j = (if j = c then ?p\<lparr>p_tf := call_frame tf, p_exit_status := ?st\<rparr> else proc_at k j)" for j
    using len cs(2) by (simp add: k1_def call_state_def set_proc_at)
  have cur: "k_current k1 = Some c" using cs(5) by (simp add: k1_def)
  have len1: "length (k_procs k1) = NPROC" using len by (simp add: k1_def call_state_def)
  have call: "do_syscall M (call_frame tf) (call_state c tf k) = run_bind (proc_exit M ?st (call_state c tf k)) (\<lambda>k1. Done (0, k1))"
    using assms(5) by (simp add: do_syscall_def call_frame_def sysnums)
  have wc: "\<not> waiting (proc_at k c)" using run by (simp add: waiting_def)
  consider (none) "p_parent ?p = None" | (wait) q where "p_parent ?p = Some q" "waiting (proc_at k q)"
    | (zombie) q where "p_parent ?p = Some q" "\<not> waiting (proc_at k q)" by fastforce
  then show thesis
  proof cases
    case none
    obtain kf where kf: "release_current M c k1 = Done (reschedule kf)" "kinv M kf" "quiet kf" "k_procs kf = (k_procs k1)[c := gone (proc_at k1 c)]"
      by (rule release_current_ok [OF assms(1) _ _ cur]) (use g1 in \<open>auto simp: good_def\<close>)
    have "proc_exit M ?st (call_state c tf k) = Done (reschedule kf)"
      using kf(1) none cs(5) at1 [of c] by (simp add: proc_exit_def Let_def k1_def [symmetric])
    then show thesis
      by (intro that [of kf]) (use call kf none at1 len1 cs(2) in \<open>auto simp: nth_list_update\<close>)
  next
    case (wait q)
    have q: "q < NPROC" "q \<noteq> c" using k(1) wait cs(2) wc by (auto simp: kinv_def procs_ok_def)
    define k2 where "k2 = set_proc q (\<lambda>r. r\<lparr>p_tf := set_reg 10 (of_int (p_pid ?p)) (p_tf r), p_state := P_RUNNABLE\<rparr>) k1"
    have g2: "good M k2"
      unfolding k2_def using q wait(2) at1 [of q] by (intro good_set_proc(1) [OF g1]) (auto simp: same_core_def waiting_def)
    have cur2: "k_current k2 = Some c" using cur by (simp add: k2_def)
    have len2: "length (k_procs k2) = NPROC" using len1 by (simp add: k2_def)
    have at2: "proc_at k2 j = (if j = q then (proc_at k q)\<lparr>p_tf := set_reg 10 (of_int (p_pid ?p)) (p_tf (proc_at k q)), p_state := P_RUNNABLE\<rparr> else proc_at k1 j)" for j
      using len1 q at1 [of q] by (simp add: k2_def set_proc_at)
    obtain kf where kf: "release_current M c k2 = Done (reschedule kf)" "kinv M kf" "quiet kf" "k_procs kf = (k_procs k2)[c := gone (proc_at k2 c)]"
      by (rule release_current_ok [OF assms(1) _ _ cur2]) (use g2 in \<open>auto simp: good_def\<close>)
    have "proc_exit M ?st (call_state c tf k) = Done (reschedule kf)"
      using kf(1) wait q cs(5) at1 [of c] at1 [of q] by (simp add: proc_exit_def Let_def k1_def [symmetric] k2_def [symmetric])
    then show thesis
      by (intro that [of kf]) (use call kf wait at1 at2 len2 cs(2) q in \<open>auto simp: nth_list_update\<close>)
  next
    case (zombie q)
    define kf where "kf = set_proc c (\<lambda>p. p\<lparr>p_state := P_ZOMBIE\<rparr>) k1"
    have atf: "proc_at kf j = (if j = c then ?p\<lparr>p_tf := call_frame tf, p_exit_status := ?st, p_state := P_ZOMBIE\<rparr> else proc_at k j)" for j
      using len1 cs(2) at1 [of c] at1 [of j] by (simp add: kf_def set_proc_at)
    have g: "kinv M k1" "one_running k1" using g1 by (simp_all add: good_def)
    have z: "kinv M kf" unfolding kf_def using cs(2) at1 [of c] run by (intro kinv_set_proc [OF g(1)]) (simp_all add: same_core_def)
    have "quiet kf" unfolding kf_def by (rule quiet_set_current [OF g(2) cur len1]) simp
    have "\<not> waiting (proc_at k1 q)" using at1 [of q] zombie(2) run by (auto simp: waiting_def)
    then have "proc_exit M ?st (call_state c tf k) = Done (reschedule kf)"
      using zombie cs(5) at1 [of c] by (simp add: proc_exit_def Let_def k1_def [symmetric] kf_def)
    then show thesis
      by (intro that [of kf]) (use call z \<open>quiet kf\<close> zombie atf kinv_length [OF z] in \<open>auto\<close>)
  qed
qed

text \<open>The trap of a call after which some process is runnable.\<close>

lemma exit_trap:
  assumes "layout_ok (m_layout M)" "good M k" "k_current k = Some c" "length (tf_regs tf) = 32" "tf_scause tf = SCAUSE_ECALL_U"
    and "do_syscall M (call_frame tf) (call_state c tf k) = Done (ret, reschedule kf)" "kinv M kf" "quiet kf"
    and "j < NPROC" "p_state (proc_at kf j) = P_RUNNABLE"
  obtains d k' where "trap_handler M rounds tf k = Done (User d, k')" "runs M d k'"
    "\<forall>i < NPROC. i \<noteq> c \<longrightarrow> chosen_or_same (proc_at kf i) (proc_at k' i)" 
    "proc_at k' c = (proc_at (reschedule kf) c)\<lparr>p_tf := set_reg 10 (of_int ret) (p_tf (proc_at (reschedule kf) c))\<rparr>"
proof -
  note len = kinv_length [OF assms(7)]
  have g: "good M (reschedule kf)" using reschedule_inv [OF assms(7,8)] by (simp add: good_def)
  obtain d where d: "k_current (reschedule kf) = Some d"
    using reschedule_none [OF len _ assms(9)] assms(10) by (cases "k_current (reschedule kf)") auto
  have c: "c < NPROC" using call_state_good(2) [OF assms(2-4)] .
  have lr: "length (k_procs (reschedule kf)) = NPROC" using g kinv_length by (auto simp: good_def)
  obtain k' where k': "trap_handler M rounds tf k = Done (User d, k')" "runs M d k'"
    "k_procs k' = (k_procs (reschedule kf))[c := (proc_at (reschedule kf) c)\<lparr>p_tf := set_reg 10 (of_int ret) (p_tf (proc_at (reschedule kf) c))\<rparr>]"
    by (rule trap_ecall [OF assms(1-6) g d])
  show thesis
    by (rule that [OF k'(1,2)]) (use k'(3) c lr reschedule_chosen [OF len] in \<open>auto simp: nth_list_update\<close>)
qed

section \<open>Waiting\<close>

lemma call_state_view:
  assumes "good M k" "k_current k = Some c" "length (tf_regs tf) = 32"
  shows "proc_at (call_state c tf k) j = (if j = c then (proc_at k c)\<lparr>p_tf := call_frame tf\<rparr> else proc_at k j)"
    and "length (k_procs (call_state c tf k)) = NPROC"
    and "first_index (zombie_of c) (k_procs (call_state c tf k)) = first_index (zombie_of c) (k_procs k)"
    and "have_child c (call_state c tf k) \<longleftrightarrow> have_child c k"
proof -
  have len: "length (k_procs k) = NPROC" using assms(1) kinv_length by (auto simp: good_def)
  have c: "c < NPROC" by (rule call_state_good(2) [OF assms])
  show at: "proc_at (call_state c tf k) j = (if j = c then (proc_at k c)\<lparr>p_tf := call_frame tf\<rparr> else proc_at k j)" for j
    using len c by (simp add: call_state_def set_proc_at)
  show len': "length (k_procs (call_state c tf k)) = NPROC" using len by (simp add: call_state_def)
  show "first_index (zombie_of c) (k_procs (call_state c tf k)) = first_index (zombie_of c) (k_procs k)"
    unfolding call_state_def set_proc_def using c len by (simp add: first_index_update zombie_of_def)
  have "have_child c k' \<longleftrightarrow> (\<exists>i < NPROC. p_state (proc_at k' i) \<noteq> P_UNUSED \<and> p_parent (proc_at k' i) = Some c)"
    if "length (k_procs k') = NPROC" for k'
    using that unfolding have_child_def set_conv_nth by auto
  note hc = this
  show "have_child c (call_state c tf k) \<longleftrightarrow> have_child c k"
    unfolding hc [OF len] hc [OF len'] by (intro ex_cong) (simp add: at)
qed

lemma wait_reaps:
  assumes "layout_ok (m_layout M)" "good M k" "k_current k = Some c" "length (tf_regs tf) = 32" "tf_scause tf = SCAUSE_ECALL_U"
    and "tf_regs tf ! 17 = SYS_WAIT" "first_index (zombie_of c) (k_procs k) = Some i"
  shows "\<exists>k'. trap_handler M rounds tf k = Done (User c, k') \<and> i \<noteq> c \<and> \<not> live k' i \<and>
    proc_at k' c = (proc_at k c)\<lparr>p_tf := set_reg 10 (of_int (p_pid (proc_at k i))) (call_frame tf)\<rparr> \<and>
    (\<forall>j < NPROC. j \<noteq> c \<longrightarrow> j \<noteq> i \<longrightarrow> proc_at k' j = proc_at k j)"
proof -
  let ?e = "call_state c tf k"
  note cs = call_state_good [OF assms(2-4)] and cv = call_state_view [OF assms(2-4)]
  have k: "kinv M k" "one_running k" using assms(2) by (simp_all add: good_def)
  have i: "i < NPROC" "zombie_of c (proc_at k i)" using first_index_SomeD [OF assms(7)] kinv_length [OF k(1)] by simp_all
  have ic: "i \<noteq> c" using i(2) one_runningD(3) [OF k(2) assms(3)] by (auto simp: zombie_of_def)
  have lv: "live ?e i" "p_state (proc_at ?e i) \<noteq> P_RUNNING" using i(2) ic cv(1) [of i] by (simp_all add: zombie_of_def)
  have ke: "kinv M ?e" "one_running ?e" using cs(1) by (simp_all add: good_def)
  obtain k1 where k1: "destroy_pagetable M i ?e = Done k1" "kinv M (free_slot i k1)" "k_procs (free_slot i k1) = (k_procs ?e)[i := gone (proc_at ?e i)]"
    "k_current (free_slot i k1) = k_current ?e"
    by (rule release_slot_ok [OF assms(1) ke(1) i(1) lv(1)])
  have "one_running (free_slot i k1)"
    using k1(3,4) cv(2) i(1) lv(2) by (intro one_running_cong [OF ke(2)]) (auto simp: nth_list_update)
  then have gf: "good M (free_slot i k1)" using k1(2) by (simp add: good_def)
  have cf: "k_current (free_slot i k1) = Some c" using k1(4) cs(5) by simp
  have d: "do_syscall M (call_frame tf) ?e = Done (p_pid (proc_at k i), free_slot i k1)"
    using assms(6,7) cv(3) cs(5) k1(1) ic cv(1) [of i] by (simp add: do_syscall_def call_frame_def sysnums sys_wait_def proc_wait_def Let_def)
  obtain k' where k': "trap_handler M rounds tf k = Done (User c, k')"
    "k_procs k' = (k_procs (free_slot i k1))[c := (proc_at (free_slot i k1) c)\<lparr>p_tf := set_reg 10 (of_int (p_pid (proc_at k i))) (p_tf (proc_at (free_slot i k1) c))\<rparr>]"
    by (rule trap_ecall [OF assms(1-5) d gf cf])
  have "proc_at k' j = (if j = c then (proc_at k c)\<lparr>p_tf := set_reg 10 (of_int (p_pid (proc_at k i))) (call_frame tf)\<rparr>
      else if j = i then gone (proc_at ?e i) else proc_at k j)" for j
    unfolding k'(2) k1(3) using cv(2) cs(2) i(1) ic cv(1) [of j] cv(1) [of c] by (simp add: nth_list_update)
  then show ?thesis using k'(1) ic by simp
qed

lemma wait_blocks:
  assumes "good M k" "k_current k = Some c" "length (tf_regs tf) = 32" "tf_regs tf ! 17 = SYS_WAIT"
    and "first_index (zombie_of c) (k_procs k) = None" "have_child c k"
  shows "\<exists>kf. do_syscall M (call_frame tf) (call_state c tf k) = Done (0, reschedule kf) \<and> kinv M kf \<and> quiet kf \<and>
    proc_at kf c = (proc_at k c)\<lparr>p_tf := call_frame tf, p_state := P_SLEEPING\<rparr> \<and> (\<forall>j. j \<noteq> c \<longrightarrow> proc_at kf j = proc_at k j)"
proof -
  let ?e = "call_state c tf k"
  note cs = call_state_good [OF assms(1-3)] and cv = call_state_view [OF assms(1-3)]
  let ?s = "set_proc c (\<lambda>p. p\<lparr>p_state := P_SLEEPING\<rparr>) ?e"
  have ke: "kinv M ?e" "one_running ?e" using cs(1) by (simp_all add: good_def)
  have "do_syscall M (call_frame tf) ?e = Done (0, reschedule ?s)"
    using assms(4-6) cv(3,4) cs(5) by (simp add: do_syscall_def call_frame_def sysnums sys_wait_def proc_wait_def)
  moreover have "kinv M ?s"
    using cs(2) cs(4) cv(1) [of c] by (intro kinv_set_proc [OF ke(1)]) (simp_all add: same_core_def)
  moreover have "quiet ?s" by (rule quiet_set_current [OF ke(2) cs(5) cv(2)]) simp
  moreover have "proc_at ?s j = (if j = c then (proc_at k c)\<lparr>p_tf := call_frame tf, p_state := P_SLEEPING\<rparr> else proc_at k j)" for j
    using cv(2) cs(2) cv(1) [of j] cv(1) [of c] by (simp add: set_proc_at)
  ultimately show ?thesis by (intro exI [of _ ?s]) simp
qed

lemma wait_childless:
  assumes "layout_ok (m_layout M)" "good M k" "k_current k = Some c" "length (tf_regs tf) = 32" "tf_scause tf = SCAUSE_ECALL_U"
    and "tf_regs tf ! 17 = SYS_WAIT" "first_index (zombie_of c) (k_procs k) = None" "\<not> have_child c k"
  shows "\<exists>k'. trap_handler M rounds tf k = Done (User c, k') \<and>
    proc_at k' c = (proc_at k c)\<lparr>p_tf := set_reg 10 (-1) (call_frame tf)\<rparr> \<and> (\<forall>j < NPROC. j \<noteq> c \<longrightarrow> proc_at k' j = proc_at k j)"
proof -
  let ?e = "call_state c tf k"
  note cs = call_state_good [OF assms(2-4)] and cv = call_state_view [OF assms(2-4)]
  have d: "do_syscall M (call_frame tf) ?e = Done (-1, ?e)"
    using assms(6-8) cv(3,4) cs(5) by (simp add: do_syscall_def call_frame_def sysnums sys_wait_def proc_wait_def)
  obtain k' where k': "trap_handler M rounds tf k = Done (User c, k')"
    "k_procs k' = (k_procs ?e)[c := (proc_at ?e c)\<lparr>p_tf := set_reg 10 (of_int (-1)) (p_tf (proc_at ?e c))\<rparr>]"
    by (rule trap_ecall [OF assms(1-5) d cs(1,5)])
  show ?thesis using k'(1) cv(2) cs(2) cv(1) by (auto simp: k'(2) nth_list_update)
qed

text \<open>A parent with a child, and the parent waiting for it.\<close>

lemma parent_and_child:
  obtains k where "kernel_reachable sample_machine (User 0, k)" "first_index (zombie_of 0) (k_procs k) = None" "have_child 0 k"
    "p_state (proc_at k 1) = P_RUNNABLE" "p_parent (proc_at k 1) = Some 0" "p_pid (proc_at k 1) = 2" "p_wake_tick (proc_at k 0) = 0"
    "\<forall>i < NPROC. i \<noteq> 0 \<longrightarrow> i \<noteq> 1 \<longrightarrow> \<not> live k i"
proof -
  obtain k where k: "kernel_reachable sample_machine (User 0, k)" "p_state (proc_at k 1) = P_RUNNABLE" "p_parent (proc_at k 1) = Some 0"
    "p_pid (proc_at k 1) = 2" "p_wake_tick (proc_at k 0) = 0" "\<forall>i < NPROC. i \<noteq> 0 \<longrightarrow> i \<noteq> 1 \<longrightarrow> \<not> live k i"
    by (rule two_processes)
  have "runs sample_machine 0 k" using kernel_reachable_runs [OF sample_machine_ok(1) k(1)] by simp
  then have g: "kinv sample_machine k" "one_running k" "k_current k = Some 0" by (simp_all add: runs_def good_def)
  note len = kinv_length [OF g(1)]
  have "\<not> zombie_of 0 (proc_at k i)" if "i < NPROC" for i
    using that k(2,6) one_runningD(3) [OF g(2,3)] by (cases "i = 0"; cases "i = 1") (auto simp: zombie_of_def)
  then have z: "first_index (zombie_of 0) (k_procs k) = None"
    using len unfolding first_index_None set_conv_nth by auto
  have "proc_at k 1 \<in> set (k_procs k)" using len by simp
  then have "have_child 0 k" unfolding have_child_def using k(2,3) by (intro bexI [of _ "proc_at k 1"]) simp_all
  then show thesis using that k z by blast
qed

lemma parent_waits:
  obtains k where "kernel_reachable sample_machine (User 1, k)" "p_parent (proc_at k 1) = Some 0" "waiting (proc_at k 0)" "p_pid (proc_at k 1) = 2"
proof -
  let ?M = sample_machine
  obtain k where k: "kernel_reachable ?M (User 0, k)" "first_index (zombie_of 0) (k_procs k) = None" "have_child 0 k"
    "p_state (proc_at k 1) = P_RUNNABLE" "p_parent (proc_at k 1) = Some 0" "p_pid (proc_at k 1) = 2" "p_wake_tick (proc_at k 0) = 0"
    "\<forall>i < NPROC. i \<noteq> 0 \<longrightarrow> i \<noteq> 1 \<longrightarrow> \<not> live k i"
    by (rule parent_and_child)
  have "runs ?M 0 k" using kernel_reachable_runs [OF sample_machine_ok(1) k(1)] by simp
  then have g: "good ?M k" "k_current k = Some 0" by (simp_all add: runs_def)
  obtain kf where kf: "do_syscall ?M (call_frame (call_tf SYS_WAIT)) (call_state 0 (call_tf SYS_WAIT) k) = Done (0, reschedule kf)" "kinv ?M kf" "quiet kf"
    "proc_at kf 0 = (proc_at k 0)\<lparr>p_tf := call_frame (call_tf SYS_WAIT), p_state := P_SLEEPING\<rparr>" "\<forall>j. j \<noteq> 0 \<longrightarrow> proc_at kf j = proc_at k j"
    using wait_blocks [OF g call_tf_simps(1) call_tf_simps(3) k(2,3)] by blast
  have run: "1 < NPROC" "p_state (proc_at kf 1) = P_RUNNABLE" using kf(5) k(4) by simp_all
  obtain d k' where k': "trap_handler ?M 0 (call_tf SYS_WAIT) k = Done (User d, k')" "runs ?M d k'"
    "\<forall>i < NPROC. i \<noteq> 0 \<longrightarrow> chosen_or_same (proc_at kf i) (proc_at k' i)"
    "proc_at k' 0 = (proc_at (reschedule kf) 0)\<lparr>p_tf := set_reg 10 (of_int 0) (p_tf (proc_at (reschedule kf) 0))\<rparr>"
    by (rule exit_trap [OF sample_machine_ok(1) g call_tf_simps(1,2) kf(1-3) run])
  have "proc_at (reschedule kf) 0 = proc_at kf 0" using chosen_state [OF reschedule_chosen [OF kinv_length [OF kf(2)]], of 0] kf(4) by simp
  then have w: "waiting (proc_at k' 0)" using k'(4) kf(4) k(7) by (simp add: waiting_def)
  have o: "one_running k'" "k_current k' = Some d" using k'(2) by (simp_all add: runs_def good_def)
  note d = one_runningD(2,3) [OF o]
  have "chosen_or_same (proc_at k i) (proc_at k' i)" if "i < NPROC" "i \<noteq> 0" for i using k'(3) kf(5) that by metis
  note ch = this
  have "d = 1"
  proof (rule ccontr)
    assume "d \<noteq> 1"
    moreover have "d \<noteq> 0" using d(2) w by (cases "d = 0") (simp_all add: waiting_def)
    ultimately have "\<not> live k d" "chosen_or_same (proc_at k d) (proc_at k' d)" using k(8) ch d(1) by auto
    then show False using d(2) by (auto simp: chosen_or_same_def)
  qed
  moreover have "p_parent (proc_at k' 1) = Some 0" "p_pid (proc_at k' 1) = 2"
    using ch [of 1] k(5,6) by (auto simp: chosen_or_same_def)
  ultimately show thesis
    using that [of k'] w kernel_reachable.trap [OF k(1) call_tf_simps(1) k'(1)] by simp
qed

text \<open>
  C25: Wait. The call collects the first child that has exited: its id is the result, its slot and address space are
  released, and nothing else changes. Without any child the result is -1. Otherwise the caller sleeps, with no time
  to wake it, until a child exits.
\<close>

theorem wait_collects_child:
  assumes "layout_ok (m_layout M)" "kernel_reachable M (User c, k)" "length (tf_regs tf) = 32" "tf_scause tf = SCAUSE_ECALL_U"
    and "tf_regs tf ! 17 = SYS_WAIT"
  shows "case first_index (zombie_of c) (k_procs k) of
      Some i \<Rightarrow> \<exists>k'. trap_handler M rounds tf k = Done (User c, k') \<and> i \<noteq> c \<and> \<not> live k' i \<and>
        proc_at k' c = (proc_at k c)\<lparr>p_tf := set_reg 10 (of_int (p_pid (proc_at k i))) (call_frame tf)\<rparr> \<and>
        (\<forall>j < NPROC. j \<noteq> c \<longrightarrow> j \<noteq> i \<longrightarrow> proc_at k' j = proc_at k j)
    | None \<Rightarrow>
        if have_child c k
        then \<exists>k1. syscall_dispatch M c (call_state c tf k) = Done k1 \<and> k_current k1 \<noteq> Some c \<and>
          proc_at k1 c = (proc_at k c)\<lparr>p_tf := set_reg 10 0 (call_frame tf), p_state := P_SLEEPING\<rparr> \<and>
          (\<forall>j < NPROC. j \<noteq> c \<longrightarrow> chosen_or_same (proc_at k j) (proc_at k1 j))
        else \<exists>k'. trap_handler M rounds tf k = Done (User c, k') \<and>
          proc_at k' c = (proc_at k c)\<lparr>p_tf := set_reg 10 (-1) (call_frame tf)\<rparr> \<and> (\<forall>j < NPROC. j \<noteq> c \<longrightarrow> proc_at k' j = proc_at k j)"
proof -
  have "runs M c k" using kernel_reachable_runs [OF assms(1,2)] by simp
  then have g: "good M k" "k_current k = Some c" by (simp_all add: runs_def)
  have blocks: "\<exists>k1. syscall_dispatch M c (call_state c tf k) = Done k1 \<and> k_current k1 \<noteq> Some c \<and>
      proc_at k1 c = (proc_at k c)\<lparr>p_tf := set_reg 10 0 (call_frame tf), p_state := P_SLEEPING\<rparr> \<and>
      (\<forall>j < NPROC. j \<noteq> c \<longrightarrow> chosen_or_same (proc_at k j) (proc_at k1 j))"
    if z: "first_index (zombie_of c) (k_procs k) = None" "have_child c k"
  proof -
    obtain kf where kf: "do_syscall M (call_frame tf) (call_state c tf k) = Done (0, reschedule kf)" "kinv M kf" "quiet kf"
      "proc_at kf c = (proc_at k c)\<lparr>p_tf := call_frame tf, p_state := P_SLEEPING\<rparr>" "\<forall>j. j \<noteq> c \<longrightarrow> proc_at kf j = proc_at k j"
      using wait_blocks [OF g assms(3,5) z] by blast
    note len = kinv_length [OF kf(2)] and cs = call_state_good [OF g assms(3)]
    have nc: "k_current (reschedule kf) \<noteq> Some c" using reschedule_some(2) [OF len] kf(4) by force
    have lr: "length (k_procs (reschedule kf)) = NPROC" by (cases rule: reschedule_cases [OF len]) (use len in auto)
    have "chosen_or_same (proc_at k j) (proc_at (reschedule kf) j)" if "j < NPROC" "j \<noteq> c" for j
      using reschedule_chosen [OF len that(1)] kf(5) that(2) by simp
    then show ?thesis
      using kf(1,4) cs(2,3) nc lr reschedule_state [OF len cs(2) nc] by (auto simp: syscall_dispatch_def set_proc_at)
  qed
  show ?thesis
    using wait_reaps [OF assms(1) g assms(3-5)] wait_childless [OF assms(1) g assms(3-5)] blocks by (simp split: option.split)
qed

theorem wait_collects_child_witness:
  "\<exists>k k1. kernel_reachable sample_machine (User 0, k) \<and> have_child 0 k \<and>
     syscall_dispatch sample_machine 0 (call_state 0 (call_tf SYS_WAIT) k) = Done k1 \<and> k_current k1 \<noteq> Some 0 \<and> p_state (proc_at k1 0) = P_SLEEPING"
proof -
  obtain k where k: "kernel_reachable sample_machine (User 0, k)" "first_index (zombie_of 0) (k_procs k) = None" "have_child 0 k"
    by (rule parent_and_child)
  then show ?thesis using wait_collects_child [OF sample_machine_ok(1) k(1) call_tf_simps] by (auto simp: k(2,3))
qed

section \<open>Exits as their parent sees them\<close>

text \<open>
  C24: Exit completes a blocked wait. When the parent of the caller waits, the call releases the slot of the caller
  with its address space and makes the parent runnable with the id of the caller as the result of its wait;
  the other processes stay as they are but for the one that is chosen to run.
\<close>

theorem exit_completes_wait:
  assumes "layout_ok (m_layout M)" "kernel_reachable M (User c, k)" "length (tf_regs tf) = 32" "tf_scause tf = SCAUSE_ECALL_U"
    and "tf_regs tf ! 17 = SYS_EXIT" "p_parent (proc_at k c) = Some q" "waiting (proc_at k q)"
  shows "\<exists>d k'. trap_handler M rounds tf k = Done (User d, k') \<and> \<not> live k' c \<and>
    p_tf (proc_at k' q) = set_reg 10 (of_int (p_pid (proc_at k c))) (p_tf (proc_at k q)) \<and>
    (p_state (proc_at k' q) = P_RUNNABLE \<or> p_state (proc_at k' q) = P_RUNNING \<and> d = q) \<and>
    (\<forall>j < NPROC. j \<noteq> c \<longrightarrow> j \<noteq> q \<longrightarrow> chosen_or_same (proc_at k j) (proc_at k' j))"
proof -
  have r: "runs M c k" using kernel_reachable_runs [OF assms(1,2)] by simp
  then have g: "good M k" "kinv M k" "one_running k" "k_current k = Some c" by (simp_all add: runs_def good_def)
  have c: "c < NPROC" using one_runningD(2) [OF g(3,4)] .
  have q: "q < NPROC" "q \<noteq> c" using g(2) assms(6,7) c one_runningD(3) [OF g(3,4)] by (auto simp: kinv_def procs_ok_def waiting_def)
  obtain kf where kf: "do_syscall M (call_frame tf) (call_state c tf k) = Done (0, reschedule kf)" "kinv M kf" "quiet kf"
    "\<forall>j < NPROC. j \<noteq> c \<longrightarrow> p_parent (proc_at k c) = Some j \<longrightarrow> waiting (proc_at k j) \<longrightarrow>
       proc_at kf j = (proc_at k j)\<lparr>p_tf := set_reg 10 (of_int (p_pid (proc_at k c))) (p_tf (proc_at k j)), p_state := P_RUNNABLE\<rparr>"
    "\<forall>j < NPROC. j \<noteq> c \<longrightarrow> \<not> (p_parent (proc_at k c) = Some j \<and> waiting (proc_at k j)) \<longrightarrow> proc_at kf j = proc_at k j" "\<not> live kf c"
    by (rule exit_call [OF assms(1) g(1,4) assms(3,5)]) (use assms(6,7) in auto)
  note len = kinv_length [OF kf(2)]
  have fq: "proc_at kf q = (proc_at k q)\<lparr>p_tf := set_reg 10 (of_int (p_pid (proc_at k c))) (p_tf (proc_at k q)), p_state := P_RUNNABLE\<rparr>"
    using kf(4) q assms(6,7) by blast
  have run: "p_state (proc_at kf q) = P_RUNNABLE" using fq by simp
  obtain d k' where k': "trap_handler M rounds tf k = Done (User d, k')" "runs M d k'"
    "\<forall>i < NPROC. i \<noteq> c \<longrightarrow> chosen_or_same (proc_at kf i) (proc_at k' i)"
    "proc_at k' c = (proc_at (reschedule kf) c)\<lparr>p_tf := set_reg 10 (of_int 0) (p_tf (proc_at (reschedule kf) c))\<rparr>"
    by (rule exit_trap [OF assms(1) g(1,4) assms(3,4) kf(1-3) q(1) run])
  have "proc_at (reschedule kf) c = proc_at kf c" using chosen_state [OF reschedule_chosen [OF len c]] kf(6) by simp
  then have "\<not> live k' c" using k'(4) kf(6) by simp
  moreover have ch: "chosen_or_same (proc_at kf q) (proc_at k' q)" using k'(3) q by blast
  moreover have "p_state (proc_at k' q) = P_RUNNING \<longrightarrow> d = q"
    using k'(2) q(1) one_runningD(1) by (auto simp: runs_def good_def)
  ultimately show ?thesis
    using k'(1,3) fq kf(5) assms(6) by (intro exI [of _ d] exI [of _ k']) (auto simp: chosen_or_same_def)
qed

text \<open>
  The kernel stops with its first process. When a process without a parent exits while no other is runnable or
  sleeps until a time, the trap handler never returns, however long it waits: not even when the
  others wait for a child.
\<close>

theorem init_exit_hangs:
  assumes "layout_ok (m_layout M)" "kernel_reachable M (User c, k)" "length (tf_regs tf) = 32" "tf_scause tf = SCAUSE_ECALL_U"
    and "tf_regs tf ! 17 = SYS_EXIT" "p_parent (proc_at k c) = None"
    and "\<forall>i < NPROC. i \<noteq> c \<longrightarrow> p_state (proc_at k i) \<noteq> P_RUNNABLE \<and> (p_state (proc_at k i) = P_SLEEPING \<longrightarrow> p_wake_tick (proc_at k i) = 0)"
  shows "trap_handler M rounds tf k = Hang"
proof -
  have r: "runs M c k" using kernel_reachable_runs [OF assms(1,2)] by simp
  then have g: "good M k" "kinv M k" "one_running k" "k_current k = Some c" by (simp_all add: runs_def good_def)
  have c: "c < NPROC" using one_runningD(2) [OF g(3,4)] .
  obtain kf where kf: "do_syscall M (call_frame tf) (call_state c tf k) = Done (0, reschedule kf)" "kinv M kf"
    "\<forall>j < NPROC. j \<noteq> c \<longrightarrow> proc_at kf j = proc_at k j" "\<not> live kf c"
    by (rule exit_call [OF assms(1) g(1,4) assms(3,5)]) (use assms(6) in auto)
  note len = kinv_length [OF kf(2)]
  have none: "p_state (proc_at kf i) \<noteq> P_RUNNABLE \<and> (p_state (proc_at kf i) = P_SLEEPING \<longrightarrow> p_wake_tick (proc_at kf i) = 0)" if "i < NPROC" for i
    using kf(3,4) assms(7) that by (cases "i = c") auto
  have e: "reschedule kf = kf\<lparr>k_current := None\<rparr>" by (cases rule: reschedule_cases [OF len]) (use none in auto)
  let ?k2 = "set_proc c (\<lambda>p. p\<lparr>p_tf := set_reg 10 (of_int 0) (p_tf p)\<rparr>) (reschedule kf)"
  have "stuck ?k2" unfolding e stuck_def using none len c kf(4) by (auto simp: set_proc_at)
  then have "idle_wait rounds ?k2 = Hang" by (rule stuck_hangs)
  moreover have "syscall_dispatch M c (call_state c tf k) = Done ?k2"
    using kf(1) call_state_good(3) [OF g(1,4) assms(3)] by (simp add: syscall_dispatch_def)
  ultimately show ?thesis
    unfolding trap_handler_def g(4) option.case Let_def call_state_eq [OF g(1,4) assms(3)] using assms(4) by simp
qed

theorem init_exit_hangs_witness:
  "\<exists>k. kernel_reachable sample_machine (User 0, k) \<and> trap_handler sample_machine 1000 (call_tf SYS_EXIT) k = Hang"
proof -
  obtain k where k: "kernel_reachable sample_machine (User 0, k)" "p_parent (proc_at k 0) = None" "\<forall>i < NPROC. i \<noteq> 0 \<longrightarrow> \<not> live k i"
    by (rule booted) blast
  have "\<forall>i < NPROC. i \<noteq> 0 \<longrightarrow> p_state (proc_at k i) \<noteq> P_RUNNABLE \<and> (p_state (proc_at k i) = P_SLEEPING \<longrightarrow> p_wake_tick (proc_at k i) = 0)"
    using k(3) by simp
  then have "trap_handler sample_machine 1000 (call_tf SYS_EXIT) k = Hang"
    by (rule init_exit_hangs [OF sample_machine_ok(1) k(1) call_tf_simps k(2)])
  then show ?thesis using k(1) by blast
qed

text \<open>
  Exiting leaves orphans. A process without a parent that exits frees its slot, but its children keep pointing to
  it: a child that was runnable still names the freed slot as its parent, and whatever process is
  created there later inherits it.
\<close>

theorem exit_leaves_orphans:
  assumes "layout_ok (m_layout M)" "kernel_reachable M (User c, k)" "length (tf_regs tf) = 32" "tf_scause tf = SCAUSE_ECALL_U"
    and "tf_regs tf ! 17 = SYS_EXIT" "p_parent (proc_at k c) = None"
    and "j < NPROC" "p_state (proc_at k j) = P_RUNNABLE" "p_parent (proc_at k j) = Some c"
  shows "\<exists>d k'. trap_handler M rounds tf k = Done (User d, k') \<and> \<not> live k' c \<and> live k' j \<and> p_parent (proc_at k' j) = Some c"
proof -
  have r: "runs M c k" using kernel_reachable_runs [OF assms(1,2)] by simp
  then have g: "good M k" "kinv M k" "one_running k" "k_current k = Some c" by (simp_all add: runs_def good_def)
  have c: "c < NPROC" "p_state (proc_at k c) = P_RUNNING" using one_runningD(2,3) [OF g(3,4)] by simp_all
  have jc: "j \<noteq> c" using c(2) assms(8) by auto
  obtain kf where kf: "do_syscall M (call_frame tf) (call_state c tf k) = Done (0, reschedule kf)" "kinv M kf" "quiet kf"
    "\<forall>j < NPROC. j \<noteq> c \<longrightarrow> proc_at kf j = proc_at k j" "\<not> live kf c"
    by (rule exit_call [OF assms(1) g(1,4) assms(3,5)]) (use assms(6) in auto)
  have run: "p_state (proc_at kf j) = P_RUNNABLE" using kf(4) assms(7,8) jc by simp
  obtain d k' where k': "trap_handler M rounds tf k = Done (User d, k')"
    "\<forall>i < NPROC. i \<noteq> c \<longrightarrow> chosen_or_same (proc_at kf i) (proc_at k' i)"
    "proc_at k' c = (proc_at (reschedule kf) c)\<lparr>p_tf := set_reg 10 (of_int 0) (p_tf (proc_at (reschedule kf) c))\<rparr>"
    by (rule exit_trap [OF assms(1) g(1,4) assms(3,4) kf(1-3) assms(7) run])
  have "proc_at (reschedule kf) c = proc_at kf c" using chosen_state [OF reschedule_chosen [OF kinv_length [OF kf(2)] c(1)]] kf(5) by simp
  then have "\<not> live k' c" using k'(3) kf(5) by simp
  moreover have "chosen_or_same (proc_at k j) (proc_at k' j)" using k'(2) kf(4) assms(7) jc by metis
  ultimately show ?thesis using k'(1) assms(8,9) by (auto simp: chosen_or_same_def)
qed

theorem exit_leaves_orphans_witness:
  "\<exists>k d k'. kernel_reachable sample_machine (User 0, k) \<and> trap_handler sample_machine 0 (call_tf SYS_EXIT) k = Done (User d, k') \<and>
     \<not> live k' 0 \<and> p_parent (proc_at k' 1) = Some 0"
proof -
  obtain k where k: "kernel_reachable sample_machine (User 0, k)" "p_state (proc_at k 1) = P_RUNNABLE" "p_parent (proc_at k 1) = Some 0"
    "p_parent (proc_at k 0) = None" by (rule two_processes)
  have "(1 :: nat) < NPROC" by simp
  from exit_leaves_orphans [OF sample_machine_ok(1) k(1) call_tf_simps k(4) this k(2,3), of 0] show ?thesis using k(1) by blast
qed

theorem exit_completes_wait_witness:
  "\<exists>k d k'. kernel_reachable sample_machine (User 1, k) \<and> trap_handler sample_machine 0 (call_tf SYS_EXIT) k = Done (User d, k') \<and>
     \<not> live k' 1 \<and> p_tf (proc_at k' 0) = set_reg 10 2 (p_tf (proc_at k 0))"
proof -
  obtain k where k: "kernel_reachable sample_machine (User 1, k)" "p_parent (proc_at k 1) = Some 0" "waiting (proc_at k 0)" "p_pid (proc_at k 1) = 2"
    by (rule parent_waits)
  show ?thesis using exit_completes_wait [OF sample_machine_ok(1) k(1) call_tf_simps k(2,3), of 0] k(1,4) by auto
qed

section \<open>The console\<close>

text \<open>
  C38: Write. In every reachable state the call sends to the console the bytes of the caller's own memory at
  the address it gives, at most 1024 of them and up to the first zero byte, with a carriage return before every
  newline, and returns how many it was asked for. When one of the addresses is not the caller's it
  returns -1, prints nothing and changes nothing.
\<close>

theorem write_prints_own_memory:
  assumes "layout_ok (m_layout M)" "kernel_reachable M (User c, k)" "n = min (unat (tf_regs tf ! 11)) 1024"
  shows "case user_bytes (m_layout M) c (vm_mem (k_vm k)) (tf_regs tf ! 10) n of
      None \<Rightarrow> sys_write M tf k = Done (-1, k)
    | Some bs \<Rightarrow> length bs = n \<and> (idle_for (length (crlf (c_str (map byte_char bs)))) (k_uart k) \<longrightarrow>
        (\<exists>u. sys_write M tf k = Done (int n, k\<lparr>k_uart := u\<rparr>) \<and> uart_thr u = uart_thr (k_uart k) @ crlf (c_str (map byte_char bs))))"
proof -
  have "runs M c k" using kernel_reachable_runs [OF assms(1,2)] by simp
  then have g: "good M k" "k_current k = Some c" by (simp_all add: runs_def)
  note ci = good_copyin [OF assms(1) g, of "tf_regs tf ! 10" n] and pt = current_pt_good [OF g(2)]
  show ?thesis
  proof (cases "user_bytes (m_layout M) c (vm_mem (k_vm k)) (tf_regs tf ! 10) n")
    case None
    then show ?thesis using ci pt by (simp add: sys_write_def Let_def assms(3))
  next
    case (Some bs)
    have c: "c_str (map byte_char bs @ [NUL]) = c_str (map byte_char bs)"
      unfolding c_str_def by (induction bs) auto
    have len: "length bs = n" using Some by (auto simp: user_bytes_def split: if_splits)
    have "\<exists>u. sys_write M tf k = Done (int n, k\<lparr>k_uart := u\<rparr>) \<and> uart_thr u = uart_thr (k_uart k) @ crlf (c_str (map byte_char bs))"
      if idle: "idle_for (length (crlf (c_str (map byte_char bs)))) (k_uart k)"
    proof -
      obtain u where "uart_puts (map byte_char bs @ [NUL]) (k_uart k) = Some u" "uart_thr u = uart_thr (k_uart k) @ crlf (c_str (map byte_char bs))"
        by (rule uart_puts_idle [of "map byte_char bs @ [NUL]" 0 "k_uart k", unfolded c]) (use idle in auto)
      then show ?thesis using ci pt Some by (intro exI [of _ u]) (simp add: sys_write_def Let_def assms(3) of_uart_def)
    qed
    then show ?thesis using Some len by simp
  qed
qed

text \<open>What one call to read takes from the characters received: up to the newline or the length of the buffer.\<close>

fun console_line :: "nat \<Rightarrow> char list \<Rightarrow> char list" where
  "console_line 0 cs = []"
| "console_line (Suc n) [] = []"
| "console_line (Suc n) (c # cs) = c # (if c = newline then [] else console_line n cs)"

text \<open>The device has a character for each of the \<open>n\<close> reads the call may need.\<close>

definition receives :: "nat \<Rightarrow> uart \<Rightarrow> bool" where
  "receives n u \<longleftrightarrow> n \<le> length (uart_rhr u) \<and> n \<le> length (filter (\<lambda>s. s AND RX_READY \<noteq> 0) (uart_lsr u))"

lemma receives_getc:
  assumes "receives (Suc n) u"
  obtains ch u' where "uart_getc u = Some (ch, u')" "uart_rhr u = ch # uart_rhr u'" "receives n u'" "uart_thr u' = uart_thr u"
proof -
  obtain ch cs where c: "uart_rhr u = ch # cs" using assms by (cases "uart_rhr u") (auto simp: receives_def)
  have some: "0 < length (filter (\<lambda>s. s AND RX_READY \<noteq> 0) (uart_lsr u))" using assms unfolding receives_def by linarith
  obtain ss where s: "poll RX_READY (uart_lsr u) = Some ss"
    "length (filter (\<lambda>s. s AND RX_READY \<noteq> 0) (uart_lsr u)) = Suc (length (filter (\<lambda>s. s AND RX_READY \<noteq> 0) ss))"
    using poll_idle [OF some] by blast
  show thesis
    by (rule that [of ch "u\<lparr>uart_lsr := ss, uart_rhr := cs\<rparr>"]) (use c s assms in \<open>simp_all add: uart_getc_def receives_def\<close>)
qed

lemma read_loop_line:
  assumes "layout_ok (m_layout M)" "good M k" "k_current k = Some c" "pt = p_pagetable (proc_at k c)" "receives n (k_uart k)"
    and "\<forall>j < n. user_space (m_layout M) c (uva + of_nat (i + j)) \<noteq> None"
  shows "\<exists>m u. read_loop M pt uva i n k = Done (int (i + length (console_line n (uart_rhr (k_uart k)))), k\<lparr>k_uart := u, k_vm := (k_vm k)\<lparr>vm_mem := m\<rparr>\<rparr>) \<and>
    byte_out (m_layout M) c (uva + of_nat i) (map char_byte (console_line n (uart_rhr (k_uart k)))) (vm_mem (k_vm k)) = (0, m) \<and>
    uart_rhr u = drop (length (console_line n (uart_rhr (k_uart k)))) (uart_rhr (k_uart k)) \<and> uart_thr u = uart_thr (k_uart k)"
  using assms(2-)
proof (induction n arbitrary: i k)
  case 0
  have "k = k\<lparr>k_uart := k_uart k, k_vm := (k_vm k)\<lparr>vm_mem := vm_mem (k_vm k)\<rparr>\<rparr>" by simp
  then show ?case by (metis add.right_neutral byte_out.simps(1) console_line.simps(1) drop0 list.map(1) list.size(3) read_loop.simps(1))
next
  case (Suc n)
  let ?L = "m_layout M"
  have k: "kinv M k" "one_running k" using Suc.prems(1) by (simp_all add: good_def)
  note c = one_runningD(2,4) [OF k(2) Suc.prems(2)]
  obtain ch u where u: "uart_getc (k_uart k) = Some (ch, u)" "uart_rhr (k_uart k) = ch # uart_rhr u" "receives n u" "uart_thr u = uart_thr (k_uart k)"
    by (rule receives_getc [OF Suc.prems(4)])
  obtain pa where pa: "user_space ?L c (uva + of_nat i) = Some pa" using Suc.prems(5) by (auto dest: spec [of _ 0])
  obtain D where D: "user_table ?L (k_vm k) pt c D" using current_table [OF assms(1) k(1) c] Suc.prems(3) by metis
  define v where "v = (k_vm k)\<lparr>vm_mem := (vm_mem (k_vm k))(pa := char_byte ch)\<rparr>"
  have co: "copyout ?L pt (uva + of_nat i) [char_byte ch] (k_vm k) = Inr (0, v)"
    using copyout_byte_out [OF assms(1) c(1) D, of "uva + of_nat i" "[char_byte ch]"] pa by (simp add: v_def)
  have "good M (k\<lparr>k_vm := v\<rparr>)"
    by (rule good_copyout [OF assms(1) Suc.prems(1,2), of "uva + of_nat i" "[char_byte ch]"]) (use co Suc.prems(3) in simp)
  moreover have "k\<lparr>k_uart := u, k_vm := v\<rparr> = (k\<lparr>k_vm := v\<rparr>)\<lparr>k_uart := u\<rparr>" by simp
  ultimately have g: "good M (k\<lparr>k_uart := u, k_vm := v\<rparr>)" by (simp only: good_update)
  show ?case
  proof (cases "ch = newline")
    case True
    then show ?thesis
      using u co pa Suc.prems(3) by (intro exI [of _ "(vm_mem (k_vm k))(pa := char_byte ch)"] exI [of _ u]) (simp add: v_def Let_def del: fun_upd_apply)
  next
    case False
    have own: "\<forall>j < n. user_space ?L c (uva + of_nat (Suc i + j)) \<noteq> None"
      using Suc.prems(5) by (metis Suc_less_eq add_Suc_shift)
    let ?k = "k\<lparr>k_uart := u, k_vm := v\<rparr>" and ?line = "console_line n (uart_rhr u)"
    obtain m u' where m: "read_loop M pt uva (Suc i) n ?k = Done (int (Suc i + length ?line), ?k\<lparr>k_uart := u', k_vm := (k_vm ?k)\<lparr>vm_mem := m\<rparr>\<rparr>)"
      "byte_out ?L c (uva + of_nat (Suc i)) (map char_byte ?line) (vm_mem v) = (0, m)" "uart_rhr u' = drop (length ?line) (uart_rhr u)" "uart_thr u' = uart_thr u"
      using Suc.IH [OF g _ _ _ own] Suc.prems(2,3) u(3) by auto
    have "uva + of_nat i + 1 = uva + of_nat (Suc i)" by simp
    then show ?thesis
      using u co pa False m by (intro exI [of _ m] exI [of _ u']) (simp add: Let_def v_def ac_simps del: fun_upd_apply)
  qed
qed


definition io_tf :: "64 word \<Rightarrow> 64 word \<Rightarrow> trapframe" where
  "io_tf va n = tf_clear\<lparr>tf_regs := (replicate 32 0)[10 := va, 11 := n]\<rparr>"

lemma io_tf_simps [simp]: "tf_regs (io_tf va n) ! 10 = va" "tf_regs (io_tf va n) ! 11 = n"
  by (simp_all add: io_tf_def)

lemma sample_addresses:
  "j < 16 \<Longrightarrow> user_space sample_layout 0 (0x40000000 + of_nat j) \<noteq> None" "user_space sample_layout 0 0 = None"
proof -
  have base: "user_space sample_layout 0 0x40000000 = Some 0x80600000"
    by (simp add: user_space_def sample_layout_def user_page_def layout_defs)
  have "page_rest 0x40000000 = 4096" by (simp add: page_rest_def PGSIZE_def)
  then show "user_space sample_layout 0 (0x40000000 + of_nat j) \<noteq> None" if "j < 16" using user_space_step [OF base, of j] that by simp
  show "user_space sample_layout 0 0 = None"
    by (simp add: user_space_def sample_layout_def user_page_def layout_defs)
qed

theorem write_prints_own_memory_witness:
  "\<exists>k bs u. kernel_reachable sample_machine (User 0, k) \<and> sys_write sample_machine (io_tf 0 8) k = Done (-1, k) \<and>
     sys_write sample_machine (io_tf 0x40000000 8) k = Done (8, k\<lparr>k_uart := u\<rparr>) \<and> length bs = 8 \<and>
     uart_thr u = uart_thr (k_uart k) @ crlf (c_str (map byte_char bs))"
proof -
  obtain k where k: "kernel_reachable sample_machine (User 0, k)" "idle_for 1000 (k_uart k)" by (rule booted)
  have L: "m_layout sample_machine = sample_layout" by (simp add: sample_machine_def)
  have "\<exists>i < 8. user_space sample_layout 0 (0 + of_nat i) = None" using sample_addresses(2) by (intro exI [of _ 0]) simp
  then have "user_bytes sample_layout 0 (vm_mem (k_vm k)) 0 8 = None" by (auto simp: user_bytes_def)
  then have bad: "sys_write sample_machine (io_tf 0 8) k = Done (-1, k)"
    using write_prints_own_memory [OF sample_machine_ok(1) k(1) refl, of "io_tf 0 8"] L by simp
  obtain bs where bs: "user_bytes sample_layout 0 (vm_mem (k_vm k)) 0x40000000 8 = Some bs"
    using sample_addresses(1) by (auto simp: user_bytes_def)
  have short: "length (crlf s) \<le> 2 * length s" for s by (induction s) auto
  have cut: "length (c_str s) \<le> length s" for s by (simp add: c_str_def length_takeWhile_le)
  have n: "length bs = 8" using bs by (auto simp: user_bytes_def split: if_splits)
  have "length (crlf (c_str (map byte_char bs))) \<le> 1000"
    using short [of "c_str (map byte_char bs)"] cut [of "map byte_char bs"] n by simp
  then have "idle_for (length (crlf (c_str (map byte_char bs)))) (k_uart k)" using k(2) by (simp add: idle_for_def)
  then obtain u where "sys_write sample_machine (io_tf 0x40000000 8) k = Done (8, k\<lparr>k_uart := u\<rparr>)"
    "uart_thr u = uart_thr (k_uart k) @ crlf (c_str (map byte_char bs))"
    using write_prints_own_memory [OF sample_machine_ok(1) k(1) refl, of "io_tf 0x40000000 8"] L bs n by auto
  then show ?thesis using k(1) bad n by blast
qed


end
