(* ===== verification/Nano_Frames.thy ===== *)
theory Nano_Frames
  imports Nano_Calls
begin

text \<open>
  What a trap of NanoBoot leaves of the registers of all processes: the trap frames of \<^verbatim>\<open>kernel/proc.c\<close> change only where
  a call says so, and a process that can run stays one until it runs.
\<close>

section \<open>Slots that an operation leaves alone\<close>

definition ready :: "proc \<Rightarrow> bool" where
  "ready p \<longleftrightarrow> p_state p = P_RUNNABLE \<or> p_state p = P_RUNNING"

definition alive :: "proc \<Rightarrow> bool" where
  "alive p \<longleftrightarrow> p_state p = P_RUNNABLE \<or> p_state p = P_RUNNING \<or> p_state p = P_SLEEPING"

text \<open>A process that has not ended has not ended later, and if it can run it still can.\<close>

definition goes_on :: "proc \<Rightarrow> proc \<Rightarrow> bool" where
  "goes_on p q \<longleftrightarrow> (ready p \<longrightarrow> ready q) \<and> (alive p \<longrightarrow> alive q)"

lemmas goes_on_defs = goes_on_def ready_def alive_def

lemma goes_on_refl [simp]: "goes_on p p"
  by (simp add: goes_on_def)

lemma goes_on_trans: "goes_on p q \<Longrightarrow> goes_on q r \<Longrightarrow> goes_on p r"
  by (simp add: goes_on_def)

text \<open>Outside \<open>T\<close> the trap frames are kept; outside \<open>S\<close> the processes go on.\<close>

definition calm :: "nat set \<Rightarrow> nat set \<Rightarrow> kernel \<Rightarrow> kernel \<Rightarrow> bool" where
  "calm T S k k' \<longleftrightarrow>
     length (k_procs k') = length (k_procs k) \<and>
     (\<forall>j < length (k_procs k). (j \<notin> T \<longrightarrow> p_tf (proc_at k' j) = p_tf (proc_at k j)) \<and>
        (j \<notin> S \<longrightarrow> goes_on (proc_at k j) (proc_at k' j)))"

lemma calm_procs: "k_procs k' = k_procs k \<Longrightarrow> calm T S k k'"
  by (simp add: calm_def)

lemma calm_trans: "calm T S k k1 \<Longrightarrow> calm T S k1 k2 \<Longrightarrow> calm T S k k2"
  unfolding calm_def using goes_on_trans by auto

lemma calm_mono: "calm T S k k' \<Longrightarrow> T \<subseteq> T' \<Longrightarrow> S \<subseteq> S' \<Longrightarrow> calm T' S' k k'"
  unfolding calm_def by blast

lemma calm_set_proc:
  assumes "i < length (k_procs k) \<Longrightarrow> i \<in> T \<or> p_tf (f (proc_at k i)) = p_tf (proc_at k i)"
    and "i < length (k_procs k) \<Longrightarrow> i \<in> S \<or> goes_on (proc_at k i) (f (proc_at k i))"
  shows "calm T S k (set_proc i f k)"
proof (cases "i < length (k_procs k)")
  case True
  then show ?thesis using assms by (auto simp: calm_def set_proc_at)
next
  case False
  then show ?thesis by (intro calm_procs) (simp add: set_proc_def list_update_beyond)
qed

lemma calm_update:
  "calm T S k (k'\<lparr>k_current := x\<rparr>) = calm T S k k'" "calm T S k (k'\<lparr>k_vm := v\<rparr>) = calm T S k k'" "calm T S k (k'\<lparr>k_satp := s\<rparr>) = calm T S k k'"
  "calm T S k (k'\<lparr>k_stvec := y\<rparr>) = calm T S k k'" "calm T S k (k'\<lparr>k_uart := u\<rparr>) = calm T S k k'" "calm T S k (k'\<lparr>k_last_slot := l\<rparr>) = calm T S k k'"
  "calm T S k (k'\<lparr>k_ticks := t\<rparr>) = calm T S k k'" "calm T S k (k'\<lparr>k_next_pid := n\<rparr>) = calm T S k k'"
  by (simp_all add: calm_def)

lemma calm_refl [simp]: "calm T S k k"
  by (simp add: calm_def)

lemma calm_schedule: "calm T S k (snd (proc_schedule k))"
proof (cases "find (\<lambda>i. p_state (proc_at k i) = P_RUNNABLE) (schedule_order (schedule_start k))")
  case (Some i)
  have "calm T S (k\<lparr>k_last_slot := int i\<rparr>) (set_proc i (\<lambda>p. p\<lparr>p_state := P_RUNNING\<rparr>) (k\<lparr>k_last_slot := int i\<rparr>))"
    by (rule calm_set_proc) (simp_all add: goes_on_defs)
  then show ?thesis using Some by (simp add: proc_schedule_def calm_def)
qed (simp add: proc_schedule_def)

lemma calm_reschedule: "calm T S k k' \<Longrightarrow> calm T S k (reschedule k')"
  using calm_trans [OF _ calm_schedule [of T S k']] by (cases "proc_schedule k'") (simp add: reschedule_def calm_update)

lemma calm_tick: "calm T S k (timer_tick k)"
  by (auto simp: calm_def tick_defs goes_on_defs wake_def)

lemma calm_release:
  assumes "destroy_pagetable M i k = Done k'" "i \<in> S \<or> \<not> alive (proc_at k i)"
  shows "calm T S k (free_slot i k')"
proof -
  obtain v where k': "k' = set_proc i (\<lambda>p. p\<lparr>p_pagetable := 0\<rparr>) (k\<lparr>k_vm := v\<rparr>)"
    using assms(1) by (auto simp: destroy_pagetable_def run_bind_Done)
  have "calm T S k (k\<lparr>k_vm := v\<rparr>)" by (rule calm_procs) simp
  moreover have "calm T S (k\<lparr>k_vm := v\<rparr>) k'" unfolding k' by (rule calm_set_proc) (simp_all add: goes_on_defs)
  moreover have "calm T S k' (free_slot i k')"
    unfolding free_slot_def by (rule calm_set_proc) (use assms(2) k' in \<open>auto simp: goes_on_defs set_proc_def\<close>)
  ultimately show ?thesis using calm_trans by blast
qed

lemma calm_kernel_pt: "switch_to_kernel_pt M k = Done k' \<Longrightarrow> k_procs k' = k_procs k"
  by (auto simp: switch_to_kernel_pt_def run_bind_Done vm_switch_def split: if_splits)

section \<open>What a system call changes\<close>

text \<open>The parent that waits for the process that exits.\<close>

definition woken :: "nat \<Rightarrow> kernel \<Rightarrow> nat \<Rightarrow> bool" where
  "woken c k q \<longleftrightarrow> p_parent (proc_at k c) = Some q \<and> waiting (proc_at k q)"

text \<open>The frame of a woken parent: its call to wait returns the id of the child.\<close>

definition woken_frame :: "nat \<Rightarrow> kernel \<Rightarrow> nat \<Rightarrow> trapframe" where
  "woken_frame c k q = set_reg 10 (of_int (p_pid (proc_at k c))) (p_tf (proc_at k q))"

text \<open>The frame of a child: that of its parent with result 0 and the kernel stack of its own slot.\<close>

definition child_frame :: "machine \<Rightarrow> nat \<Rightarrow> trapframe \<Rightarrow> trapframe" where
  "child_frame M i tf = set_reg 10 0 (tf\<lparr>tf_kernel_sp := kstack_top M i\<rparr>)"

definition changes :: "machine \<Rightarrow> trapframe \<Rightarrow> nat \<Rightarrow> kernel \<Rightarrow> kernel \<Rightarrow> bool" where
  "changes M tf c k k' \<longleftrightarrow>
     calm ({i. \<not> live k i} \<union> {q. woken c k q}) {c} k k' \<and>
     (\<forall>i < NPROC. \<not> live k i \<longrightarrow> p_tf (proc_at k' i) = p_tf (proc_at k i) \<or> p_tf (proc_at k' i) = child_frame M i tf) \<and>
     (\<forall>q < NPROC. woken c k q \<longrightarrow> p_tf (proc_at k' q) = p_tf (proc_at k q) \<or> p_tf (proc_at k' q) = woken_frame c k q)"

lemma changes_calm: "calm {} {c} k k' \<Longrightarrow> length (k_procs k) = NPROC \<Longrightarrow> changes M tf c k k'"
  unfolding changes_def using calm_mono [of "{}" "{c}" k k'] by (auto simp: calm_def)

lemma changes_procs: "k_procs k' = k_procs k \<Longrightarrow> changes M tf c k k'"
  by (simp add: changes_def calm_procs)

lemma proc_fork_changes:
  assumes "proc_fork M tf k = Done (ret, k')" "k_current k = Some c" "length (k_procs k) = NPROC"
  shows "changes M tf c k k'"
proof (cases "unused_slot k")
  case None
  then show ?thesis using assms(1,2) by (simp add: proc_fork_def changes_procs)
next
  case (Some i)
  then have i: "i < NPROC" "\<not> live k i" using first_index_SomeD assms(3) unfolding unused_slot_def by fastforce+
  then have na: "goes_on (proc_at k i) p" for p by (simp add: goes_on_defs)
  obtain p where p: "k_procs k' = (k_procs k)[i := p]" "p_tf p = p_tf (proc_at k i) \<or> p_tf p = child_frame M i tf"
    using assms Some i by (auto simp: proc_fork_def claim_slot_def set_proc_def run_bind_Done Let_def child_frame_def split: if_splits)
  have "calm {i} {c} k k'" using i na assms(3) p(1) by (auto simp: calm_def nth_list_update)
  then have "calm ({i. \<not> live k i} \<union> {q. woken c k q}) {c} k k'" by (rule calm_mono) (use i in auto)
  moreover have "\<not> woken c k i" using i by (simp add: woken_def waiting_def)
  ultimately show ?thesis unfolding changes_def using p assms(3) i by (auto simp: nth_list_update)
qed

lemma proc_exit_changes:
  assumes "proc_exit M status k = Done k'" "k_current k = Some c" "length (k_procs k) = NPROC" "c < NPROC" "p_state (proc_at k c) = P_RUNNING"
  shows "changes M tf c k k'"
proof -
  let ?k1 = "set_proc c (\<lambda>p. p\<lparr>p_exit_status := status\<rparr>) k"
  have at: "proc_at ?k1 j = (if j = c then (proc_at k c)\<lparr>p_exit_status := status\<rparr> else proc_at k j)" for j
    using assms(3,4) by (simp add: set_proc_at)
  have k1: "calm T {c} k ?k1" for T by (rule calm_set_proc) simp_all
  have release: "calm T {c} k3 (reschedule (free_slot c k5))"
    if "switch_to_kernel_pt M k3 = Done k4" "destroy_pagetable M c k4 = Done k5" for k3 k4 k5 T
  proof -
    have "calm T {c} k3 k4" using calm_kernel_pt [OF that(1)] by (rule calm_procs)
    then show ?thesis using calm_release [OF that(2), of "{c}" T] calm_reschedule calm_trans by (metis insertI1)
  qed
  show ?thesis
  proof (cases "p_parent (proc_at k c)")
    case None
    then obtain k2 k3 where "switch_to_kernel_pt M ?k1 = Done k2" "destroy_pagetable M c k2 = Done k3" "k' = reschedule (free_slot c k3)"
      using assms(1,2) at by (auto simp: proc_exit_def run_bind_Done Let_def)
    then have "calm {} {c} k k'" using calm_trans [OF k1 release] by blast
    then show ?thesis using changes_calm assms(3) by blast
  next
    case (Some q)
    show ?thesis
    proof (cases "waiting (proc_at k q)")
      case True
      then have qc: "q \<noteq> c" using assms(5) by (auto simp: waiting_def)
      let ?k2 = "set_proc q (\<lambda>r. r\<lparr>p_tf := set_reg 10 (of_int (p_pid (proc_at ?k1 c))) (p_tf r), p_state := P_RUNNABLE\<rparr>) ?k1"
      obtain k3 k4 where k: "switch_to_kernel_pt M ?k2 = Done k3" "destroy_pagetable M c k3 = Done k4" "k' = reschedule (free_slot c k4)"
        using assms(1,2) at Some True qc by (auto simp: proc_exit_def run_bind_Done Let_def)
      have w: "woken c k q" using Some True by (simp add: woken_def)
      have "calm {q} {c} ?k1 ?k2" by (rule calm_set_proc) (simp_all add: goes_on_defs)
      then have c2: "calm {q} {c} k ?k2" using calm_trans [OF k1] by blast
      note r = release [OF k(1,2)]
      have "calm {q} {c} k k'" using calm_trans [OF c2] r k(3) by blast
      then have "calm ({i. \<not> live k i} \<union> {q. woken c k q}) {c} k k'" by (rule calm_mono) (use w in auto)
      moreover have "p_tf (proc_at k' q) = woken_frame c k q" if "q < NPROC"
      proof -
        have "p_tf (proc_at k' q) = p_tf (proc_at ?k2 q)" using r [of "{}"] k(3) that assms(3) by (simp add: calm_def)
        then show ?thesis using that qc at assms(3) by (simp add: set_proc_at woken_frame_def)
      qed
      moreover have "p_tf (proc_at k' i) = p_tf (proc_at k i)" if "i < NPROC" "\<not> live k i" for i
        using \<open>calm {q} {c} k k'\<close> True that assms(3) by (auto simp: calm_def waiting_def)
      moreover have "q' = q" if "woken c k q'" for q' using that Some by (simp add: woken_def)
      ultimately show ?thesis unfolding changes_def by blast
    next
      case False
      then have "\<not> waiting (proc_at ?k1 q)" using at assms(5) by (simp add: waiting_def)
      then have k': "k' = reschedule (set_proc c (\<lambda>p. p\<lparr>p_state := P_ZOMBIE\<rparr>) ?k1)"
        using assms(1,2) Some at by (simp add: proc_exit_def Let_def)
      have "calm {} {c} ?k1 (set_proc c (\<lambda>p. p\<lparr>p_state := P_ZOMBIE\<rparr>) ?k1)" by (rule calm_set_proc) simp_all
      then have "calm {} {c} k k'" using calm_trans [OF k1] calm_reschedule k' by blast
      then show ?thesis using changes_calm assms(3) by blast
    qed
  qed
qed

lemma proc_wait_changes:
  assumes "proc_wait M k = Done (r, k')" "k_current k = Some c" "length (k_procs k) = NPROC"
  shows "changes M tf c k k'"
proof (cases "first_index (zombie_of c) (k_procs k)")
  case (Some i)
  then have i: "\<not> alive (proc_at k i)" using first_index_SomeD [OF Some] by (simp add: zombie_of_def alive_def)
  obtain k1 where k1: "destroy_pagetable M i k = Done k1" "k' = free_slot i k1"
    using assms(1,2) Some by (auto simp: proc_wait_def run_bind_Done Let_def)
  have "calm {} {c} k (free_slot i k1)" using calm_release [OF k1(1)] i by blast
  then show ?thesis using changes_calm assms(3) k1(2) by blast
next
  case None
  have "calm {} {c} k (set_proc c (\<lambda>p. p\<lparr>p_state := P_SLEEPING\<rparr>) k)" by (rule calm_set_proc) simp_all
  then have "changes M tf c k (reschedule (set_proc c (\<lambda>p. p\<lparr>p_state := P_SLEEPING\<rparr>) k))"
    using changes_calm [OF calm_reschedule] assms(3) by blast
  then show ?thesis using assms(1,2) None by (auto simp: proc_wait_def changes_procs split: if_splits)
qed

lemma proc_sleep_changes:
  assumes "k_current k = Some c" "length (k_procs k) = NPROC"
  shows "changes M tf c k (proc_sleep n k)"
proof -
  have "calm {} {c} k (set_proc c (\<lambda>p. p\<lparr>p_wake_tick := timer_now k + n, p_state := P_SLEEPING\<rparr>) k)"
    by (rule calm_set_proc) simp_all
  then show ?thesis using changes_calm [OF calm_reschedule] assms by (simp add: proc_sleep_def changes_procs)
qed

lemma of_uart_procs: "of_uart u k = Done k' \<Longrightarrow> k_procs k' = k_procs k"
  by (auto simp: of_uart_def split: option.splits)

lemma read_loop_procs: "read_loop M pt uva i n k = Done (r, k') \<Longrightarrow> k_procs k' = k_procs k"
proof (induction n arbitrary: i k)
  case (Suc n)
  obtain ch u where g: "uart_getc (k_uart k) = Some (ch, u)" using Suc.prems by (cases "uart_getc (k_uart k)") auto
  then obtain rc v where v: "copyout (m_layout M) pt (uva + of_nat i) [char_byte ch] (k_vm k) = Inr (rc, v)"
    using Suc.prems by (cases "copyout (m_layout M) pt (uva + of_nat i) [char_byte ch] (k_vm k)") auto
  show ?case using Suc.prems g v Suc.IH [of "Suc i" "k\<lparr>k_uart := u, k_vm := v\<rparr>"] by (auto simp: Let_def split: if_splits)
qed simp

lemma console_procs:
  "sys_read M tf k = Done (r, k') \<Longrightarrow> k_procs k' = k_procs k" "sys_write M tf k = Done (r, k') \<Longrightarrow> k_procs k' = k_procs k"
  "sys_ps k = Done (r, k') \<Longrightarrow> k_procs k' = k_procs k" "sys_ls k = Done (r, k') \<Longrightarrow> k_procs k' = k_procs k"
  "sys_cat M tf k = Done (r, k') \<Longrightarrow> k_procs k' = k_procs k"
proof -
  show "sys_read M tf k = Done (r, k') \<Longrightarrow> k_procs k' = k_procs k"
    by (auto simp: sys_read_def run_bind_Done Let_def dest: read_loop_procs split: if_splits)
  show "sys_write M tf k = Done (r, k') \<Longrightarrow> k_procs k' = k_procs k"
    by (auto simp: sys_write_def run_bind_Done Let_def dest: of_uart_procs split: option.splits)
  show "sys_ps k = Done (r, k') \<Longrightarrow> k_procs k' = k_procs k" "sys_ls k = Done (r, k') \<Longrightarrow> k_procs k' = k_procs k"
    by (auto simp: sys_ps_def sys_ls_def run_bind_Done dest: of_uart_procs)
  show "sys_cat M tf k = Done (r, k') \<Longrightarrow> k_procs k' = k_procs k"
    by (auto simp: sys_cat_def run_bind_Done case_prod_beta dest: of_uart_procs split: option.splits)
qed

lemma do_syscall_changes:
  assumes "do_syscall M tf k = Done (ret, k')" "k_current k = Some c" "length (k_procs k) = NPROC" "c < NPROC" "p_state (proc_at k c) = P_RUNNING"
  shows "changes M tf c k k'"
proof -
  note call = proc_fork_changes [OF _ assms(2,3)] proc_exit_changes [OF _ assms(2-5)] proc_wait_changes [OF _ assms(2,3)]
    proc_sleep_changes [OF assms(2,3)] changes_procs console_procs
  show ?thesis
    using assms(1) unfolding do_syscall_def Let_def sys_fork_def sys_wait_def sys_sleep_def
    by (auto simp: run_bind_Done changes_procs split: if_splits intro: call dest: console_procs)
qed

section \<open>What a trap changes\<close>

lemma calm_timer_trap: "calm T {} k (timer_trap k)"
proof -
  have t: "calm T {} k (timer_tick k)" by (rule calm_tick)
  have s: "calm T {} k (snd (proc_schedule (set_proc c (\<lambda>p. p\<lparr>p_state := P_RUNNABLE\<rparr>) (timer_tick k))))"
    if "p_state (proc_at (timer_tick k) c) = P_RUNNING" for c
  proof -
    have "calm T {} (timer_tick k) (set_proc c (\<lambda>p. p\<lparr>p_state := P_RUNNABLE\<rparr>) (timer_tick k))" by (rule calm_set_proc) (simp_all add: goes_on_defs)
    then show ?thesis using calm_trans [OF t] calm_trans calm_schedule by blast
  qed
  show ?thesis
    using t s by (auto simp: timer_trap_def Let_def calm_update split: option.splits prod.splits) (metis snd_conv)+
qed

lemma calm_idle_wait: "idle_wait n k = Done k' \<Longrightarrow> calm T {} k k'"
proof (induction n arbitrary: k)
  case (Suc n)
  have "calm T {} k (reschedule (timer_tick k))" by (rule calm_reschedule [OF calm_tick])
  then show ?case using Suc calm_trans by (fastforce split: if_splits)
qed (auto split: if_splits)

lemma calm_resume:
  assumes "resume M k = Done (t, k')"
  shows "calm T {} k k'"
proof -
  have sw: "calm T {} k1 k2" if sw1: "switch_to M p k1 = Done k2" for p k1 k2
  proof (cases p)
    case None
    then show ?thesis using sw1 calm_kernel_pt by (auto simp: switch_to_def run_bind_Done calm_update intro: calm_procs)
  next
    case (Some i)
    have "calm T {} k1 (set_proc i (\<lambda>p. p\<lparr>p_state := P_RUNNING\<rparr>) k1)" by (rule calm_set_proc) (simp_all add: goes_on_defs)
    then show ?thesis using sw1 Some by (auto simp: switch_to_def vm_switch_def Let_def calm_update split: if_splits)
  qed
  have "calm T {} k (case proc_schedule k of (None, k1) \<Rightarrow> k1 | (Some i, k1) \<Rightarrow> k1\<lparr>k_current := Some i\<rparr>)"
    using calm_schedule [of T "{}" k] by (auto simp: calm_update split: prod.splits option.splits)
  then show ?thesis
    using assms sw calm_trans unfolding resume_def Let_def
    by (auto simp: run_bind_Done split: option.splits if_splits)
qed

lemma bad_trap_changes:
  assumes "bad_trap M tf k = Done k'" "k_current k = Some c" "length (k_procs k) = NPROC" "c < NPROC" "p_state (proc_at k c) = P_RUNNING"
  shows "changes M g c k k'"
proof -
  obtain u k1 where k1: "of_uart u k = Done k1" "proc_exit M (-1) k1 = Done k'" using assms(1) by (auto simp: bad_trap_def run_bind_Done)
  then have e: "k_procs k1 = k_procs k" "k_current k1 = k_current k" by (auto simp: of_uart_def split: option.splits)
  have "changes M g c k1 k'" by (rule proc_exit_changes [OF k1(2)]) (use e assms in simp_all)
  then show ?thesis by (simp add: changes_def calm_def woken_def woken_frame_def e)
qed

text \<open>
  The frames in \<open>k'\<close> after a step of the process of slot \<open>c\<close> in \<open>k\<close>, whose own frame is then \<open>f\<close>: a process that
  lives has kept its frame or was waiting for this one, a free slot may have got a child, and the other processes go on.
\<close>

definition leaves :: "machine \<Rightarrow> trapframe \<Rightarrow> nat \<Rightarrow> kernel \<Rightarrow> trapframe \<Rightarrow> kernel \<Rightarrow> bool" where
  "leaves M g c k f k' \<longleftrightarrow>
     length (k_procs k') = NPROC \<and> p_tf (proc_at k' c) = f \<and>
     (\<forall>j < NPROC. j \<noteq> c \<longrightarrow>
        (live k j \<longrightarrow> p_tf (proc_at k' j) = p_tf (proc_at k j) \<or> woken c k j \<and> p_tf (proc_at k' j) = woken_frame c k j) \<and>
        (\<not> live k j \<longrightarrow> p_tf (proc_at k' j) = p_tf (proc_at k j) \<or> p_tf (proc_at k' j) = child_frame M j g) \<and>
        goes_on (proc_at k j) (proc_at k' j))"

text \<open>The state after the frame of the process that trapped is stored.\<close>

definition with_frame :: "nat \<Rightarrow> trapframe \<Rightarrow> kernel \<Rightarrow> kernel" where
  "with_frame c f k = set_proc c (\<lambda>p. p\<lparr>p_tf := f\<rparr>) k"

lemma with_frame_at:
  assumes "length (k_procs k) = NPROC" "c < NPROC"
  shows "proc_at (with_frame c f k) j = (if j = c then (proc_at k c)\<lparr>p_tf := f\<rparr> else proc_at k j)"
    "length (k_procs (with_frame c f k)) = NPROC" "k_current (with_frame c f k) = k_current k"
  using assms by (simp_all add: with_frame_def set_proc_at)

lemma changes_leaves:
  assumes "changes M g c (with_frame c f k) k'" "length (k_procs k) = NPROC" "c < NPROC" "p_state (proc_at k c) = P_RUNNING"
  shows "leaves M g c k f k'"
proof -
  note at = with_frame_at [OF assms(2,3)]
  have w: "woken c (with_frame c f k) j \<longleftrightarrow> woken c k j" "j \<noteq> c \<Longrightarrow> woken_frame c (with_frame c f k) j = woken_frame c k j" for j
    by (auto simp: woken_def woken_frame_def at waiting_def)
  have "\<not> woken c k c" using assms(4) by (simp add: woken_def waiting_def)
  then show ?thesis using assms unfolding changes_def calm_def leaves_def by (auto simp: w at)
qed

lemma leaves_then: "leaves M g c k f k1 \<Longrightarrow> calm {} {} k1 k2 \<Longrightarrow> c < NPROC \<Longrightarrow> leaves M g c k f k2"
  unfolding leaves_def calm_def using goes_on_trans by auto

lemma trap_split:
  assumes "good M k" "k_current k = Some c" "length (tf_regs tf) = 32" "trap_handler M rounds tf k = Done (t, k')"
  obtains k2 where "calm {} {} k2 k'"
    "(if tf_scause tf = SCAUSE_ECALL_U then syscall_dispatch M c (with_frame c (call_frame tf) k)
      else if tf_scause tf = SCAUSE_STIMER then Done (timer_trap (with_frame c tf k)) else bad_trap M tf (with_frame c tf k)) = Done k2"
proof -
  have e: "set_proc c (\<lambda>p. p\<lparr>p_tf := (p_tf p)\<lparr>tf_sepc := tf_sepc (p_tf p) + 4\<rparr>\<rparr>) (with_frame c tf k) = with_frame c (call_frame tf) k"
    using call_state_eq [OF assms(1-3)] by (simp add: with_frame_def call_state_def)
  from assms(4) obtain k2 k3 where "(if tf_scause tf = SCAUSE_ECALL_U then syscall_dispatch M c (with_frame c (call_frame tf) k)
      else if tf_scause tf = SCAUSE_STIMER then Done (timer_trap (with_frame c tf k)) else bad_trap M tf (with_frame c tf k)) = Done k2"
    "idle_wait rounds k2 = Done k3" "resume M k3 = Done (t, k')"
    unfolding trap_handler_def assms(2) option.case Let_def with_frame_def [symmetric] e run_bind_Done by blast
  then show thesis using that calm_trans [OF calm_idle_wait calm_resume] by blast
qed

text \<open>
  After a trap the frame of the process that trapped is as it was saved, or, for a system call, behind the call with a
  result in register a0.
\<close>

definition returned :: "trapframe \<Rightarrow> trapframe \<Rightarrow> bool" where
  "returned tf f \<longleftrightarrow> (if tf_scause tf = SCAUSE_ECALL_U then \<exists>ret. f = set_reg 10 ret (call_frame tf) else f = tf)"

lemma trap_leaves:
  assumes "good M k" "k_current k = Some c" "length (tf_regs tf) = 32" "trap_handler M rounds tf k = Done (t, k')"
  shows "\<exists>f. returned tf f \<and> leaves M (call_frame tf) c k f k'"
proof -
  have k: "kinv M k" "one_running k" using assms(1) by (simp_all add: good_def)
  note c = one_runningD(2,3,4) [OF k(2) assms(2)] and len = kinv_length [OF k(1)]
  note at = with_frame_at [OF len c(1)]
  have run: "p_state (proc_at (with_frame c f k) c) = P_RUNNING" for f using c(2) by (simp add: at)
  obtain k2 where k2: "calm {} {} k2 k'"
    "(if tf_scause tf = SCAUSE_ECALL_U then syscall_dispatch M c (with_frame c (call_frame tf) k)
      else if tf_scause tf = SCAUSE_STIMER then Done (timer_trap (with_frame c tf k)) else bad_trap M tf (with_frame c tf k)) = Done k2"
    by (rule trap_split [OF assms])
  have "\<exists>f. returned tf f \<and> leaves M (call_frame tf) c k f k2"
  proof (cases "tf_scause tf = SCAUSE_ECALL_U")
    case True
    then obtain ret k1 where call: "do_syscall M (call_frame tf) (with_frame c (call_frame tf) k) = Done (ret, k1)"
      "k2 = set_proc c (\<lambda>p. p\<lparr>p_tf := set_reg 10 (of_int ret) (p_tf p)\<rparr>) k1"
      using k2(2) at by (auto simp: syscall_dispatch_def run_bind_Done)
    have "changes M (call_frame tf) c (with_frame c (call_frame tf) k) k1" by (rule do_syscall_changes [OF call(1)]) (use at c run assms(2) in simp_all)
    note l = changes_leaves [OF this len c(1,2)]
    then have "leaves M (call_frame tf) c k (set_reg 10 (of_int ret) (call_frame tf)) k2"
      unfolding call(2) using c(1) by (auto simp: leaves_def set_proc_at)
    then show ?thesis using True by (auto simp: returned_def)
  next
    case False
    have "leaves M (call_frame tf) c k tf k2"
    proof (cases "tf_scause tf = SCAUSE_STIMER")
      case True
      then have "calm {} {} (with_frame c tf k) k2" using k2(2) False calm_timer_trap [of "{}" "with_frame c tf k"] by auto
      moreover have "leaves M (call_frame tf) c k tf (with_frame c tf k)" using at by (simp add: leaves_def)
      ultimately show ?thesis using leaves_then c(1) by blast
    next
      case timer: False
      then have "bad_trap M tf (with_frame c tf k) = Done k2" using k2(2) False by simp
      then have "changes M (call_frame tf) c (with_frame c tf k) k2" by (rule bad_trap_changes) (use at c run assms(2) in simp_all)
      then show ?thesis by (rule changes_leaves [OF _ len c(1,2)])
    qed
    then show ?thesis using False by (auto simp: returned_def)
  qed
  then show ?thesis using leaves_then [OF _ k2(1) c(1)] by blast
qed

end
