(* ===== verification/Nano_Asm.thy ===== *)
theory Nano_Asm
  imports Nano_Proc
begin

text \<open>
  The assembly of NanoBoot, \<^verbatim>\<open>kernel/entry.S\<close>, \<^verbatim>\<open>kernel/swtch.S\<close>, \<^verbatim>\<open>kernel/boot.S\<close> and \<^verbatim>\<open>user/syscall.S\<close>: the instructions of
  RISC-V it uses, as steps on the registers, the control registers and the memory of a hart, and the code as lists of
  instructions, in the order of the source. Memory is read and written in words of eight bytes; the
  addresses that the linker gives to symbols are a parameter.
\<close>

unbundle bit_operations_syntax

section \<open>The hart\<close>

datatype csr = Sscratch | Sepc | Sstatus | Scause | Satp | Stvec | Sie

datatype symbol = Sym_user_trap_entry | Sym_kernel_trap_entry | Sym_boot_stack_top | Sym_bss_start | Sym_bss_end

type_synonym symbols = "symbol \<Rightarrow> addr"

record hart =
  h_regs :: "nat \<Rightarrow> 64 word"
  h_csr :: "csr \<Rightarrow> 64 word"
  h_mem :: "addr \<Rightarrow> 64 word"
  h_pc :: addr
  h_user :: bool

text \<open>Register 0 is the constant 0.\<close>

definition xreg :: "hart \<Rightarrow> nat \<Rightarrow> 64 word" where
  "xreg h r = (if r = 0 then 0 else h_regs h r)"

definition set_x :: "nat \<Rightarrow> 64 word \<Rightarrow> hart \<Rightarrow> hart" where
  "set_x r v h = (if r = 0 then h else h\<lparr>h_regs := (h_regs h)(r := v)\<rparr>)"

definition set_csr :: "csr \<Rightarrow> 64 word \<Rightarrow> hart \<Rightarrow> hart" where
  "set_csr c v h = h\<lparr>h_csr := (h_csr h)(c := v)\<rparr>"

section \<open>Instructions\<close>

datatype instr =
    Sd nat "64 word" nat | Ld nat "64 word" nat | Mv nat nat | Addi nat nat "64 word" | Li nat "64 word" | La nat symbol
  | Csrrw nat csr nat | Csrr nat csr | Csrw csr nat | Csrs csr nat | Sfence_vma

fun exec1 :: "symbols \<Rightarrow> instr \<Rightarrow> hart \<Rightarrow> hart" where
  "exec1 sy (Sd rs off b) h = h\<lparr>h_mem := (h_mem h)(xreg h b + off := xreg h rs)\<rparr>"
| "exec1 sy (Ld rd off b) h = set_x rd (h_mem h (xreg h b + off)) h"
| "exec1 sy (Mv rd rs) h = set_x rd (xreg h rs) h"
| "exec1 sy (Addi rd rs v) h = set_x rd (xreg h rs + v) h"
| "exec1 sy (Li rd v) h = set_x rd v h"
| "exec1 sy (La rd s) h = set_x rd (sy s) h"
| "exec1 sy (Csrrw rd c rs) h = set_x rd (h_csr h c) (set_csr c (xreg h rs) h)"
| "exec1 sy (Csrr rd c) h = set_x rd (h_csr h c) h"
| "exec1 sy (Csrw c rs) h = set_csr c (xreg h rs) h"
| "exec1 sy (Csrs c rs) h = set_csr c (h_csr h c OR xreg h rs) h"
| "exec1 sy Sfence_vma h = h"

text \<open>Straight-line code.\<close>

fun exec :: "symbols \<Rightarrow> instr list \<Rightarrow> hart \<Rightarrow> hart" where
  "exec sy [] h = h"
| "exec sy (i # is) h = exec sy is (exec1 sy i h)"

lemma exec_append: "exec sy (is @ js) h = exec sy js (exec sy is h)"
  by (induction "is" arbitrary: h) simp_all

section \<open>Traps\<close>

text \<open>
  What the hardware does on a trap to supervisor mode and on \<^verbatim>\<open>sret\<close>, on the bits SIE (1), SPIE (5) and SPP (8) of
  sstatus.
\<close>

definition put_bit :: "nat \<Rightarrow> bool \<Rightarrow> 64 word \<Rightarrow> 64 word" where
  "put_bit n b w = (if b then set_bit n w else unset_bit n w)"

definition take_trap :: "64 word \<Rightarrow> hart \<Rightarrow> hart" where
  "take_trap cause h =
     (let s = h_csr h Sstatus in
      h\<lparr>h_csr := (h_csr h)(Scause := cause, Sepc := h_pc h,
          Sstatus := put_bit 8 (\<not> h_user h) (put_bit 5 (bit s 1) (put_bit 1 False s))),
        h_pc := h_csr h Stvec, h_user := False\<rparr>)"

definition sret :: "hart \<Rightarrow> hart" where
  "sret h =
     (let s = h_csr h Sstatus in
      h\<lparr>h_csr := (h_csr h)(Sstatus := put_bit 8 False (put_bit 5 True (put_bit 1 (bit s 5) s))),
        h_pc := h_csr h Sepc, h_user := \<not> bit s 8\<rparr>)"

section \<open>entry.S\<close>

abbreviation (input) x_zero :: nat where "x_zero \<equiv> 0"
abbreviation (input) x_ra :: nat where "x_ra \<equiv> 1"
abbreviation (input) x_sp :: nat where "x_sp \<equiv> 2"
abbreviation (input) x_gp :: nat where "x_gp \<equiv> 3"
abbreviation (input) x_tp :: nat where "x_tp \<equiv> 4"
abbreviation (input) x_t0 :: nat where "x_t0 \<equiv> 5"
abbreviation (input) x_t1 :: nat where "x_t1 \<equiv> 6"
abbreviation (input) x_t2 :: nat where "x_t2 \<equiv> 7"
abbreviation (input) x_s0 :: nat where "x_s0 \<equiv> 8"
abbreviation (input) x_s1 :: nat where "x_s1 \<equiv> 9"
abbreviation (input) x_a0 :: nat where "x_a0 \<equiv> 10"
abbreviation (input) x_a1 :: nat where "x_a1 \<equiv> 11"
abbreviation (input) x_a2 :: nat where "x_a2 \<equiv> 12"
abbreviation (input) x_a3 :: nat where "x_a3 \<equiv> 13"
abbreviation (input) x_a4 :: nat where "x_a4 \<equiv> 14"
abbreviation (input) x_a5 :: nat where "x_a5 \<equiv> 15"
abbreviation (input) x_a6 :: nat where "x_a6 \<equiv> 16"
abbreviation (input) x_a7 :: nat where "x_a7 \<equiv> 17"
abbreviation (input) x_s2 :: nat where "x_s2 \<equiv> 18"
abbreviation (input) x_s3 :: nat where "x_s3 \<equiv> 19"
abbreviation (input) x_s4 :: nat where "x_s4 \<equiv> 20"
abbreviation (input) x_s5 :: nat where "x_s5 \<equiv> 21"
abbreviation (input) x_s6 :: nat where "x_s6 \<equiv> 22"
abbreviation (input) x_s7 :: nat where "x_s7 \<equiv> 23"
abbreviation (input) x_s8 :: nat where "x_s8 \<equiv> 24"
abbreviation (input) x_s9 :: nat where "x_s9 \<equiv> 25"
abbreviation (input) x_s10 :: nat where "x_s10 \<equiv> 26"
abbreviation (input) x_s11 :: nat where "x_s11 \<equiv> 27"
abbreviation (input) x_t3 :: nat where "x_t3 \<equiv> 28"
abbreviation (input) x_t4 :: nat where "x_t4 \<equiv> 29"
abbreviation (input) x_t5 :: nat where "x_t5 \<equiv> 30"
abbreviation (input) x_t6 :: nat where "x_t6 \<equiv> 31"

text \<open>\<^verbatim>\<open>user_trap_entry\<close> up to the call of \<^verbatim>\<open>trap_handler\<close>.\<close>

definition save_registers :: "instr list" where
  "save_registers =
     [Sd x_zero 0 x_a0, Sd x_ra 8 x_a0, Sd x_sp 16 x_a0, Sd x_gp 24 x_a0, Sd x_tp 32 x_a0, Sd x_t0 40 x_a0,
      Sd x_t1 48 x_a0, Sd x_t2 56 x_a0, Sd x_s0 64 x_a0, Sd x_s1 72 x_a0, Sd x_a1 88 x_a0, Sd x_a2 96 x_a0,
      Sd x_a3 104 x_a0, Sd x_a4 112 x_a0, Sd x_a5 120 x_a0, Sd x_a6 128 x_a0, Sd x_a7 136 x_a0, Sd x_s2 144 x_a0,
      Sd x_s3 152 x_a0, Sd x_s4 160 x_a0, Sd x_s5 168 x_a0, Sd x_s6 176 x_a0, Sd x_s7 184 x_a0, Sd x_s8 192 x_a0,
      Sd x_s9 200 x_a0, Sd x_s10 208 x_a0, Sd x_s11 216 x_a0, Sd x_t3 224 x_a0, Sd x_t4 232 x_a0, Sd x_t5 240 x_a0,
      Sd x_t6 248 x_a0]"

definition user_trap_entry_code :: "instr list" where
  "user_trap_entry_code =
     [Csrrw x_a0 Sscratch x_a0] @ save_registers @
     [Ld x_a1 280 x_a0, Mv x_sp x_a1, Csrr x_t0 Sscratch, Sd x_t0 80 x_a0, Csrr x_t0 Sepc, Sd x_t0 256 x_a0,
      Csrr x_t0 Sstatus, Sd x_t0 264 x_a0, Csrr x_t0 Scause, Sd x_t0 272 x_a0]"

text \<open>\<^verbatim>\<open>restore_user_or_idle\<close>, before \<^verbatim>\<open>sret\<close>.\<close>

definition restore_registers :: "instr list" where
  "restore_registers =
     [Ld x_ra 8 x_t6, Ld x_sp 16 x_t6, Ld x_gp 24 x_t6, Ld x_tp 32 x_t6, Ld x_t0 40 x_t6, Ld x_t1 48 x_t6,
      Ld x_t2 56 x_t6, Ld x_s0 64 x_t6, Ld x_s1 72 x_t6, Ld x_a0 80 x_t6, Ld x_a1 88 x_t6, Ld x_a2 96 x_t6,
      Ld x_a3 104 x_t6, Ld x_a4 112 x_t6, Ld x_a5 120 x_t6, Ld x_a6 128 x_t6, Ld x_a7 136 x_t6, Ld x_s2 144 x_t6,
      Ld x_s3 152 x_t6, Ld x_s4 160 x_t6, Ld x_s5 168 x_t6, Ld x_s6 176 x_t6, Ld x_s7 184 x_t6, Ld x_s8 192 x_t6,
      Ld x_s9 200 x_t6, Ld x_s10 208 x_t6, Ld x_s11 216 x_t6, Ld x_t3 224 x_t6, Ld x_t4 232 x_t6, Ld x_t5 240 x_t6,
      Ld x_t6 248 x_t6]"

definition restore_code :: "instr list" where
  "restore_code =
     [Mv x_t6 x_a0, Ld x_t0 256 x_t6, Csrw Sepc x_t0, Ld x_t0 264 x_t6, Csrw Sstatus x_t0, Csrw Sscratch x_t6] @
     restore_registers"

definition restore_user_or_idle :: "symbols \<Rightarrow> hart \<Rightarrow> hart" where
  "restore_user_or_idle sy h = sret (exec sy restore_code h)"

definition enter_user_code :: "instr list" where
  "enter_user_code =
     [Mv x_t6 x_a0, Csrw Satp x_a1, Sfence_vma, La x_t0 Sym_user_trap_entry, Csrw Stvec x_t0, Csrw Sscratch x_t6,
      Ld x_t0 256 x_t6, Csrw Sepc x_t0, Ld x_t0 264 x_t6, Csrw Sstatus x_t0]"

definition enter_user_asm :: "symbols \<Rightarrow> hart \<Rightarrow> hart" where
  "enter_user_asm sy h = restore_user_or_idle sy (exec sy enter_user_code h)"

text \<open>
  \<^verbatim>\<open>kernel_trap_entry\<close>; the calls of \<^verbatim>\<open>kernel_trap_handler\<close> and \<^verbatim>\<open>idle_trapframe_ptr\<close> are what the C functions do to the hart.
\<close>

definition kernel_trap_save :: "instr list" where
  "kernel_trap_save =
     [Addi x_sp x_sp (- 64), Sd x_ra 0 x_sp, Sd x_t0 8 x_sp, Sd x_t1 16 x_sp, Sd x_a0 24 x_sp, Sd x_a1 32 x_sp,
      Sd x_a2 40 x_sp, Sd x_a3 48 x_sp, Sd x_a4 56 x_sp, Csrr x_a0 Scause]"

definition kernel_trap_load :: "instr list" where
  "kernel_trap_load =
     [Ld x_ra 0 x_sp, Ld x_t0 8 x_sp, Ld x_t1 16 x_sp, Ld x_a1 32 x_sp, Ld x_a2 40 x_sp, Ld x_a3 48 x_sp, Ld x_a4 56 x_sp,
      Addi x_sp x_sp 64]"

definition kernel_trap_entry_asm :: "symbols \<Rightarrow> (hart \<Rightarrow> hart) \<Rightarrow> (hart \<Rightarrow> hart) \<Rightarrow> hart \<Rightarrow> hart" where
  "kernel_trap_entry_asm sy handler idle_ptr h =
     (let h1 = exec sy kernel_trap_load (handler (exec sy kernel_trap_save h)) in
      restore_user_or_idle sy (if xreg h1 x_a0 = 0 then idle_ptr h1 else h1))"

text \<open>\<^verbatim>\<open>idle_loop\<close> before its endless wait for an interrupt.\<close>

definition idle_loop_code :: "instr list" where
  "idle_loop_code = [La x_t0 Sym_kernel_trap_entry, Csrw Stvec x_t0, Csrw Sscratch x_zero, Li x_t0 0x20, Csrs Sie x_t0]"

section \<open>swtch.S\<close>

record context_t =
  ctx_ra :: "64 word"
  ctx_sp :: "64 word"
  ctx_s :: "64 word list"

definition swtch_save :: "instr list" where
  "swtch_save =
     [Sd x_ra 0 x_a0, Sd x_sp 8 x_a0, Sd x_s0 16 x_a0, Sd x_s1 24 x_a0, Sd x_s2 32 x_a0, Sd x_s3 40 x_a0, Sd x_s4 48 x_a0,
      Sd x_s5 56 x_a0, Sd x_s6 64 x_a0, Sd x_s7 72 x_a0, Sd x_s8 80 x_a0, Sd x_s9 88 x_a0, Sd x_s10 96 x_a0, Sd x_s11 104 x_a0]"

definition swtch_load :: "instr list" where
  "swtch_load =
     [Ld x_ra 0 x_a1, Ld x_sp 8 x_a1, Ld x_s0 16 x_a1, Ld x_s1 24 x_a1, Ld x_s2 32 x_a1, Ld x_s3 40 x_a1, Ld x_s4 48 x_a1,
      Ld x_s5 56 x_a1, Ld x_s6 64 x_a1, Ld x_s7 72 x_a1, Ld x_s8 80 x_a1, Ld x_s9 88 x_a1, Ld x_s10 96 x_a1, Ld x_s11 104 x_a1]"

text \<open>\<^verbatim>\<open>ret\<close> jumps to the address in ra.\<close>

definition ret :: "hart \<Rightarrow> hart" where
  "ret h = h\<lparr>h_pc := xreg h x_ra\<rparr>"

definition swtch :: "symbols \<Rightarrow> hart \<Rightarrow> hart" where
  "swtch sy h = ret (exec sy swtch_load (exec sy swtch_save h))"

section \<open>boot.S\<close>

definition boot_code :: "instr list" where
  "boot_code = [La x_sp Sym_boot_stack_top, Csrw Satp x_zero, Sfence_vma, La x_t0 Sym_bss_start, La x_t1 Sym_bss_end]"

text \<open>The loop that clears the memory of uninitialised variables; \<open>None\<close> if it never ends.\<close>

partial_function (option) clear_bss :: "symbols \<Rightarrow> hart \<Rightarrow> hart option" where
  "clear_bss sy h =
     (if xreg h x_t0 \<ge> xreg h x_t1 then Some h else clear_bss sy (exec sy [Sd x_zero 0 x_t0, Addi x_t0 x_t0 8] h))"

text \<open>\<^verbatim>\<open>_start\<close> up to the call of \<^verbatim>\<open>main\<close>.\<close>

definition boot_start :: "symbols \<Rightarrow> hart \<Rightarrow> hart option" where
  "boot_start sy h = clear_bss sy (exec sy boot_code h)"

section \<open>syscall.S\<close>

text \<open>The body of a stub: the number, and then \<^verbatim>\<open>ecall\<close>, which traps at the address \<open>at\<close>.\<close>

definition stub_call :: "symbols \<Rightarrow> 64 word \<Rightarrow> addr \<Rightarrow> hart \<Rightarrow> hart" where
  "stub_call sy num at h = (exec sy [Li x_a7 num] h)\<lparr>h_pc := at\<rparr>"

definition syscall_stubs :: "(string \<times> 64 word) list" where
  "syscall_stubs =
     [(''sys_read'', 0), (''sys_write'', 1), (''sys_fork'', 2), (''sys_exit'', 3), (''sys_wait'', 4), (''sys_getpid'', 5),
      (''sys_sleep'', 6), (''sys_ps'', 7), (''sys_ls'', 8), (''sys_cat'', 9)]"

section \<open>Frames in memory\<close>

text \<open>The trap frame at an address.\<close>

definition frame_at :: "addr \<Rightarrow> (addr \<Rightarrow> 64 word) \<Rightarrow> trapframe" where
  "frame_at a m =
     \<lparr>tf_regs = map (\<lambda>i. m (a + of_nat (8 * i))) [0..<32], tf_sepc = m (a + 256), tf_sstatus = m (a + 264),
      tf_scause = m (a + 272), tf_kernel_sp = m (a + 280)\<rparr>"

lemma upt_32: "[0..<32] = [0, 1, 2, 3, 4, 5, 6, 7, 8, 9, 10, 11, 12, 13, 14, 15, 16, 17, 18, 19, 20, 21, 22, 23, 24, 25, 26, 27, 28, 29, 30, 31]"
  by (simp add: upt_rec)

lemmas step_defs = xreg_def set_x_def set_csr_def

lemma frame_at_regs: "tf_regs (frame_at a m) = map (\<lambda>i. m (a + of_nat (8 * i))) [0..<32]" "length (tf_regs (frame_at a m)) = 32"
  by (simp_all add: frame_at_def)

text \<open>
  The entry code stores every register of the interrupted program, with the control registers, in the frame that sscratch
  points to, and calls the handler with the frame, on the kernel stack.
\<close>

lemma user_trap_entry_saves:
  fixes sy :: symbols and h :: hart
  defines "h' \<equiv> exec sy user_trap_entry_code h" and "a \<equiv> h_csr h Sscratch"
  shows "frame_at a (h_mem h') =
      \<lparr>tf_regs = map (xreg h) [0..<32], tf_sepc = h_csr h Sepc, tf_sstatus = h_csr h Sstatus, tf_scause = h_csr h Scause,
       tf_kernel_sp = h_mem h (a + 280)\<rparr>"
    "xreg h' x_a0 = a" "xreg h' x_sp = h_mem h (a + 280)"
    "h_csr h' = (h_csr h)(Sscratch := xreg h x_a0)" "h_user h' = h_user h"
    "\<And>x. x - a \<ge> 288 \<Longrightarrow> h_mem h' x = h_mem h x"
proof -
  note code = h'_def a_def user_trap_entry_code_def save_registers_def step_defs
  show "frame_at a (h_mem h') =
      \<lparr>tf_regs = map (xreg h) [0..<32], tf_sepc = h_csr h Sepc, tf_sstatus = h_csr h Sstatus, tf_scause = h_csr h Scause,
       tf_kernel_sp = h_mem h (a + 280)\<rparr>"
    by (simp add: frame_at_def upt_32 code)
  show "xreg h' x_a0 = a" "xreg h' x_sp = h_mem h (a + 280)"
    "h_csr h' = (h_csr h)(Sscratch := xreg h x_a0)" "h_user h' = h_user h"
    by (simp_all add: code)
  show "h_mem h' x = h_mem h x" if "x - a \<ge> 288" for x
  proof -
    have "x \<noteq> a + off" if "off < 288" for off using \<open>x - a \<ge> 288\<close> that by auto
    from this [of 0] this show ?thesis by (simp add: code)
  qed
qed

text \<open>The return code gives the hart the registers of the frame that a0 points to.\<close>

lemma restore_loads:
  fixes sy :: symbols and h :: hart
  defines "h' \<equiv> restore_user_or_idle sy h" and "a \<equiv> xreg h x_a0"
  shows "r < 32 \<Longrightarrow> r \<noteq> 0 \<Longrightarrow> xreg h' r = h_mem h (a + of_nat (8 * r))"
    "h_pc h' = h_mem h (a + 256)" "h_user h' = (\<not> bit (h_mem h (a + 264)) 8)" "h_mem h' = h_mem h"
    "h_csr h' Sscratch = a" "h_csr h' Satp = h_csr h Satp" "h_csr h' Stvec = h_csr h Stvec"
proof -
  note code = h'_def a_def restore_user_or_idle_def sret_def restore_code_def restore_registers_def step_defs Let_def
  have "\<forall>r \<in> set [0..<32]. r \<noteq> 0 \<longrightarrow> xreg h' r = h_mem h (a + of_nat (8 * r))"
    unfolding upt_32 by (simp add: code)
  then show "r < 32 \<Longrightarrow> r \<noteq> 0 \<Longrightarrow> xreg h' r = h_mem h (a + of_nat (8 * r))" by simp
  show "h_pc h' = h_mem h (a + 256)" "h_user h' = (\<not> bit (h_mem h (a + 264)) 8)" "h_mem h' = h_mem h"
    "h_csr h' Sscratch = a" "h_csr h' Satp = h_csr h Satp" "h_csr h' Stvec = h_csr h Stvec"
    by (simp_all add: code)
qed

lemma restore_frame:
  fixes sy :: symbols and h :: hart
  defines "h' \<equiv> restore_user_or_idle sy h" and "f \<equiv> frame_at (xreg h x_a0) (h_mem h)"
  shows "r < 32 \<Longrightarrow> r \<noteq> 0 \<Longrightarrow> xreg h' r = tf_regs f ! r" "h_pc h' = tf_sepc f" "h_user h' = (\<not> bit (tf_sstatus f) 8)"
  unfolding h'_def f_def by (simp_all add: restore_loads frame_at_def)

text \<open>
  What the handlers rely on of the entry and return code: the first part stores the registers of the interrupted program in the frame that
  sscratch points to and goes to the kernel stack of that frame; the second part continues with the frame that a0 points to.
\<close>

locale trap_code =
  fixes save :: "hart \<Rightarrow> hart" and load :: "hart \<Rightarrow> hart"
  assumes saves_frame: "frame_at (h_csr h Sscratch) (h_mem (save h)) =
      \<lparr>tf_regs = map (xreg h) [0..<32], tf_sepc = h_csr h Sepc, tf_sstatus = h_csr h Sstatus, tf_scause = h_csr h Scause,
       tf_kernel_sp = h_mem h (h_csr h Sscratch + 280)\<rparr>"
    and saves_calls: "xreg (save h) x_a0 = h_csr h Sscratch" "xreg (save h) x_sp = h_mem h (h_csr h Sscratch + 280)"
    and saves_rest: "x - h_csr h Sscratch \<ge> 288 \<Longrightarrow> h_mem (save h) x = h_mem h x"
    and loads_regs: "r < 32 \<Longrightarrow> r \<noteq> 0 \<Longrightarrow> xreg (load h) r = tf_regs (frame_at (xreg h x_a0) (h_mem h)) ! r"
    and loads_pc: "h_pc (load h) = tf_sepc (frame_at (xreg h x_a0) (h_mem h))"
    and loads_mode: "h_user (load h) = (\<not> bit (tf_sstatus (frame_at (xreg h x_a0) (h_mem h))) 8)"
    and loads_csr: "h_csr (load h) Sscratch = xreg h x_a0" "h_csr (load h) Satp = h_csr h Satp" "h_csr (load h) Stvec = h_csr h Stvec"
    and loads_mem: "h_mem (load h) = h_mem h"
begin

text \<open>A handler that returns the frame as it was stored does not disturb the program.\<close>

lemma undisturbed:
  assumes "xreg g x_a0 = h_csr h Sscratch"
    and "frame_at (h_csr h Sscratch) (h_mem g) = frame_at (h_csr h Sscratch) (h_mem (save h))"
  shows "r < 32 \<Longrightarrow> xreg (load g) r = xreg h r" "h_pc (load g) = h_csr h Sepc" "h_user (load g) = (\<not> bit (h_csr h Sstatus) 8)"
    "h_csr (load g) Sscratch = h_csr h Sscratch"
proof -
  show "xreg (load g) r = xreg h r" if "r < 32"
    using that loads_regs [of r g] assms by (cases "r = 0") (simp add: xreg_def, simp add: saves_frame)
  show "h_pc (load g) = h_csr h Sepc" "h_user (load g) = (\<not> bit (h_csr h Sstatus) 8)" "h_csr (load g) Sscratch = h_csr h Sscratch"
    using assms by (simp_all add: loads_pc loads_mode loads_csr saves_frame)
qed

text \<open>A frame away from the one that sscratch points to is left alone.\<close>

lemma other_frame:
  assumes "\<And>off. off < 288 \<Longrightarrow> a + off - h_csr h Sscratch \<ge> 288"
  shows "frame_at a (h_mem (save h)) = frame_at a (h_mem h)"
proof -
  have "h_mem (save h) (a + off) = h_mem h (a + off)" if "off < 288" for off using saves_rest assms that by blast
  moreover have "(of_nat (8 * i) :: addr) < 288" if "i < 32" for i
  proof -
    have "unat (of_nat (8 * i) :: addr) = 8 * i" using that by (simp add: unat_of_nat del: of_nat_mult)
    then show ?thesis using that by (simp add: word_less_nat_alt)
  qed
  ultimately show ?thesis by (simp add: frame_at_def)
qed

end

interpretation entry: trap_code "exec sy user_trap_entry_code" "restore_user_or_idle sy" for sy
  by unfold_locales (rule user_trap_entry_saves restore_frame restore_loads; assumption)+

lemma enter_user_loads:
  fixes sy :: symbols and h :: hart
  defines "h' \<equiv> enter_user_asm sy h" and "f \<equiv> frame_at (xreg h x_a0) (h_mem h)"
  shows "r < 32 \<Longrightarrow> r \<noteq> 0 \<Longrightarrow> xreg h' r = tf_regs f ! r" "h_pc h' = tf_sepc f" "h_user h' = (\<not> bit (tf_sstatus f) 8)"
    "h_mem h' = h_mem h" "h_csr h' Sscratch = xreg h x_a0" "h_csr h' Satp = xreg h x_a1" "h_csr h' Stvec = sy Sym_user_trap_entry"
proof -
  let ?h = "exec sy enter_user_code h"
  have e: "xreg ?h x_a0 = xreg h x_a0" "h_mem ?h = h_mem h" "h_csr ?h Satp = xreg h x_a1" "h_csr ?h Stvec = sy Sym_user_trap_entry"
    by (simp_all add: enter_user_code_def step_defs)
  have h': "h' = restore_user_or_idle sy ?h" by (simp add: h'_def enter_user_asm_def)
  show "r < 32 \<Longrightarrow> r \<noteq> 0 \<Longrightarrow> xreg h' r = tf_regs f ! r" "h_pc h' = tf_sepc f" "h_user h' = (\<not> bit (tf_sstatus f) 8)"
    unfolding h' f_def using restore_frame [where sy = sy and h = ?h] by (simp_all add: e)
  show "h_mem h' = h_mem h" "h_csr h' Sscratch = xreg h x_a0" "h_csr h' Satp = xreg h x_a1" "h_csr h' Stvec = sy Sym_user_trap_entry"
    unfolding h' by (simp_all add: restore_loads e)
qed

text \<open>A trap in the kernel ends in the frame that the handler returns, or in the idle frame.\<close>

lemma kernel_trap_resumes:
  assumes "xreg (idle_ptr (exec sy kernel_trap_load (handler (exec sy kernel_trap_save h)))) x_a0 = p0"
    and "h_mem (idle_ptr (exec sy kernel_trap_load (handler (exec sy kernel_trap_save h)))) = h_mem (handler (exec sy kernel_trap_save h))"
    and "xreg (handler (exec sy kernel_trap_save h)) x_a0 = p" "f = frame_at (if p = 0 then p0 else p) (h_mem (handler (exec sy kernel_trap_save h)))"
  shows "r < 32 \<Longrightarrow> r \<noteq> 0 \<Longrightarrow> xreg (kernel_trap_entry_asm sy handler idle_ptr h) r = tf_regs f ! r"
    "h_pc (kernel_trap_entry_asm sy handler idle_ptr h) = tf_sepc f"
    "h_csr (exec sy kernel_trap_save h) = h_csr h" "xreg (exec sy kernel_trap_save h) x_a0 = h_csr h Scause"
proof -
  let ?h1 = "exec sy kernel_trap_load (handler (exec sy kernel_trap_save h))"
  let ?h2 = "if xreg ?h1 x_a0 = 0 then idle_ptr ?h1 else ?h1"
  have load: "xreg ?h1 x_a0 = p" "h_mem ?h1 = h_mem (handler (exec sy kernel_trap_save h))"
    using assms(3) by (simp_all add: kernel_trap_load_def step_defs)
  then have f: "f = frame_at (xreg ?h2 x_a0) (h_mem ?h2)" using assms by simp
  have "kernel_trap_entry_asm sy handler idle_ptr h = restore_user_or_idle sy ?h2" by (simp add: kernel_trap_entry_asm_def Let_def)
  then show "r < 32 \<Longrightarrow> r \<noteq> 0 \<Longrightarrow> xreg (kernel_trap_entry_asm sy handler idle_ptr h) r = tf_regs f ! r"
    "h_pc (kernel_trap_entry_asm sy handler idle_ptr h) = tf_sepc f"
    using restore_frame [where sy = sy and h = ?h2] f by simp_all
  show "h_csr (exec sy kernel_trap_save h) = h_csr h" "xreg (exec sy kernel_trap_save h) x_a0 = h_csr h Scause"
    by (simp_all add: kernel_trap_save_def step_defs)
qed

section \<open>Switching contexts\<close>

definition context_at :: "addr \<Rightarrow> (addr \<Rightarrow> 64 word) \<Rightarrow> context_t" where
  "context_at a m = \<lparr>ctx_ra = m a, ctx_sp = m (a + 8), ctx_s = map (\<lambda>i. m (a + of_nat (16 + 8 * i))) [0..<12]\<rparr>"

text \<open>What a function must keep for its caller: the return address, the stack and the registers s0 to s11.\<close>

definition context_of :: "hart \<Rightarrow> context_t" where
  "context_of h = \<lparr>ctx_ra = xreg h x_ra, ctx_sp = xreg h x_sp, ctx_s = map (xreg h) ([8, 9] @ [18..<28])\<rparr>"

lemma upt_s: "[0..<12] = [0, 1, 2, 3, 4, 5, 6, 7, 8, 9, 10, 11]" "[18..<28] = [18, 19, 20, 21, 22, 23, 24, 25, 26, 27]"
  by (simp_all add: upt_rec)

lemma swtch_saves: "context_at (xreg h x_a0) (h_mem (swtch sy h)) = context_of h"
  by (simp add: context_at_def context_of_def upt_s swtch_def ret_def swtch_load_def swtch_save_def step_defs)

text \<open>Two blocks of memory that are apart have no address in common.\<close>

lemma apart_addresses:
  fixes a b i j n :: addr
  assumes "b - a \<ge> n" "a - b \<ge> n" "i < n" "j < n"
  shows "b + j \<noteq> a + i"
proof
  assume e: "b + j = a + i"
  show False
  proof (cases "j \<le> i")
    case True
    have "b - a = i - j" using e by (simp add: algebra_simps)
    then show False using assms(1,3) word_sub_le [OF True] by simp
  next
    case False
    then have "i \<le> j" by simp
    have "a - b = j - i" using e by (simp add: algebra_simps)
    then show False using assms(2,4) word_sub_le [OF \<open>i \<le> j\<close>] by simp
  qed
qed

lemma swtch_loads:
  assumes "xreg h x_a1 - xreg h x_a0 \<ge> 112" "xreg h x_a0 - xreg h x_a1 \<ge> 112"
  shows "context_of (swtch sy h) = context_at (xreg h x_a1) (h_mem h)" "h_pc (swtch sy h) = ctx_ra (context_at (xreg h x_a1) (h_mem h))"
proof -
  let ?a = "xreg h x_a0" and ?b = "xreg h x_a1" and ?h = "exec sy swtch_save h"
  have apart: "?b + j \<noteq> ?a + i" if "i < 112" "j < 112" for i j using apart_addresses [OF assms that] .
  have save: "h_mem ?h (?b + j) = h_mem h (?b + j)" if "j < 112" for j
    using apart [of _ j] apart [of 0 j] that by (simp add: swtch_save_def step_defs)
  have b: "xreg ?h x_a1 = ?b" by (simp add: swtch_save_def step_defs)
  have load: "context_of (exec sy swtch_load g) = context_at (xreg g x_a1) (h_mem g)"
    "xreg (exec sy swtch_load g) x_ra = h_mem g (xreg g x_a1)" for g
    by (simp_all add: context_at_def context_of_def upt_s swtch_load_def step_defs)
  have "context_at ?b (h_mem ?h) = context_at ?b (h_mem h)"
    using save save [of 0] by (simp add: context_at_def upt_s)
  then show "context_of (swtch sy h) = context_at ?b (h_mem h)"
    using load(1) [of ?h] b by (simp add: swtch_def ret_def context_of_def xreg_def)
  show "h_pc (swtch sy h) = ctx_ra (context_at ?b (h_mem h))"
    using load(2) [of ?h] b save [of 0] by (simp add: swtch_def ret_def context_at_def)
qed

section \<open>Clearing memory\<close>

lemma clear_bss_done: "xreg h 5 \<ge> xreg h 6 \<Longrightarrow> clear_bss sy h = Some h"
  by (simp add: clear_bss.simps)

lemma clear_bss_clears:
  assumes "xreg h x_t0 = s" "xreg h x_t1 = e" "unat e \<le> unat s + 8 * n" "n = 0 \<or> unat s + 8 * (n - 1) < unat e" "unat s + 8 * n < 2 ^ 64"
  shows "\<exists>h'. clear_bss sy h = Some h' \<and> h_csr h' = h_csr h \<and> xreg h' x_sp = xreg h x_sp \<and>
    h_mem h' = (\<lambda>x. if \<exists>i < n. x = s + of_nat (8 * i) then 0 else h_mem h x)"
  using assms
proof (induction n arbitrary: h s)
  case 0
  then have "e \<le> s" by (simp add: word_le_nat_alt)
  then show ?case using 0 clear_bss_done [of h sy] by simp
next
  case (Suc n)
  let ?h = "exec sy [Sd x_zero 0 x_t0, Addi x_t0 x_t0 8] h"
  have "\<not> s \<ge> e" using Suc.prems(4) by (simp add: word_le_nat_alt)
  then have step: "clear_bss sy h = clear_bss sy ?h" using Suc.prems(1,2) by (subst clear_bss.simps) simp
  have s8: "unat (s + 8) = unat s + 8" using Suc.prems(5) by (simp add: unat_word_ariths)
  have h: "xreg ?h x_t0 = s + 8" "xreg ?h x_t1 = e" "h_csr ?h = h_csr h" "xreg ?h x_sp = xreg h x_sp" "h_mem ?h = (h_mem h)(s := 0)"
    using Suc.prems(1,2) by (simp_all add: step_defs)
  obtain h' where h': "clear_bss sy ?h = Some h'" "h_csr h' = h_csr h" "xreg h' x_sp = xreg h x_sp"
    "h_mem h' = (\<lambda>x. if \<exists>i < n. x = (s + 8) + of_nat (8 * i) then 0 else h_mem ?h x)"
    using Suc.IH [OF h(1,2)] Suc.prems(3-5) s8 h(3,4) by (cases n) auto
  have "(\<exists>i < Suc n. x = s + of_nat (8 * i)) \<longleftrightarrow> x = s \<or> (\<exists>i < n. x = (s + 8) + of_nat (8 * i))" for x
  proof -
    have "(\<exists>i < Suc n. P i) \<longleftrightarrow> P 0 \<or> (\<exists>i < n. P (Suc i))" for P by (metis Suc_less_eq less_Suc_eq_0_disj zero_less_Suc)
    from this [of "\<lambda>i. x = s + of_nat (8 * i)"] show ?thesis by (simp add: algebra_simps)
  qed
  then show ?case using h' step h(5) by (intro exI [of _ h']) (auto simp: fun_eq_iff)
qed

end
