(* ===== verification/Nano_Machine.thy ===== *)
theory Nano_Machine
  imports Nano_Frames Nano_Asm
begin

text \<open>
  The kernel of NanoBoot on its hart: user programs, the hardware traps, the assembly of \<^verbatim>\<open>kernel/entry.S\<close> and the C
  handlers together. The trap frames that the C code keeps lie in memory, where the assembly stores and loads the
  registers.
\<close>

section \<open>The trap frames in memory\<close>

text \<open>The addresses of \<^verbatim>\<open>trapframes\<close> and \<^verbatim>\<open>idle_tf\<close> of \<^verbatim>\<open>kernel/proc.c\<close>, and of the code.\<close>

record placement =
  b_frames :: addr
  b_idle :: addr
  b_sym :: symbols

definition frame_addr :: "placement \<Rightarrow> nat \<Rightarrow> addr" where
  "frame_addr F j = b_frames F + of_nat (288 * j)"

lemma unat_small: "n < 2 ^ 64 \<Longrightarrow> unat (of_nat n :: addr) = n"
  by (simp add: unat_of_nat)

lemma frame_addr_unique:
  assumes "frame_addr F j + off = frame_addr F i + off'" "off < 288" "off' < 288" "i < NPROC" "j < NPROC"
  shows "j = i \<and> off = off'"
proof -
  have u: "unat (of_nat (288 * j) + off) = 288 * j + unat off" if "off < 288" "j < NPROC" for j and off :: addr
  proof -
    have "unat (of_nat (288 * j) :: addr) = 288 * j" using that(2) by (intro unat_small) simp
    moreover have "unat off < 288" using that(1) by (simp add: word_less_nat_alt)
    ultimately show ?thesis using that(2) by (simp add: unat_word_ariths)
  qed
  have e: "(of_nat (288 * j) :: addr) + off = of_nat (288 * i) + off'" using assms(1) by (simp add: frame_addr_def algebra_simps)
  have "288 * j + unat off = 288 * i + unat off'" using arg_cong [OF e, of unat] u [OF assms(2,5)] u [OF assms(3,4)] by simp
  moreover have "unat off < 288" "unat off' < 288" using assms(2,3) by (simp_all add: word_less_nat_alt)
  ultimately have "j = i" by arith
  then show ?thesis using assms(1) by simp
qed

definition frame_words :: "trapframe \<Rightarrow> 64 word list" where
  "frame_words tf = tf_regs tf @ [tf_sepc tf, tf_sstatus tf, tf_scause tf, tf_kernel_sp tf]"

text \<open>Memory that holds the frames of the processes of \<open>k\<close>.\<close>

definition frame_memory :: "placement \<Rightarrow> kernel \<Rightarrow> (addr \<Rightarrow> 64 word) \<Rightarrow> addr \<Rightarrow> 64 word" where
  "frame_memory F k m x =
     (case find (\<lambda>j. x - frame_addr F j < 288) [0..<NPROC] of
        Some j \<Rightarrow> frame_words (p_tf (proc_at k j)) ! (unat (x - frame_addr F j) div 8)
      | None \<Rightarrow> m x)"

lemma find_unique:
  assumes "j \<in> set xs" "P j" "\<And>i. i \<in> set xs \<Longrightarrow> P i \<Longrightarrow> i = j"
  shows "find P xs = Some j"
proof (cases "find P xs")
  case None
  then show ?thesis using assms(1,2) by (simp add: find_None_iff)
next
  case (Some i)
  then have "i \<in> set xs" "P i" by (auto simp: find_Some_iff)
  then show ?thesis using assms(3) Some by simp
qed

lemma frame_memory_word:
  assumes "j < NPROC" "i < 36"
  shows "frame_memory F k m (frame_addr F j + of_nat (8 * i)) = frame_words (p_tf (proc_at k j)) ! i"
proof -
  have u: "unat (of_nat (8 * i) :: addr) = 8 * i" using assms(2) by (intro unat_small) simp
  then have off: "(of_nat (8 * i) :: addr) < 288" using assms(2) by (simp add: word_less_nat_alt)
  have "i' = j" if "i' < NPROC" "frame_addr F j + of_nat (8 * i) - frame_addr F i' < 288" for i'
    using frame_addr_unique [where F = F, OF _ off that(2,1) assms(1)] by simp
  then have "find (\<lambda>j'. frame_addr F j + of_nat (8 * i) - frame_addr F j' < 288) [0..<NPROC] = Some j"
    using off assms(1) by (intro find_unique) auto
  then show ?thesis using u by (simp add: frame_memory_def)
qed

lemma frame_at_memory:
  assumes "j < NPROC" "length (tf_regs (p_tf (proc_at k j))) = 32"
  shows "frame_at (frame_addr F j) (frame_memory F k m) = p_tf (proc_at k j)"
proof -
  have "map (\<lambda>i. frame_memory F k m (frame_addr F j + of_nat (8 * i))) [0..<32] = tf_regs (p_tf (proc_at k j))"
    using assms by (intro nth_equalityI) (simp_all add: frame_memory_word frame_words_def nth_append del: of_nat_mult)
  then show ?thesis
    using frame_memory_word [OF assms(1), of 32 F k m] frame_memory_word [OF assms(1), of 33 F k m]
      frame_memory_word [OF assms(1), of 34 F k m] frame_memory_word [OF assms(1), of 35 F k m] assms(2)
    by (simp add: frame_at_def frame_words_def nth_append)
qed

section \<open>A trap on the hart\<close>

fun target_addr :: "placement \<Rightarrow> target \<Rightarrow> addr" where
  "target_addr F (User j) = frame_addr F j"
| "target_addr F Idle = b_idle F"

fun vector_addr :: "placement \<Rightarrow> vector \<Rightarrow> addr" where
  "vector_addr F user_trap_entry = b_sym F Sym_user_trap_entry"
| "vector_addr F kernel_trap_entry = b_sym F Sym_kernel_trap_entry"

text \<open>
  The hart when the call of \<^verbatim>\<open>trap_handler\<close> returns: a0 points to the frame it chose, the frames are those of the
  kernel, satp and stvec are as it set them; every other register and word may have changed.
\<close>

definition handler_returns :: "placement \<Rightarrow> (nat \<Rightarrow> 64 word) \<Rightarrow> (addr \<Rightarrow> 64 word) \<Rightarrow> target \<Rightarrow> kernel \<Rightarrow> hart \<Rightarrow> hart" where
  "handler_returns F regs m t k h =
     h\<lparr>h_regs := regs(10 := target_addr F t),
       h_csr := (h_csr h)(Satp := k_satp k, Stvec := vector_addr F (k_stvec k)),
       h_mem := frame_memory F k m\<rparr>"

text \<open>A trap of a user program: the hardware, the entry code, the handler, and the return code.\<close>

definition user_trap :: "placement \<Rightarrow> machine \<Rightarrow> nat \<Rightarrow> (nat \<Rightarrow> 64 word) \<Rightarrow> (addr \<Rightarrow> 64 word) \<Rightarrow> 64 word \<Rightarrow> hart \<Rightarrow> kernel \<Rightarrow>
    (hart \<times> target \<times> kernel) run" where
  "user_trap F M rounds regs m cause h k =
     (let h0 = take_trap cause h in
      if h_pc h0 \<noteq> b_sym F Sym_user_trap_entry then Hang
      else
        let h1 = exec (b_sym F) user_trap_entry_code h0 in
        run_bind (trap_handler M rounds (frame_at (xreg h1 10) (h_mem h1)) k) (\<lambda>(t, k').
          Done (restore_user_or_idle (b_sym F) (handler_returns F regs m t k' h1), t, k')))"

text \<open>What the hart must hold while the process of slot \<open>c\<close> runs.\<close>

definition frames_agree :: "placement \<Rightarrow> kernel \<Rightarrow> (addr \<Rightarrow> 64 word) \<Rightarrow> bool" where
  "frames_agree F k m \<longleftrightarrow> (\<forall>j < NPROC. frame_at (frame_addr F j) m = p_tf (proc_at k j))"

definition agrees :: "placement \<Rightarrow> nat \<Rightarrow> kernel \<Rightarrow> hart \<Rightarrow> bool" where
  "agrees F c k h \<longleftrightarrow>
     h_user h \<and> frames_agree F k (h_mem h) \<and> h_csr h Sscratch = frame_addr F c \<and> h_csr h Satp = k_satp k \<and>
     h_csr h Stvec = b_sym F Sym_user_trap_entry"

text \<open>A frame that returns to user mode, and to the kernel stack of its slot at the next trap.\<close>

definition frame_safe :: "machine \<Rightarrow> nat \<Rightarrow> trapframe \<Rightarrow> bool" where
  "frame_safe M j f \<longleftrightarrow> \<not> bit (tf_sstatus f) 8 \<and> tf_kernel_sp f = kstack_top M j"

text \<open>What the entry code saves of a user program.\<close>

definition user_frame :: "machine \<Rightarrow> nat \<Rightarrow> 64 word \<Rightarrow> hart \<Rightarrow> trapframe" where
  "user_frame M c cause h =
     (let s = h_csr h Sstatus in
      \<lparr>tf_regs = map (xreg h) [0..<32], tf_sepc = h_pc h,
       tf_sstatus = put_bit 8 False (put_bit 5 (bit s 1) (put_bit 1 False s)), tf_scause = cause, tf_kernel_sp = kstack_top M c\<rparr>)"

lemma user_frame_simps [simp]:
  "length (tf_regs (user_frame M c cause h)) = 32" "tf_scause (user_frame M c cause h) = cause"
  "tf_sepc (user_frame M c cause h) = h_pc h" "r < 32 \<Longrightarrow> tf_regs (user_frame M c cause h) ! r = xreg h r"
  by (simp_all add: user_frame_def Let_def)

lemma user_frame_safe: "frame_safe M c (user_frame M c cause h)"
  by (simp add: frame_safe_def user_frame_def Let_def put_bit_def bit_simps)

text \<open>When the handler is called, it gets the frame of the user program, its own kernel stack, and the frames of the others unchanged.\<close>

lemma trap_entry:
  fixes F :: placement and h :: hart and cause :: "64 word"
  assumes "agrees F c k h" "c < NPROC" "frame_safe M c (p_tf (proc_at k c))"
  defines "h1 \<equiv> exec (b_sym F) user_trap_entry_code (take_trap cause h)"
  shows "frame_at (xreg h1 10) (h_mem h1) = user_frame M c cause h" "xreg h1 2 = kstack_top M c"
    "h_pc (take_trap cause h) = b_sym F Sym_user_trap_entry"
    "j < NPROC \<Longrightarrow> j \<noteq> c \<Longrightarrow> frame_at (frame_addr F j) (h_mem h1) = p_tf (proc_at k j)"
proof -
  let ?h0 = "take_trap cause h" and ?a = "frame_addr F c"
  have h0: "h_csr ?h0 Sscratch = ?a" "h_mem ?h0 = h_mem h" "xreg ?h0 = xreg h" "h_csr ?h0 Sepc = h_pc h" "h_csr ?h0 Scause = cause"
    "h_csr ?h0 Sstatus = tf_sstatus (user_frame M c cause h)"
    using assms(1) by (simp_all add: take_trap_def agrees_def Let_def xreg_def fun_eq_iff user_frame_def)
  have ag: "frame_at (frame_addr F j) (h_mem h) = p_tf (proc_at k j)" if "j < NPROC" for j
    using assms(1) that by (simp add: agrees_def frames_agree_def)
  have "tf_kernel_sp (frame_at ?a (h_mem h)) = kstack_top M c" using ag [OF assms(2)] assms(3) by (simp add: frame_safe_def)
  then have sp: "h_mem h (?a + 280) = kstack_top M c" by (simp add: frame_at_def)
  note s = entry.saves_frame [where sy = "b_sym F" and h = ?h0, folded h1_def, unfolded h0]
    entry.saves_calls [where sy = "b_sym F" and h = ?h0, folded h1_def, unfolded h0]
  show "frame_at (xreg h1 10) (h_mem h1) = user_frame M c cause h"
    unfolding s(2) s(1) sp by (simp add: user_frame_def Let_def)
  show "xreg h1 2 = kstack_top M c" using s(3) sp by simp
  show "h_pc ?h0 = b_sym F Sym_user_trap_entry" using assms(1) by (simp add: take_trap_def agrees_def Let_def)
  show "frame_at (frame_addr F j) (h_mem h1) = p_tf (proc_at k j)" if "j < NPROC" "j \<noteq> c"
  proof -
    have "frame_addr F j + off - ?a \<ge> 288" if "off < 288" for off
      using frame_addr_unique [OF _ that, of F j c "frame_addr F j + off - ?a"] \<open>j < NPROC\<close> \<open>j \<noteq> c\<close> assms(2)
      by (metis add_diff_cancel_left' diff_add_cancel add.commute not_le)
    then have "frame_at (frame_addr F j) (h_mem h1) = frame_at (frame_addr F j) (h_mem h)"
      using entry.other_frame [where sy = "b_sym F" and h = ?h0, folded h1_def, unfolded h0] by blast
    then show ?thesis using ag [OF \<open>j < NPROC\<close>] by simp
  qed
qed

text \<open>The hart continues where a frame was saved, with its registers.\<close>

definition resumes :: "hart \<Rightarrow> trapframe \<Rightarrow> bool" where
  "resumes h f \<longleftrightarrow> (\<forall>r < 32. r \<noteq> 0 \<longrightarrow> xreg h r = tf_regs f ! r) \<and> h_pc h = tf_sepc f"

definition frames_safe :: "machine \<Rightarrow> kernel \<Rightarrow> bool" where
  "frames_safe M k \<longleftrightarrow> (\<forall>j < NPROC. frame_safe M j (p_tf (proc_at k j)))"

lemma frame_safe_set_reg [simp]: "frame_safe M j (set_reg r v f) = frame_safe M j f" "frame_safe M j (call_frame f) = frame_safe M j f"
  by (simp_all add: frame_safe_def set_reg_def call_frame_def)

lemma trap_frames_safe:
  assumes "frames_safe M k" "c < NPROC" "frame_safe M c tf" "returned tf f" "leaves M (call_frame tf) c k f k'"
  shows "frames_safe M k'"
proof -
  have f: "frame_safe M c f" using assms(3,4) by (auto simp: returned_def split: if_splits)
  have child: "frame_safe M j (child_frame M j (call_frame tf))" for j
    using assms(3) by (simp add: child_frame_def) (simp add: frame_safe_def call_frame_def)
  have "frame_safe M j (p_tf (proc_at k' j))" if "j < NPROC" for j
  proof (cases "j = c")
    case True
    then show ?thesis using assms(5) f by (simp add: leaves_def)
  next
    case False
    have "frame_safe M j (p_tf (proc_at k j))" using assms(1) that by (simp add: frames_safe_def)
    moreover have "p_tf (proc_at k' j) \<in> {p_tf (proc_at k j), woken_frame c k j, child_frame M j (call_frame tf)}"
      using assms(5) that False unfolding leaves_def by blast
    ultimately show ?thesis using child by (auto simp: woken_frame_def)
  qed
  then show ?thesis by (simp add: frames_safe_def)
qed

lemma runs_regs: "runs M c k \<Longrightarrow> j < NPROC \<Longrightarrow> length (tf_regs (p_tf (proc_at k j))) = 32"
  using kinv_regs by (auto simp: runs_def good_def)

text \<open>The return code enters the process that the handler chose.\<close>

lemma trap_return:
  fixes F :: placement and regs :: "nat \<Rightarrow> 64 word" and m :: "addr \<Rightarrow> 64 word" and h :: hart
  assumes "runs M d k" "frames_safe M k"
  defines "h' \<equiv> restore_user_or_idle (b_sym F) (handler_returns F regs m (User d) k h)"
  shows "agrees F d k h'" "resumes h' (p_tf (proc_at k d))"
proof -
  let ?h = "handler_returns F regs m (User d) k h"
  have d: "d < NPROC" "k_stvec k = user_trap_entry" using assms(1) one_runningD(2) by (auto simp: runs_def good_def)
  have h: "xreg ?h 10 = frame_addr F d" "h_mem ?h = frame_memory F k m" "h_csr ?h Satp = k_satp k" "h_csr ?h Stvec = b_sym F Sym_user_trap_entry"
    using d(2) by (simp_all add: handler_returns_def xreg_def)
  have f: "frame_at (frame_addr F j) (frame_memory F k m) = p_tf (proc_at k j)" if "j < NPROC" for j
    using that runs_regs [OF assms(1) that] by (rule frame_at_memory)
  note l = entry.loads_regs [where sy = "b_sym F" and h = ?h, folded h'_def, unfolded h f [OF d(1)]]
    entry.loads_pc [where sy = "b_sym F" and h = ?h, folded h'_def, unfolded h f [OF d(1)]]
    entry.loads_mode [where sy = "b_sym F" and h = ?h, folded h'_def, unfolded h f [OF d(1)]]
    entry.loads_csr [where sy = "b_sym F" and h = ?h, folded h'_def, unfolded h]
    entry.loads_mem [where sy = "b_sym F" and h = ?h, folded h'_def, unfolded h]
  show "resumes h' (p_tf (proc_at k d))" using l(1,2) by (simp add: resumes_def)
  show "agrees F d k h'"
    using l(3-7) f assms(2) d(1) by (simp add: agrees_def frames_agree_def frames_safe_def frame_safe_def)
qed

lemma user_trap_step:
  assumes "layout_ok (m_layout M)" "runs M c k" "agrees F c k h" "frames_safe M k"
    and "user_trap F M rounds regs m cause h k = Done (h', t, k')"
  obtains d where "t = User d" "trap_handler M rounds (user_frame M c cause h) k = Done (User d, k')" "runs M d k'"
    "agrees F d k' h'" "frames_safe M k'" "resumes h' (p_tf (proc_at k' d))"
proof -
  let ?tf = "user_frame M c cause h"
  have g: "good M k" "k_current k = Some c" using assms(2) by (simp_all add: runs_def)
  have c: "c < NPROC" using g one_runningD(2) by (auto simp: good_def)
  have "frame_safe M c (p_tf (proc_at k c))" using assms(4) c by (simp add: frames_safe_def)
  note e = trap_entry [where cause = cause, OF assms(3) c this]
  have th: "trap_handler M rounds ?tf k = Done (t, k')"
    and h': "h' = restore_user_or_idle (b_sym F) (handler_returns F regs m t k' (exec (b_sym F) user_trap_entry_code (take_trap cause h)))"
    using assms(5) e(1,3) by (auto simp: user_trap_def Let_def run_bind_Done)
  have "safe (\<lambda>(t, k'). (\<exists>d. t = User d \<and> runs M d k') \<and> harmless M UNIV k k') (trap_handler M rounds ?tf k)"
    using trap_handler_safe [OF assms(1) g, of ?tf UNIV] by simp
  then obtain d where d: "t = User d" "runs M d k'" using th by auto
  obtain f where f: "returned ?tf f" "leaves M (call_frame ?tf) c k f k'"
    using trap_leaves [OF g _ th] by auto
  have fs: "frames_safe M k'" by (rule trap_frames_safe [OF assms(4) c user_frame_safe f])
  show thesis using that d th fs trap_return [OF d(2) fs] h' by blast
qed

section \<open>The machine as a state machine\<close>

lemma nth_list_update_cases: "j < length xs \<Longrightarrow> xs[i := x] ! j = (if j = i then x else xs ! j)"
  by (cases "i = j") simp_all

lemma main_frames_safe:
  assumes "main M k0 = Done (c, satp, k)"
  shows "frames_safe M k"
proof -
  obtain u where u: "uart_puts print_banner (uart_init (k_uart k0)) = Some u"
    using assms by (cases "uart_puts print_banner (uart_init (k_uart k0))") (auto simp: main_def of_uart_def)
  define k3 where "k3 = timer_init ((proc_init M (k0\<lparr>k_uart := u, k_vm := vm_init (k_vm k0)\<rparr>))\<lparr>k_stvec := kernel_trap_entry\<rparr>)"
  have len: "length (k_procs k3) = NPROC" by (simp add: k3_def proc_init_def)
  have "frame_safe M j (p_tf (proc_at k3 j))" if "j < NPROC" for j
    using that by (simp add: k3_def proc_init_def frame_safe_def tf_clear_def)
  then have fs3: "frames_safe M k3" by (simp add: frames_safe_def)
  obtain i k4 where k4: "proc_create_init M k3 = Done (Some i, k4)" "k_procs k = k_procs (reschedule k4)"
  proof -
    from assms have "run_bind (proc_create_init M k3) (\<lambda>(i, k4). case i of None \<Rightarrow> Hang
        | Some _ \<Rightarrow> let k5 = reschedule k4 in (case k_current k5 of None \<Rightarrow> Hang
          | Some c \<Rightarrow> run_bind (of_uart (Option.bind (uart_puts ''init: pid='' (k_uart k5)) (\<lambda>u1.
                      Option.bind (uart_print_int (of_int (p_pid (proc_at k5 c))) u1)
                        (uart_puts ('' ready'' @ [newline])))) k5)
                    (\<lambda>k6. Done (c, vm_satp (p_pagetable (proc_at k6 c)), k6)))) = Done (c, satp, k)"
      unfolding main_def panic_hangs u by (simp add: of_uart_def k3_def Let_def)
    then show thesis
      using that by (auto simp: run_bind_Done Let_def dest: of_uart_procs split: option.splits)
  qed
  have "\<exists>p. k_procs k4 = (k_procs k3)[i := p] \<and> p_tf p = prepare_user_tf M i"
    using k4(1) by (auto simp: proc_create_init_def claim_slot_def set_proc_def run_bind_Done Let_def split: option.splits if_splits)
  moreover have "frame_safe M i (prepare_user_tf M i)"
    by (simp add: prepare_user_tf_def) (simp add: frame_safe_def SSTATUS_SPIE_def bit_simps)
  ultimately have "frames_safe M k4" "length (k_procs k4) = NPROC"
    using fs3 len unfolding frames_safe_def by (auto simp: nth_list_update_cases)
  moreover have "calm {} UNIV k4 (reschedule k4)" by (rule calm_reschedule) simp
  ultimately show ?thesis using k4(2) by (simp add: frames_safe_def calm_def)
qed

text \<open>
  The system: the boot code has entered the first process; a user program computes with its registers and stores into its
  memory; and it traps. A state is the hart, the slot of the process that runs, and the kernel.
\<close>

inductive system_step :: "placement \<Rightarrow> machine \<Rightarrow> hart \<times> nat \<times> kernel \<Rightarrow> hart \<times> nat \<times> kernel \<Rightarrow> bool" for F M where
  compute: "system_step F M (h, c, k) (h\<lparr>h_regs := regs, h_pc := pc\<rparr>, c, k)"
| store: "copyout (m_layout M) (p_pagetable (proc_at k c)) va bs (k_vm k) = Inr (rc, v) \<Longrightarrow> system_step F M (h, c, k) (h, c, k\<lparr>k_vm := v\<rparr>)"
| trap: "user_trap F M rounds regs m cause h k = Done (h', User d, k') \<Longrightarrow> system_step F M (h, c, k) (h', d, k')"

inductive system_reachable :: "placement \<Rightarrow> machine \<Rightarrow> hart \<times> nat \<times> kernel \<Rightarrow> bool" for F M where
  boot: "main M k0 = Done (c, satp, k) \<Longrightarrow> frames_agree F k (h_mem h) \<Longrightarrow> xreg h 10 = frame_addr F c \<Longrightarrow> xreg h 11 = satp \<Longrightarrow>
    system_reachable F M (enter_user_asm (b_sym F) h, c, enter_user satp k)"
| step: "system_reachable F M st \<Longrightarrow> system_step F M st st' \<Longrightarrow> system_reachable F M st'"

text \<open>What holds of every reachable state.\<close>

definition system_ok :: "placement \<Rightarrow> machine \<Rightarrow> hart \<Rightarrow> nat \<Rightarrow> kernel \<Rightarrow> bool" where
  "system_ok F M h c k \<longleftrightarrow> kernel_reachable M (User c, k) \<and> agrees F c k h \<and> frames_safe M k"

lemma system_okD:
  assumes "layout_ok (m_layout M)" "system_ok F M h c k"
  shows "runs M c k" "good M k" "k_current k = Some c" "c < NPROC" "agrees F c k h" "frames_safe M k" "kernel_reachable M (User c, k)"
    "one_running k" "kinv M k" "length (k_procs k) = NPROC"
proof -
  have k: "kernel_reachable M (User c, k)" "agrees F c k h" "frames_safe M k" using assms(2) by (simp_all add: system_ok_def)
  then show r: "runs M c k" using kernel_reachable_runs [OF assms(1)] by fastforce
  then show g: "good M k" "k_current k = Some c" "one_running k" "kinv M k" "length (k_procs k) = NPROC"
    using kinv_length by (auto simp: runs_def good_def)
  show "c < NPROC" "agrees F c k h" "frames_safe M k" "kernel_reachable M (User c, k)" using k one_runningD(2) [OF g(3,2)] by simp_all
qed

lemma system_trap:
  assumes "layout_ok (m_layout M)" "system_ok F M h c k" "user_trap F M rounds regs m cause h k = Done (h', t, k')"
  obtains d where "t = User d" "trap_handler M rounds (user_frame M c cause h) k = Done (User d, k')" "system_ok F M h' d k'"
    "resumes h' (p_tf (proc_at k' d))"
proof -
  note ok = system_okD [OF assms(1,2)]
  obtain d where d: "t = User d" "trap_handler M rounds (user_frame M c cause h) k = Done (User d, k')"
    "agrees F d k' h'" "frames_safe M k'" "resumes h' (p_tf (proc_at k' d))"
    by (rule user_trap_step [OF assms(1) ok(1,5,6) assms(3)]) blast
  then show thesis using that kernel_reachable.trap [OF ok(7) _ d(2)] by (simp add: system_ok_def)
qed

lemma system_step_ok:
  assumes "layout_ok (m_layout M)" "system_step F M (h, c, k) (h', d, k')" "system_ok F M h c k"
  shows "system_ok F M h' d k'"
  using assms(2)
proof cases
  case (compute regs pc)
  then show ?thesis using assms(3) by (simp add: system_ok_def agrees_def)
next
  case (store va bs rc v)
  then have "kernel_reachable M (User c, k')" using assms(3) by (auto simp: system_ok_def intro: kernel_reachable.store)
  then show ?thesis using store assms(3) by (simp add: system_ok_def agrees_def frames_agree_def frames_safe_def)
next
  case (trap rounds regs m cause)
  from system_trap [OF assms(1,3) trap] show ?thesis by auto
qed

lemma system_reachable_ok:
  assumes "layout_ok (m_layout M)" "system_reachable F M st"
  shows "case st of (h, c, k) \<Rightarrow> system_ok F M h c k"
  using assms(2)
proof induction
  case (boot k0 c satp k h)
  have r: "kernel_reachable M (User c, enter_user satp k)" by (rule kernel_reachable.boot [OF boot(1)])
  then have "runs M c (enter_user satp k)" using kernel_reachable_runs [OF assms(1)] by fastforce
  then have c: "c < NPROC" using one_runningD(2) by (auto simp: runs_def good_def)
  have fs: "frames_safe M k" by (rule main_frames_safe [OF boot(1)])
  note e = enter_user_loads [where sy = "b_sym F" and h = h, unfolded boot(3,4)]
  have "frame_at (frame_addr F c) (h_mem h) = p_tf (proc_at k c)" using boot(2) c by (simp add: frames_agree_def)
  then have "h_user (enter_user_asm (b_sym F) h)" using e(3) fs c by (simp add: frames_safe_def frame_safe_def)
  then have "agrees F c (enter_user satp k) (enter_user_asm (b_sym F) h)"
    using e(4-7) boot(2) by (simp add: agrees_def frames_agree_def enter_user_def)
  then show ?case using r fs by (simp add: system_ok_def frames_safe_def enter_user_def)
next
  case (step st st')
  then show ?case using system_step_ok [OF assms(1)] by (cases st; cases st') auto
qed

lemma system_reachableD:
  "layout_ok (m_layout M) \<Longrightarrow> system_reachable F M (h, c, k) \<Longrightarrow> system_ok F M h c k"
  using system_reachable_ok by fastforce

section \<open>A process while others run\<close>

text \<open>Any number of steps of other processes than that of slot \<open>i\<close>, up to the moment when it runs again.\<close>

inductive away :: "placement \<Rightarrow> machine \<Rightarrow> nat \<Rightarrow> hart \<times> nat \<times> kernel \<Rightarrow> hart \<times> nat \<times> kernel \<Rightarrow> bool" for F M i where
  stay: "away F M i st st"
| other: "away F M i st (h, d, k) \<Longrightarrow> d \<noteq> i \<Longrightarrow> system_step F M (h, d, k) st' \<Longrightarrow> away F M i st st'"

text \<open>
  The process of slot \<open>i\<close> continues with a frame of \<open>G\<close> and the memory \<open>mem\<close>; if it waits, then whatever the result of its
  call will be.
\<close>

definition kept :: "machine \<Rightarrow> nat \<Rightarrow> trapframe set \<Rightarrow> memory \<Rightarrow> hart \<Rightarrow> nat \<Rightarrow> kernel \<Rightarrow> bool" where
  "kept M i G mem h c k \<longleftrightarrow>
     alive (proc_at k i) \<and> p_tf (proc_at k i) \<in> G \<and> (ready (proc_at k i) \<or> (\<forall>g \<in> G. \<forall>v. set_reg 10 v g \<in> G)) \<and>
     (\<forall>x \<in> slot_memory (m_layout M) i. vm_mem (k_vm k) x = mem x) \<and> (c = i \<longrightarrow> (\<exists>g \<in> G. resumes h g))"

lemma trap_keeps_memory:
  assumes "layout_ok (m_layout M)" "good M k" "k_current k = Some c" "length (tf_regs tf) = 32" "trap_handler M rounds tf k = Done (t, k')"
    and "i < NPROC" "i \<noteq> c" "live k i" "x \<in> slot_memory (m_layout M) i"
  shows "vm_mem (k_vm k') x = vm_mem (k_vm k) x"
proof -
  let ?S = "insert c {i. i < NPROC \<and> \<not> live k i}"
  have c: "c < NPROC" using assms(2,3) one_runningD(2) by (auto simp: good_def)
  have "safe (\<lambda>(t, k'). (\<exists>d. t = User d \<and> runs M d k') \<and> harmless M ?S k k') (trap_handler M rounds tf k)"
    by (rule trap_handler_safe [OF assms(1-4)]) auto
  then have "harmless M ?S k k'" using assms(5) by simp
  moreover have "x \<notin> slot_memory (m_layout M) s" if "s \<in> ?S" for s
    using that assms(6-9) c slot_memory_disjoint [OF assms(1,6), of s] by auto
  ultimately show ?thesis by (simp add: harmless_def)
qed

lemma alive_live: "alive (proc_at k i) \<Longrightarrow> live k i" "ready (proc_at k i) \<Longrightarrow> \<not> waiting (proc_at k i)"
  by (auto simp: ready_def alive_def waiting_def)

lemma system_step_kept:
  assumes "layout_ok (m_layout M)" "system_step F M (h, c, k) (h', d, k')" "system_ok F M h c k" "i < NPROC" "c \<noteq> i" "kept M i G mem h c k"
  shows "kept M i G mem h' d k'"
  using assms(2)
proof cases
  case (compute regs pc)
  then show ?thesis using assms(5,6) by (simp add: kept_def)
next
  case (store va bs rc v)
  note ok = system_okD [OF assms(1,3)]
  obtain rc' v' where "copyout (m_layout M) (p_pagetable (proc_at k c)) va bs (k_vm k) = Inr (rc', v')"
    "\<forall>x. x \<notin> slot_memory (m_layout M) c \<longrightarrow> vm_mem v' x = vm_mem (k_vm k) x"
    by (rule good_copyout [OF assms(1) ok(2,3)])
  then have "vm_mem v x = vm_mem (k_vm k) x" if "x \<in> slot_memory (m_layout M) i" for x
    using store(4) that slot_memory_disjoint [OF assms(1,4) ok(4)] assms(5) by auto
  then show ?thesis using store assms(5,6) by (simp add: kept_def)
next
  case (trap rounds regs m cause)
  note ok = system_okD [OF assms(1,3)]
  obtain th: "trap_handler M rounds (user_frame M c cause h) k = Done (User d, k')" and re: "resumes h' (p_tf (proc_at k' d))"
    using system_trap [OF assms(1,3) trap] by auto
  have a: "alive (proc_at k i)" using assms(6) by (simp add: kept_def)
  obtain g where l: "leaves M (call_frame (user_frame M c cause h)) c k g k'" using trap_leaves [OF ok(2,3) _ th] by auto
  then have "goes_on (proc_at k i) (proc_at k' i)" using assms(4,5) by (simp add: leaves_def)
  moreover have "p_tf (proc_at k' i) \<in> G"
    using l assms(4-6) alive_live [of k i] by (auto simp: leaves_def kept_def woken_def woken_frame_def)
  ultimately show ?thesis
    using assms(6) re trap_keeps_memory [OF assms(1) ok(2,3) _ th assms(4) _ alive_live(1) [OF a]] assms(5)
    by (auto simp: kept_def goes_on_def)
qed

lemma away_kept:
  assumes "layout_ok (m_layout M)" "away F M i st st'" "i < NPROC" "st = (h, c, k)" "system_ok F M h c k" "kept M i G mem h c k"
  shows "case st' of (h', d, k') \<Rightarrow> system_ok F M h' d k' \<and> kept M i G mem h' d k'"
  using assms(2,4,5,6)
proof induction
  case (other st h1 d k1 st')
  then have "system_ok F M h1 d k1" "kept M i G mem h1 d k1" by simp_all
  then show ?case
    using other(2,3) system_step_ok [OF assms(1)] system_step_kept [OF assms(1) _ _ assms(3)] by (cases st') blast
qed simp

end
