(* ===== verification/Nano_Hart.thy ===== *)
theory Nano_Hart
  imports Nano_Machine
begin

text \<open>
  What a user program of NanoBoot sees of the machine: its registers and its memory across traps, preemption, system calls
  and fork, with the assembly, the handlers and the other processes in between.
\<close>

section \<open>Sample states\<close>

definition sample_placement :: placement where
  "sample_placement = \<lparr>b_frames = 0x80600000, b_idle = 0x80600900,
     b_sym = (\<lambda>s. case s of Sym_user_trap_entry \<Rightarrow> 0x80200000 | Sym_kernel_trap_entry \<Rightarrow> 0x80200100 | Sym_boot_stack_top \<Rightarrow> 0x80610000
                 | Sym_bss_start \<Rightarrow> 0x80600000 | Sym_bss_end \<Rightarrow> 0x80600014)\<rparr>"

definition boot_hart :: "placement \<Rightarrow> kernel \<Rightarrow> 64 word \<Rightarrow> hart" where
  "boot_hart F k satp = \<lparr>h_regs = (\<lambda>r. 0)(10 := frame_addr F 0, 11 := satp), h_csr = (\<lambda>r. 0), h_mem = frame_memory F k (\<lambda>x. 0),
     h_pc = 0, h_user = False\<rparr>"

lemma booted_hart:
  obtains h k where "system_reachable sample_placement sample_machine (h, 0, k)" "unused_slot k = Some 1" "k_next_pid k = 2"
    "\<forall>i < NPROC. i \<noteq> 0 \<longrightarrow> \<not> live k i"
proof -
  obtain satp k where b: "main sample_machine sample_kernel = Done (0, satp, k)" "runs sample_machine 0 (enter_user satp k)"
    "\<And>i. i < NPROC \<Longrightarrow> i \<noteq> 0 \<Longrightarrow> \<not> live k i" "k_next_pid k = 2"
    by (rule main_boots [OF sample_machine_ok sample_idle]) blast
  let ?F = sample_placement and ?h = "boot_hart sample_placement k satp" and ?k = "enter_user satp k"
  have e: "k_procs ?k = k_procs k" "k_next_pid ?k = k_next_pid k" by (simp_all add: enter_user_def)
  have "frame_at (frame_addr ?F j) (h_mem ?h) = p_tf (proc_at k j)" if "j < NPROC" for j
    using frame_at_memory [OF that, of k ?F "\<lambda>x. 0"] runs_regs [OF b(2) that] e by (simp add: boot_hart_def)
  then have "frames_agree ?F k (h_mem ?h)" by (simp add: frames_agree_def)
  then have r: "system_reachable ?F sample_machine (enter_user_asm (b_sym ?F) ?h, 0, ?k)"
    by (rule system_reachable.boot [OF b(1)]) (simp_all add: boot_hart_def xreg_def)
  have g: "kinv sample_machine ?k" "one_running ?k" "k_current ?k = Some 0" using b(2) by (simp_all add: runs_def good_def)
  have "unused_slot ?k = Some 1"
    unfolding unused_slot_def first_index_Some using kinv_length [OF g(1)] b(3) [of 1] one_runningD(4) [OF g(2,3)] e by simp
  then show thesis using that r b(3,4) e by simp
qed

section \<open>Traps as a user program sees them\<close>

lemma resumes_regs: "resumes h f \<Longrightarrow> r < 32 \<Longrightarrow> r \<noteq> 0 \<Longrightarrow> xreg h r = tf_regs f ! r" "resumes h f \<Longrightarrow> h_pc h = tf_sepc f"
  by (simp_all add: resumes_def)

lemma xreg_0 [simp]: "xreg h 0 = 0"
  by (simp add: xreg_def)

text \<open>The user program's registers are \<open>rs\<close>, but for those in \<open>X\<close>, and it continues at \<open>a\<close>.\<close>

definition continues :: "hart \<Rightarrow> nat set \<Rightarrow> (nat \<Rightarrow> 64 word) \<Rightarrow> addr \<Rightarrow> bool" where
  "continues h X rs a \<longleftrightarrow> (\<forall>r < 32. r \<notin> X \<longrightarrow> xreg h r = rs r) \<and> h_pc h = a"

lemma resumes_continues:
  assumes "resumes h' f" "\<And>r. r < 32 \<Longrightarrow> r \<noteq> 0 \<Longrightarrow> r \<notin> X \<Longrightarrow> tf_regs f ! r = xreg h r" "tf_sepc f = a"
  shows "continues h' X (xreg h) a"
proof -
  have "xreg h' r = xreg h r" if "r < 32" "r \<notin> X" for r
    using assms(1,2) that by (cases "r = 0") (simp_all add: resumes_def)
  then show ?thesis using assms(1,3) by (simp add: continues_def resumes_def)
qed

lemma live_view:
  assumes "layout_ok (m_layout M)" "kinv M k" "i < NPROC" "live k i"
  shows "copyin (m_layout M) (p_pagetable (proc_at k i)) va n (k_vm k) = Inr (user_bytes (m_layout M) i (vm_mem (k_vm k)) va n)"
proof -
  obtain D where "user_table (m_layout M) (k_vm k) (p_pagetable (proc_at k i)) i D" using current_table [OF assms] by metis
  then show ?thesis by (rule copyin_user_bytes [OF assms(1,3)])
qed

text \<open>What the process of slot \<open>i\<close> reads in its memory.\<close>

definition view :: "machine \<Rightarrow> nat \<Rightarrow> kernel \<Rightarrow> addr \<Rightarrow> nat \<Rightarrow> 8 word list option res" where
  "view M i k va n = copyin (m_layout M) (p_pagetable (proc_at k i)) va n (k_vm k)"

lemma view_same:
  assumes "layout_ok (m_layout M)" "kinv M k" "live k i" "kinv M k'" "live k' i" "i < NPROC"
    and "\<forall>x \<in> slot_memory (m_layout M) i. vm_mem (k_vm k') x = vm_mem (k_vm k) x"
  shows "view M i k' va n = view M i k va n"
proof -
  have "user_bytes (m_layout M) i (vm_mem (k_vm k')) va n = user_bytes (m_layout M) i (vm_mem (k_vm k)) va n"
    using assms(7) by (intro user_bytes_cong) simp
  then show ?thesis unfolding view_def live_view [OF assms(1,2,6,3)] live_view [OF assms(1,4,6,5)] by simp
qed

text \<open>Between two moments at which the process runs.\<close>

lemma away_returns:
  assumes "layout_ok (m_layout M)" "system_ok F M h1 d k1" "i < NPROC" "kept M i G (vm_mem (k_vm k1)) h1 d k1"
    and "away F M i (h1, d, k1) (h2, i, k2)"
  obtains g where "g \<in> G" "resumes h2 g" "\<forall>va n. view M i k2 va n = view M i k1 va n" "system_ok F M h2 i k2"
proof -
  have s: "system_ok F M h2 i k2" "kept M i G (vm_mem (k_vm k1)) h2 i k2"
    using away_kept [OF assms(1,5,3) refl assms(2,4)] by simp_all
  note ok = system_okD [OF assms(1,2)] system_okD [OF assms(1) s(1)]
  have "live k1 i" "live k2 i" using alive_live(1) assms(4) s(2) by (auto simp: kept_def)
  then have "view M i k2 va n = view M i k1 va n" for va n
    using view_same [OF assms(1) ok(9) _ ok(19) _ assms(3)] s(2) by (simp add: kept_def)
  then show thesis using that s by (auto simp: kept_def)
qed

text \<open>The caller's side of a trap: its frame, and what it does not change.\<close>

lemma trap_frame:
  assumes "layout_ok (m_layout M)" "system_ok F M h c k" "user_trap F M rounds regs m cause h k = Done (h1, t, k1)"
  obtains d f where "t = User d" "trap_handler M rounds (user_frame M c cause h) k = Done (User d, k1)" "system_ok F M h1 d k1"
    "returned (user_frame M c cause h) f" "p_tf (proc_at k1 c) = f" "d = c \<Longrightarrow> resumes h1 f"
proof -
  obtain d where d: "t = User d" "trap_handler M rounds (user_frame M c cause h) k = Done (User d, k1)" "system_ok F M h1 d k1"
    "resumes h1 (p_tf (proc_at k1 d))"
    by (rule system_trap [OF assms])
  obtain f where "returned (user_frame M c cause h) f" "leaves M (call_frame (user_frame M c cause h)) c k f k1"
    using trap_leaves [OF system_okD(2,3) [OF assms(1,2)] _ d(2)] by auto
  then show thesis using that d by (auto simp: leaves_def)
qed

lemma returned_regs:
  assumes "returned (user_frame M c cause h) f" "r < 32"
  shows "(cause = SCAUSE_ECALL_U \<longrightarrow> r \<noteq> 10) \<Longrightarrow> tf_regs f ! r = xreg h r" "tf_sepc f = (if cause = SCAUSE_ECALL_U then h_pc h + 4 else h_pc h)"
  using assms by (auto simp: returned_def set_reg_def call_frame_def split: if_splits)

lemma timer_returns:
  assumes "layout_ok (m_layout M)" "system_ok F M h c k" "user_trap F M rounds regs m SCAUSE_STIMER h k = Done (h1, User d, k1)"
    and "away F M c (h1, d, k1) (h2, c, k2)"
  shows "continues h2 {} (xreg h) (h_pc h)" "view M c k2 va n = view M c k va n"
proof -
  let ?tf = "user_frame M c SCAUSE_STIMER h"
  note ok = system_okD [OF assms(1,2)]
  obtain f where f: "trap_handler M rounds ?tf k = Done (User d, k1)" "system_ok F M h1 d k1"
    "returned ?tf f" "p_tf (proc_at k1 c) = f" "d = c \<Longrightarrow> resumes h1 f"
    by (rule trap_frame [OF assms(1-3)]) auto
  have rg: "tf_regs f ! r = xreg h r" "tf_sepc f = h_pc h" if "r < 32" for r
    using returned_regs [OF f(3) that] by (simp_all add: SCAUSE_STIMER_def SCAUSE_ECALL_U_def)
  note ok1 = system_okD [OF assms(1) f(2)]
  obtain i k' where i: "trap_handler M rounds ?tf k = Done (User i, k')" "i < NPROC"
    "\<forall>j < NPROC. j \<noteq> i \<longrightarrow> p_state (proc_at k' j) = (if j = c then P_RUNNABLE else p_state (wake (k_ticks k + 1) (proc_at k j)))" "k_vm k' = k_vm k"
    by (rule timer_interrupt [OF assms(1) ok(2,3), of ?tf rounds]) auto
  then have e: "i = d" "k' = k1" using f(1) by simp_all
  have r: "ready (proc_at k1 c)" using i(3) ok(4) one_runningD(3) [OF ok1(8,3)] e by (cases "c = d") (auto simp: ready_def)
  then have "kept M c {f} (vm_mem (k_vm k1)) h1 d k1" using f(4,5) by (auto simp: kept_def ready_def alive_def)
  then obtain g where g: "g \<in> {f}" "resumes h2 g" "\<forall>va n. view M c k2 va n = view M c k1 va n"
    using away_returns [OF assms(1) f(2) ok(4) _ assms(4)] by blast
  show "continues h2 {} (xreg h) (h_pc h)" using g(1,2) rg [of 0] rg(1) by (intro resumes_continues) auto
  have "view M c k1 va n = view M c k va n"
    by (rule view_same [OF assms(1) ok(9) one_runningD(4) [OF ok(8,3)] ok1(9) _ ok(4)]) (use r i(4) e in \<open>auto simp: ready_def\<close>)
  then show "view M c k2 va n = view M c k va n" using g(3) by simp
qed

lemma frame_fields:
  "tf_regs (set_reg r v f) = (tf_regs f)[r := v]" "tf_sepc (set_reg r v f) = tf_sepc f" "tf_regs (call_frame f) = tf_regs f"
  "tf_sepc (call_frame f) = tf_sepc f + 4" "tf_regs (child_frame M i f) = (tf_regs f)[10 := 0]" "tf_sepc (child_frame M i f) = tf_sepc f"
  by (simp_all add: set_reg_def call_frame_def child_frame_def)

text \<open>A system call through its stub.\<close>

lemma stub_call_simps:
  "h_pc (stub_call sy num at h) = at" "r \<noteq> 17 \<Longrightarrow> xreg (stub_call sy num at h) r = xreg h r" "xreg (stub_call sy num at h) 17 = num"
  by (simp_all add: stub_call_def step_defs)

lemma stub_call_ok: "layout_ok (m_layout M) \<Longrightarrow> system_ok F M h c k \<Longrightarrow> system_ok F M (stub_call sy num at h) c k"
  using system_step_ok [OF _ system_step.compute [where h = h and regs = "h_regs (stub_call sy num at h)" and pc = at]]
  by (simp add: stub_call_def set_x_def)

lemma call_returns:
  assumes "layout_ok (m_layout M)" "system_ok F M h c k"
    and "user_trap F M rounds regs m SCAUSE_ECALL_U (stub_call sy num at h) k = Done (h1, User d, k1)" "alive (proc_at k1 c)"
    and "away F M c (h1, d, k1) (h2, c, k2)"
  shows "continues h2 {10, 17} (xreg h) (at + 4)" "view M c k2 va n = view M c k1 va n"
proof -
  let ?h = "stub_call sy num at h"
  let ?tf = "user_frame M c SCAUSE_ECALL_U ?h"
  obtain f where f: "system_ok F M h1 d k1" "returned ?tf f" "p_tf (proc_at k1 c) = f" "d = c \<Longrightarrow> resumes h1 f"
    by (rule trap_frame [OF assms(1) stub_call_ok [OF assms(1,2)] assms(3)]) auto
  let ?G = "range (\<lambda>v. set_reg 10 v f)"
  have "f = set_reg 10 (tf_regs f ! 10) f" by (simp add: set_reg_def)
  then have fG: "f \<in> ?G" by (rule range_eqI)
  have "set_reg 10 v g \<in> ?G" if gG: "g \<in> ?G" for v g
  proof -
    obtain w where "g = set_reg 10 w f" using gG by blast
    then have "set_reg 10 v g = set_reg 10 v f" by (simp add: set_reg_def)
    then show ?thesis by (rule range_eqI)
  qed
  then have "kept M c ?G (vm_mem (k_vm k1)) h1 d k1" unfolding kept_def f(3) using fG f(4) assms(4) by blast
  then obtain g where g: "g \<in> ?G" "resumes h2 g" "\<forall>va n. view M c k2 va n = view M c k1 va n" "system_ok F M h2 c k2"
    by (rule away_returns [OF assms(1) f(1) system_okD(4) [OF assms(1,2)] _ assms(5)])
  have "tf_regs f ! r = xreg h r" if "r < 32" "r \<notin> {10, 17}" for r
    using returned_regs(1) [OF f(2) that(1)] that(2) by (simp add: stub_call_simps)
  moreover have "tf_sepc f = at + 4" using returned_regs(2) [OF f(2), of 0] by (simp add: stub_call_simps)
  ultimately show "continues h2 {10, 17} (xreg h) (at + 4)"
    using g(1) by (intro resumes_continues [OF g(2)]) (auto simp: frame_fields)
  show "view M c k2 va n = view M c k1 va n" using g(3) by simp
qed

lemma user_trap_Done:
  assumes "layout_ok (m_layout M)" "system_ok F M h c k" "trap_handler M rounds (user_frame M c cause h) k = Done (t, k')"
  obtains h' where "user_trap F M rounds regs m cause h k = Done (h', t, k')"
proof -
  note ok = system_okD [OF assms(1,2)]
  have "frame_safe M c (p_tf (proc_at k c))" using ok(4,6) by (simp add: frames_safe_def)
  note e = trap_entry [where cause = cause, OF ok(5,4) this]
  show thesis using that assms(3) e(1,3) unfolding user_trap_def Let_def by simp
qed

lemma fork_returns:
  assumes "layout_ok (m_layout M)" "lay_kernel_end (m_layout M) \<le> 0x84000000" "system_ok F M h c k" "unused_slot k = Some i"
  obtains h1 k1 where "user_trap F M rounds regs m SCAUSE_ECALL_U (stub_call sy SYS_FORK at h) k = Done (h1, User c, k1)"
    "system_ok F M h1 c k1" "continues h1 {10, 17} (xreg h) (at + 4)" "xreg h1 10 = of_int (k_next_pid k)" "p_state (proc_at k1 i) = P_RUNNABLE"
    "\<forall>j < NPROC. j \<noteq> c \<longrightarrow> j \<noteq> i \<longrightarrow> proc_at k1 j = proc_at k j"
    "\<And>h2 k2. away F M i (h1, c, k1) (h2, i, k2) \<Longrightarrow>
       continues h2 {10, 17} (xreg h) (at + 4) \<and> xreg h2 10 = 0 \<and> (\<forall>va n. view M i k2 va n = view M c k va n)"
proof -
  let ?h = "stub_call sy SYS_FORK at h"
  let ?tf = "user_frame M c SCAUSE_ECALL_U ?h"
  have okh: "system_ok F M ?h c k" by (rule stub_call_ok [OF assms(1,3)])
  note ok = system_okD [OF assms(1,3)]
  have i: "i < NPROC" "i \<noteq> c" using unused_slot_SomeD [OF assms(4) ok(10)] one_runningD(4) [OF ok(8,3)] by auto
  obtain k1 where k1: "trap_handler M rounds ?tf k = Done (User c, k1)"
    "proc_at k1 c = (proc_at k c)\<lparr>p_tf := set_reg 10 (of_int (k_next_pid k)) (call_frame ?tf)\<rparr>" "p_state (proc_at k1 i) = P_RUNNABLE"
    "p_tf (proc_at k1 i) = child_frame M i (call_frame ?tf)" "\<And>va n. view M i k1 va n = view M c k va n"
    "\<forall>j < NPROC. j \<noteq> c \<longrightarrow> j \<noteq> i \<longrightarrow> proc_at k1 j = proc_at k j"
    using fork_trap [OF assms(1,2) ok(7), of ?tf rounds] assms(4) by (auto simp: stub_call_simps view_def child_frame_def)
  obtain h1 where t: "user_trap F M rounds regs m SCAUSE_ECALL_U ?h k = Done (h1, User c, k1)"
    by (rule user_trap_Done [OF assms(1) okh k1(1)])
  obtain f where f: "system_ok F M h1 c k1" "p_tf (proc_at k1 c) = f" "resumes h1 f"
    by (rule trap_frame [OF assms(1) okh t]) auto
  have regs: "tf_regs ?tf ! r = xreg h r" if "r < 32" "r \<notin> {10, 17}" for r using that by (simp add: stub_call_simps)
  have fr: "f = set_reg 10 (of_int (k_next_pid k)) (call_frame ?tf)" using f(2) k1(2) by simp
  have p: "continues h1 {10, 17} (xreg h) (at + 4)"
    using regs by (intro resumes_continues [OF f(3)]) (simp_all add: fr frame_fields stub_call_simps)
  have p10: "xreg h1 10 = of_int (k_next_pid k)" using resumes_regs(1) [OF f(3), of 10] by (simp add: fr frame_fields)
  let ?f = "child_frame M i (call_frame ?tf)"
  have "kept M i {?f} (vm_mem (k_vm k1)) h1 c k1" using k1(3,4) i(2) by (simp add: kept_def ready_def alive_def)
  then have child: "continues h2 {10, 17} (xreg h) (at + 4) \<and> xreg h2 10 = 0 \<and> (\<forall>va n. view M i k2 va n = view M c k va n)"
    if "away F M i (h1, c, k1) (h2, i, k2)" for h2 k2
  proof (rule away_returns [OF assms(1) f(1) i(1) _ that])
    fix g assume g: "g \<in> {?f}" "resumes h2 g" "\<forall>va n. view M i k2 va n = view M i k1 va n"
    then have r: "resumes h2 ?f" by simp
    have "continues h2 {10, 17} (xreg h) (at + 4)"
      using regs by (intro resumes_continues [OF r]) (simp_all add: frame_fields stub_call_simps)
    moreover have "xreg h2 10 = 0" using resumes_regs(1) [OF r, of 10] by (simp add: frame_fields)
    ultimately show ?thesis using g(3) k1(5) by simp
  qed
  show thesis by (rule that [OF t f(1) p p10 k1(3,6) child])
qed

text \<open>The numbers of the stubs are those the kernel decodes.\<close>

lemma stub_numbers:
  "map_of syscall_stubs ''sys_read'' = Some SYS_READ" "map_of syscall_stubs ''sys_write'' = Some SYS_WRITE"
  "map_of syscall_stubs ''sys_fork'' = Some SYS_FORK" "map_of syscall_stubs ''sys_exit'' = Some SYS_EXIT"
  "map_of syscall_stubs ''sys_wait'' = Some SYS_WAIT" "map_of syscall_stubs ''sys_getpid'' = Some SYS_GETPID"
  "map_of syscall_stubs ''sys_sleep'' = Some SYS_SLEEP" "map_of syscall_stubs ''sys_ps'' = Some SYS_PS"
  "map_of syscall_stubs ''sys_ls'' = Some SYS_LS" "map_of syscall_stubs ''sys_cat'' = Some SYS_CAT"
  by (simp_all add: syscall_stubs_def sysnums)

section \<open>Two processes\<close>

lemma forked_hart:
  obtains h k where "system_reachable sample_placement sample_machine (h, 0, k)" "p_state (proc_at k 1) = P_RUNNABLE"
    "\<forall>i < NPROC. i \<noteq> 0 \<longrightarrow> i \<noteq> 1 \<longrightarrow> \<not> live k i"
proof -
  let ?F = sample_placement and ?M = sample_machine
  obtain h k where h: "system_reachable ?F ?M (h, 0, k)" "unused_slot k = Some 1" "\<forall>i < NPROC. i \<noteq> 0 \<longrightarrow> \<not> live k i"
    by (rule booted_hart)
  have ok: "system_ok ?F ?M h 0 k" using system_reachableD h(1) by simp
  obtain h1 k1 where t: "user_trap ?F ?M 0 (\<lambda>r. 0) (\<lambda>x. 0) SCAUSE_ECALL_U (stub_call (b_sym ?F) SYS_FORK 0x40000000 h) k = Done (h1, User 0, k1)"
    and k1: "p_state (proc_at k1 1) = P_RUNNABLE" "\<forall>j < NPROC. j \<noteq> 0 \<longrightarrow> j \<noteq> 1 \<longrightarrow> proc_at k1 j = proc_at k j"
    by (rule fork_returns [OF sample_machine_ok ok h(2)])
  have "system_step ?F ?M (h, 0, k) (stub_call (b_sym ?F) SYS_FORK 0x40000000 h, 0, k)"
    using system_step.compute [where h = h and regs = "h_regs (stub_call (b_sym ?F) SYS_FORK 0x40000000 h)" and pc = "0x40000000"]
    by (simp add: stub_call_def set_x_def)
  then have "system_reachable ?F ?M (stub_call (b_sym ?F) SYS_FORK 0x40000000 h, 0, k)" by (rule system_reachable.step [OF h(1)])
  then have "system_reachable ?F ?M (h1, 0, k1)" using system_step.trap [OF t] by (rule system_reachable.step)
  then show thesis using that k1 h(3) by simp
qed

lemma timer_alternates:
  assumes "layout_ok (m_layout M)" "system_ok F M h c k" "c = 0 \<and> d = 1 \<or> c = 1 \<and> d = 0" "p_state (proc_at k d) = P_RUNNABLE"
    and "\<forall>i < NPROC. i \<noteq> 0 \<longrightarrow> i \<noteq> 1 \<longrightarrow> \<not> live k i"
  obtains h1 k1 where "user_trap F M 0 regs m SCAUSE_STIMER h k = Done (h1, User d, k1)" "system_ok F M h1 d k1"
    "p_state (proc_at k1 c) = P_RUNNABLE" "\<forall>i < NPROC. i \<noteq> 0 \<longrightarrow> i \<noteq> 1 \<longrightarrow> \<not> live k1 i"
proof -
  let ?tf = "user_frame M c SCAUSE_STIMER h"
  note ok = system_okD [OF assms(1,2)]
  obtain i k1 where i: "trap_handler M 0 ?tf k = Done (User i, k1)" "i < NPROC" "ready_at_tick k i"
    "\<forall>j < NPROC. ready_at_tick k j \<longrightarrow> distance (int c) i \<le> distance (int c) j"
    "\<forall>j < NPROC. j \<noteq> i \<longrightarrow> p_state (proc_at k1 j) = (if j = c then P_RUNNABLE else p_state (wake (k_ticks k + 1) (proc_at k j)))"
    by (rule timer_interrupt [OF assms(1) ok(2,3), of ?tf 0]) auto
  have "ready_at_tick k d" using assms(4) by (simp add: ready_at_tick_def wake_def)
  then have "distance (int c) i \<le> distance (int c) d" using i(4) assms(3) by auto
  moreover have "distance (int c) d < distance (int c) c" using assms(3) by (auto simp: distance_def)
  ultimately have "i \<noteq> c" by auto
  moreover have "i = 0 \<or> i = 1" using i(2,3) assms(3,5) ok(3) by (auto simp: ready_at_tick_def wake_def split: if_splits)
  ultimately have id: "i = d" using assms(3) by auto
  obtain h1 where t: "user_trap F M 0 regs m SCAUSE_STIMER h k = Done (h1, User d, k1)"
    using user_trap_Done [OF assms(1,2) i(1)] id by blast
  then have "system_ok F M h1 d k1" using system_trap [OF assms(1,2)] by blast
  moreover have "p_state (proc_at k1 c) = P_RUNNABLE" using i(5) ok(4) \<open>i \<noteq> c\<close> by auto
  moreover have "\<not> live k1 j" if "j < NPROC" "j \<noteq> 0" "j \<noteq> 1" for j
  proof -
    have "p_state (proc_at k1 j) = p_state (wake (k_ticks k + 1) (proc_at k j))" using i(5) that id assms(3) by auto
    then show ?thesis using assms(5) that by (auto simp: wake_def)
  qed
  ultimately show thesis using that t by blast
qed

section \<open>The properties\<close>

text \<open>
  C3: The assembly implements the trap of the kernel. In every state that the machine can reach from booting, by user code
  of any kind, the kernel is in a state of its own state machine, the hart is in user mode with the page table of the current
  process, and the frames in memory are those of the kernel. At a trap with any cause the entry code stores all registers of the user program,
  its address and the status in the frame of its own slot, calls the handler with this frame on the kernel stack of the slot, and leaves the frames of the
  others alone; and the trap never faults.
\<close>

theorem machine_implements_kernel:
  assumes "layout_ok (m_layout M)" "system_reachable F M (h, c, k)"
  shows "kernel_reachable M (User c, k) \<and> h_user h \<and> h_csr h Satp = vm_satp (p_pagetable (proc_at k c)) \<and>
    (\<forall>j < NPROC. frame_at (frame_addr F j) (h_mem h) = p_tf (proc_at k j)) \<and>
    (let h0 = take_trap cause h; h1 = exec (b_sym F) user_trap_entry_code h0; f = frame_at (frame_addr F c) (h_mem h1) in
       h_pc h0 = b_sym F Sym_user_trap_entry \<and> xreg h1 10 = frame_addr F c \<and> xreg h1 2 = kstack_top M c \<and>
       tf_regs f = map (xreg h) [0..<32] \<and> tf_sepc f = h_pc h \<and> tf_scause f = cause \<and> tf_kernel_sp f = kstack_top M c \<and> \<not> bit (tf_sstatus f) 8 \<and>
       (\<forall>j < NPROC. j \<noteq> c \<longrightarrow> frame_at (frame_addr F j) (h_mem h1) = p_tf (proc_at k j))) \<and>
    (\<forall>rounds regs m e. user_trap F M rounds regs m cause h k \<noteq> Fault e)"
proof -
  let ?h0 = "take_trap cause h"
  let ?h1 = "exec (b_sym F) user_trap_entry_code ?h0"
  note ok = system_okD [OF assms(1) system_reachableD [OF assms(1,2)]]
  have fs: "frame_safe M c (p_tf (proc_at k c))" using ok(4,6) by (simp add: frames_safe_def)
  note e = trap_entry [where cause = cause, OF ok(5,4) fs]
  have a0: "xreg ?h1 10 = frame_addr F c"
    using entry.saves_calls(1) [where sy = "b_sym F" and h = ?h0] ok(5) by (simp add: agrees_def take_trap_def Let_def)
  have f: "frame_at (frame_addr F c) (h_mem ?h1) = user_frame M c cause h" using e(1) a0 by simp
  have "trap_handler M rounds (user_frame M c cause h) k \<noteq> Fault x" for rounds x
    using trap_handler_safe [OF assms(1) ok(2,3) user_frame_simps(1) [of M c cause h] UNIV_I subset_UNIV, of rounds] by (auto simp: safe_def split: run.splits)
  then have "user_trap F M rounds regs m cause h k \<noteq> Fault x" for rounds regs m x
    using e(1,3) by (cases "trap_handler M rounds (user_frame M c cause h) k") (auto simp: user_trap_def Let_def)
  moreover have "tf_regs (user_frame M c cause h) = map (xreg h) [0..<32]" by (simp add: user_frame_def Let_def)
  moreover have "tf_kernel_sp (user_frame M c cause h) = kstack_top M c" "\<not> bit (tf_sstatus (user_frame M c cause h)) 8"
    using user_frame_safe by (simp_all add: frame_safe_def)
  ultimately show ?thesis
    unfolding Let_def f using ok(1,5,7) e(2-4) a0 by (simp add: agrees_def frames_agree_def runs_def)
qed

theorem machine_implements_kernel_witness:
  "\<exists>h k. system_reachable sample_placement sample_machine (h, 0, k) \<and> kernel_reachable sample_machine (User 0, k) \<and> h_user h \<and>
     (\<forall>e. user_trap sample_placement sample_machine 0 (\<lambda>r. 0) (\<lambda>x. 0) SCAUSE_STIMER h k \<noteq> Fault e)"
proof -
  obtain h k where h: "system_reachable sample_placement sample_machine (h, 0, k)" by (rule booted_hart)
  show ?thesis using machine_implements_kernel [OF sample_machine_ok(1) h, of SCAUSE_STIMER] h by blast
qed

text \<open>
  C4: Preemption is invisible. When a timer interrupt takes the hart from a process, then whatever the other processes do
  until it runs again, it continues at the instruction it was interrupted at, with all its registers and its whole memory
  as they were.
\<close>

theorem preemption_invisible:
  assumes "layout_ok (m_layout M)" "system_reachable F M (h, c, k)"
    and "user_trap F M rounds regs m SCAUSE_STIMER h k = Done (h1, User d, k1)" "away F M c (h1, d, k1) (h2, c, k2)"
  shows "(\<forall>r < 32. xreg h2 r = xreg h r) \<and> h_pc h2 = h_pc h \<and>
    copyin (m_layout M) (p_pagetable (proc_at k2 c)) va n (k_vm k2) = copyin (m_layout M) (p_pagetable (proc_at k c)) va n (k_vm k)"
proof -
  note t = timer_returns [OF assms(1) system_reachableD [OF assms(1,2)] assms(3,4)]
  show ?thesis using t(1) t(2) [of va n] by (simp add: continues_def view_def)
qed

theorem preemption_invisible_witness:
  "\<exists>h k h1 k1 h2 k2. system_reachable sample_placement sample_machine (h, 0, k) \<and>
     user_trap sample_placement sample_machine 0 (\<lambda>r. 1) (\<lambda>x. 2) SCAUSE_STIMER h k = Done (h1, User 1, k1) \<and>
     user_trap sample_placement sample_machine 0 (\<lambda>r. 3) (\<lambda>x. 4) SCAUSE_STIMER h1 k1 = Done (h2, User 0, k2) \<and>
     (\<forall>r < 32. xreg h2 r = xreg h r) \<and> h_pc h2 = h_pc h"
proof -
  let ?F = sample_placement and ?M = sample_machine
  obtain h k where h: "system_reachable ?F ?M (h, 0, k)" "p_state (proc_at k 1) = P_RUNNABLE" "\<forall>i < NPROC. i \<noteq> 0 \<longrightarrow> i \<noteq> 1 \<longrightarrow> \<not> live k i"
    by (rule forked_hart)
  have ok: "system_ok ?F ?M h 0 k" using system_reachableD h(1) by simp
  obtain h1 k1 where a: "user_trap ?F ?M 0 (\<lambda>r. 1) (\<lambda>x. 2) SCAUSE_STIMER h k = Done (h1, User 1, k1)" "system_ok ?F ?M h1 1 k1"
    "p_state (proc_at k1 0) = P_RUNNABLE" "\<forall>i < NPROC. i \<noteq> 0 \<longrightarrow> i \<noteq> 1 \<longrightarrow> \<not> live k1 i"
    by (rule timer_alternates [OF sample_machine_ok(1) ok _ h(2,3)]) auto
  obtain h2 k2 where b: "user_trap ?F ?M 0 (\<lambda>r. 3) (\<lambda>x. 4) SCAUSE_STIMER h1 k1 = Done (h2, User 0, k2)"
    by (rule timer_alternates [OF sample_machine_ok(1) a(2) _ a(3,4)]) auto
  have "away ?F ?M 0 (h1, 1, k1) (h2, 0, k2)" by (rule away.other [OF away.stay _ system_step.trap [OF b]]) simp
  then show ?thesis using preemption_invisible [OF sample_machine_ok(1) h(1) a(1)] h(1) a(1) b by blast
qed

text \<open>
  C21: A system call is a function call to the program. The stub, called with the number \<open>num\<close>, traps at
  the address \<open>at\<close>; when the process runs again, however long the kernel blocked it and whatever the others
  did, it continues behind the trap with all registers as they were, but for the result in a0 and the number in a7, so that
  the stub returns to its caller; and its memory is what the call left. This holds unless the call ended the
  process.
\<close>

theorem system_call_returns:
  assumes "layout_ok (m_layout M)" "system_reachable F M (h, c, k)"
    and "user_trap F M rounds regs m SCAUSE_ECALL_U (stub_call (b_sym F) num at h) k = Done (h1, User d, k1)"
    and "p_state (proc_at k1 c) \<notin> {P_UNUSED, P_ZOMBIE}" "away F M c (h1, d, k1) (h2, c, k2)"
  shows "(\<forall>r < 32. r \<noteq> 10 \<longrightarrow> r \<noteq> 17 \<longrightarrow> xreg (ret h2) r = xreg h r) \<and> h_pc h2 = at + 4 \<and> h_pc (ret h2) = xreg h 1 \<and>
    copyin (m_layout M) (p_pagetable (proc_at k2 c)) va n (k_vm k2) = copyin (m_layout M) (p_pagetable (proc_at k1 c)) va n (k_vm k1)"
proof -
  have "alive (proc_at k1 c)" using assms(4) by (cases "p_state (proc_at k1 c)") (auto simp: alive_def)
  note t = call_returns [OF assms(1) system_reachableD [OF assms(1,2)] assms(3) this assms(5)]
  have "xreg (ret h2) r = xreg h2 r" for r by (simp add: ret_def xreg_def)
  then show ?thesis using t(1) t(2) [of va n] by (simp add: continues_def view_def ret_def)
qed

theorem system_call_returns_witness:
  "\<exists>h k h1 k1. system_reachable sample_placement sample_machine (h, 0, k) \<and>
     user_trap sample_placement sample_machine 0 (\<lambda>r. 1) (\<lambda>x. 2) SCAUSE_ECALL_U (stub_call (b_sym sample_placement) SYS_FORK 0x40000010 h) k = Done (h1, User 0, k1) \<and>
     (\<forall>r < 32. r \<noteq> 10 \<longrightarrow> r \<noteq> 17 \<longrightarrow> xreg (ret h1) r = xreg h r) \<and> h_pc h1 = 0x40000014"
proof -
  let ?F = sample_placement and ?M = sample_machine
  obtain h k where h: "system_reachable ?F ?M (h, 0, k)" "unused_slot k = Some 1" by (rule booted_hart)
  have ok: "system_ok ?F ?M h 0 k" using system_reachableD h(1) by simp
  obtain h1 k1 where t: "user_trap ?F ?M 0 (\<lambda>r. 1) (\<lambda>x. 2) SCAUSE_ECALL_U (stub_call (b_sym ?F) SYS_FORK 0x40000010 h) k = Done (h1, User 0, k1)"
    and ok1: "system_ok ?F ?M h1 0 k1" by (rule fork_returns [OF sample_machine_ok ok h(2)])
  have "p_state (proc_at k1 0) = P_RUNNING" using system_okD(3,8) [OF sample_machine_ok(1) ok1] one_runningD(3) by blast
  then have "p_state (proc_at k1 0) \<notin> {P_UNUSED, P_ZOMBIE}" by simp
  from system_call_returns [OF sample_machine_ok(1) h(1) t this away.stay] show ?thesis using h(1) t by auto
qed

text \<open>
  C5: Fork returns twice. Called through its stub by a running program when a slot is free, it returns to the caller
  at once with the new process id, and when the child first runs, whatever has happened since, it continues
  behind the same call with result 0; both have the registers of the caller, and the child reads in its memory what the caller read at the call.
\<close>

theorem fork_returns_twice:
  assumes "layout_ok (m_layout M)" "lay_kernel_end (m_layout M) \<le> 0x84000000" "system_reachable F M (h, c, k)" "unused_slot k = Some i"
  shows "\<exists>h1 k1. user_trap F M rounds regs m SCAUSE_ECALL_U (stub_call (b_sym F) SYS_FORK at h) k = Done (h1, User c, k1) \<and>
    h_pc h1 = at + 4 \<and> xreg h1 10 = of_int (k_next_pid k) \<and> (\<forall>r < 32. r \<noteq> 10 \<longrightarrow> r \<noteq> 17 \<longrightarrow> xreg h1 r = xreg h r) \<and>
    p_state (proc_at k1 i) = P_RUNNABLE \<and>
    (\<forall>h2 k2. away F M i (h1, c, k1) (h2, i, k2) \<longrightarrow>
       h_pc h2 = at + 4 \<and> xreg h2 10 = 0 \<and> (\<forall>r < 32. r \<noteq> 10 \<longrightarrow> r \<noteq> 17 \<longrightarrow> xreg h2 r = xreg h r) \<and>
       (\<forall>va n. copyin (m_layout M) (p_pagetable (proc_at k2 i)) va n (k_vm k2) = copyin (m_layout M) (p_pagetable (proc_at k c)) va n (k_vm k)))"
proof -
  obtain h1 k1 where t: "user_trap F M rounds regs m SCAUSE_ECALL_U (stub_call (b_sym F) SYS_FORK at h) k = Done (h1, User c, k1)"
    "continues h1 {10, 17} (xreg h) (at + 4)" "xreg h1 10 = of_int (k_next_pid k)" "p_state (proc_at k1 i) = P_RUNNABLE"
    and child: "\<And>h2 k2. away F M i (h1, c, k1) (h2, i, k2) \<Longrightarrow>
      continues h2 {10, 17} (xreg h) (at + 4) \<and> xreg h2 10 = 0 \<and> (\<forall>va n. view M i k2 va n = view M c k va n)"
    by (rule fork_returns [OF assms(1,2) system_reachableD [OF assms(1,3)] assms(4)]) blast
  show ?thesis
    by (rule exI [of _ h1], rule exI [of _ k1]) (use t child in \<open>auto simp: continues_def view_def\<close>)
qed

theorem fork_returns_twice_witness:
  "\<exists>h k h1 k1 h2 k2. system_reachable sample_placement sample_machine (h, 0, k) \<and>
     user_trap sample_placement sample_machine 0 (\<lambda>r. 0) (\<lambda>x. 0) SCAUSE_ECALL_U (stub_call (b_sym sample_placement) SYS_FORK 0x40000010 h) k = Done (h1, User 0, k1) \<and>
     user_trap sample_placement sample_machine 0 (\<lambda>r. 1) (\<lambda>x. 2) SCAUSE_STIMER h1 k1 = Done (h2, User 1, k2) \<and>
     xreg h1 10 = 2 \<and> xreg h2 10 = 0 \<and> h_pc h2 = h_pc h1"
proof -
  let ?F = sample_placement and ?M = sample_machine
  obtain h k where h: "system_reachable ?F ?M (h, 0, k)" "unused_slot k = Some 1" "k_next_pid k = 2" "\<forall>i < NPROC. i \<noteq> 0 \<longrightarrow> \<not> live k i" by (rule booted_hart)
  have ok: "system_ok ?F ?M h 0 k" using system_reachableD h(1) by simp
  obtain h1 k1 where t: "user_trap ?F ?M 0 (\<lambda>r. 0) (\<lambda>x. 0) SCAUSE_ECALL_U (stub_call (b_sym ?F) SYS_FORK 0x40000010 h) k = Done (h1, User 0, k1)"
    and k1: "system_ok ?F ?M h1 0 k1" "p_state (proc_at k1 1) = P_RUNNABLE" "\<forall>j < NPROC. j \<noteq> 0 \<longrightarrow> j \<noteq> 1 \<longrightarrow> proc_at k1 j = proc_at k j"
    by (rule fork_returns [OF sample_machine_ok ok h(2)])
  have dead: "\<forall>i < NPROC. i \<noteq> 0 \<longrightarrow> i \<noteq> 1 \<longrightarrow> \<not> live k1 i" using k1(3) h(4) by simp
  obtain h2 k2 where b: "user_trap ?F ?M 0 (\<lambda>r. 1) (\<lambda>x. 2) SCAUSE_STIMER h1 k1 = Done (h2, User 1, k2)"
    by (rule timer_alternates [OF sample_machine_ok(1) k1(1) _ k1(2) dead]) auto
  have "away ?F ?M 1 (h1, 0, k1) (h2, 1, k2)" by (rule away.other [OF away.stay _ system_step.trap [OF b]]) simp
  then have "h_pc h2 = h_pc h1" "xreg h2 10 = 0" "xreg h1 10 = 2"
    using fork_returns_twice [OF sample_machine_ok h(1,2), of 0 "\<lambda>r. 0" "\<lambda>x. 0" "0x40000010"] t h(3) by auto
  then show ?thesis using h(1) t b by blast
qed

section \<open>Switching contexts and booting\<close>

text \<open>
  Switching away and back. \<^verbatim>\<open>swtch\<close> stores what a function must keep for its caller, the return address, the stack pointer
  and s0 to s11, in the first context and continues with those of the second one; a later switch to the first
  context, if it was not written in between, returns to the first caller with exactly these registers.
\<close>

theorem swtch_round_trip:
  assumes "xreg h 11 - xreg h 10 \<ge> 112" "xreg h 10 - xreg h 11 \<ge> 112"
    and "xreg h2 11 = xreg h 10" "xreg h2 11 - xreg h2 10 \<ge> 112" "xreg h2 10 - xreg h2 11 \<ge> 112"
    and "context_at (xreg h 10) (h_mem h2) = context_at (xreg h 10) (h_mem (swtch sy h))"
  shows "context_of (swtch sy h) = context_at (xreg h 11) (h_mem h) \<and> h_pc (swtch sy h) = h_mem h (xreg h 11) \<and>
    context_of (swtch sy h2) = context_of h \<and> h_pc (swtch sy h2) = xreg h 1"
proof -
  have c: "context_at (xreg h2 11) (h_mem h2) = context_of h" using swtch_saves [of h sy] assms(3,6) by simp
  show ?thesis
    using swtch_loads [OF assms(1,2), of sy] swtch_loads [OF assms(4,5), of sy] c by (simp add: context_at_def context_of_def)
qed

definition switch_hart :: "addr \<Rightarrow> addr \<Rightarrow> hart" where
  "switch_hart a b = \<lparr>h_regs = (\<lambda>r. of_nat (100 + r))(10 := a, 11 := b), h_csr = (\<lambda>r. 0), h_mem = (\<lambda>x. x), h_pc = 0, h_user = False\<rparr>"

theorem swtch_round_trip_witness:
  "let h = switch_hart 0x1000 0x2000; h1 = swtch (\<lambda>s. 0) h; h2 = set_x 10 0x2000 (set_x 11 0x1000 h1); h3 = swtch (\<lambda>s. 0) h2 in
   h_pc h1 = 0x2000 \<and> xreg h1 2 = 0x2008 \<and> h_pc h3 = 101 \<and> xreg h3 2 = 102 \<and> context_of h3 = context_of h"
proof -
  let ?h = "switch_hart 0x1000 0x2000"
  let ?h2 = "set_x 10 0x2000 (set_x 11 0x1000 (swtch (\<lambda>s. 0) ?h))"
  have r: "xreg ?h 10 = 0x1000" "xreg ?h 11 = 0x2000" "xreg ?h2 10 = 0x2000" "xreg ?h2 11 = 0x1000" "xreg ?h 1 = 101" "xreg ?h 2 = 102"
    "h_mem ?h2 = h_mem (swtch (\<lambda>s. 0) ?h)" "h_mem ?h = (\<lambda>x. x)"
    by (simp_all add: switch_hart_def step_defs)
  have s: "context_of (swtch (\<lambda>s. 0) ?h) = context_at 0x2000 (\<lambda>x. x) \<and> h_pc (swtch (\<lambda>s. 0) ?h) = 0x2000 \<and>
      context_of (swtch (\<lambda>s. 0) ?h2) = context_of ?h \<and> h_pc (swtch (\<lambda>s. 0) ?h2) = 101"
    using swtch_round_trip [of ?h ?h2 "\<lambda>s. 0"] by (simp add: r del: One_nat_def)
  then have "ctx_sp (context_of (swtch (\<lambda>s. 0) ?h)) = 0x2008" "ctx_sp (context_of (swtch (\<lambda>s. 0) ?h2)) = 102"
    using r(6) by (simp_all add: context_at_def) (simp_all add: context_of_def)
  then show ?thesis using s by (simp add: Let_def context_of_def)
qed

text \<open>
  C40: The start code ends and clears the uninitialised variables: before \<^verbatim>\<open>main\<close> every word from the start of the section up
  to its end is 0, every other word of memory is untouched, address translation is off and the stack pointer is at the top of the boot stack.
\<close>

theorem boot_clears_bss:
  assumes "sy Sym_bss_start \<le> sy Sym_bss_end" "unat (sy Sym_bss_end) + 8 < 2 ^ 64"
  shows "\<exists>h'. boot_start sy h = Some h' \<and> xreg h' 2 = sy Sym_boot_stack_top \<and> h_csr h' Satp = 0 \<and>
    h_mem h' = (\<lambda>x. if \<exists>i. x = sy Sym_bss_start + of_nat (8 * i) \<and> unat (sy Sym_bss_start) + 8 * i < unat (sy Sym_bss_end) then 0 else h_mem h x)"
proof -
  let ?s = "sy Sym_bss_start" and ?e = "sy Sym_bss_end" and ?h = "exec sy boot_code h"
  let ?n = "(unat ?e - unat ?s + 7) div 8"
  have le: "unat ?s \<le> unat ?e" using assms(1) by (simp add: word_le_nat_alt)
  have n: "i < ?n \<longleftrightarrow> unat ?s + 8 * i < unat ?e" for i using le by auto
  have h: "xreg ?h 5 = ?s" "xreg ?h 6 = ?e" "xreg ?h 2 = sy Sym_boot_stack_top" "h_csr ?h Satp = 0" "h_mem ?h = h_mem h"
    by (simp_all add: boot_code_def step_defs)
  obtain h' where h': "clear_bss sy ?h = Some h'" "h_csr h' = h_csr ?h" "xreg h' 2 = xreg ?h 2"
    "h_mem h' = (\<lambda>x. if \<exists>i < ?n. x = ?s + of_nat (8 * i) then 0 else h_mem ?h x)"
    using clear_bss_clears [OF h(1,2), of ?n sy] le n [of "?n - 1"] assms(2) by fastforce
  have "(\<exists>i < ?n. x = ?s + of_nat (8 * i)) \<longleftrightarrow> (\<exists>i. x = ?s + of_nat (8 * i) \<and> unat ?s + 8 * i < unat ?e)" for x
    using n by blast
  note mem = h'(4) [unfolded this h(5)]
  show ?thesis unfolding boot_start_def mem [symmetric] using h' h(3,4) by simp
qed

theorem boot_clears_bss_witness:
  "\<exists>h'. boot_start (b_sym sample_placement) (switch_hart 0 0) = Some h' \<and> h_mem h' 0x80600000 = 0 \<and> h_mem h' 0x80600010 = 0 \<and>
     h_mem h' 0x80600018 = 0x80600018"
proof -
  let ?sy = "b_sym sample_placement"
  have sy: "?sy Sym_bss_start = 0x80600000" "?sy Sym_bss_end = 0x80600014" by (simp_all add: sample_placement_def)
  obtain h' where h': "boot_start ?sy (switch_hart 0 0) = Some h'"
    "h_mem h' = (\<lambda>x. if \<exists>i. x = 0x80600000 + of_nat (8 * i) \<and> 0x80600000 + 8 * i < (0x80600014 :: nat) then 0 else h_mem (switch_hart 0 0) x)"
    using boot_clears_bss [of ?sy "switch_hart 0 0"] by (auto simp: sy)
  have "(0x80600018 :: addr) \<noteq> 0x80600000 + of_nat (8 * i)" if "0x80600000 + 8 * i < (0x80600014 :: nat)" for i
  proof -
    have "i = 0 \<or> i = 1 \<or> i = 2" using that by auto
    then show ?thesis by auto
  qed
  then have "h_mem h' 0x80600018 = 0x80600018" by (auto simp: h'(2) switch_hart_def)
  moreover have "\<exists>i. (0x80600010 :: addr) = 0x80600000 + of_nat (8 * i) \<and> 0x80600000 + 8 * i < (0x80600014 :: nat)" by (intro exI [of _ 2]) simp
  moreover have "\<exists>i. (0x80600000 :: addr) = 0x80600000 + of_nat (8 * i) \<and> 0x80600000 + 8 * i < (0x80600014 :: nat)" by (intro exI [of _ 0]) simp
  ultimately show ?thesis using h' by (intro exI [of _ h']) (simp del: of_nat_mult)
qed

end
