(* ===== verification/Nano_Clock.thy ===== *)
theory Nano_Clock
  imports Nano_Calls
begin

text \<open>
  The timer of NanoBoot (\<^verbatim>\<open>kernel/timer.c\<close>): whatever the kernel does, when a user process runs the next timer interrupt
  has been requested.
\<close>

section \<open>The clock of the kernel\<close>

definition clock :: "kernel \<Rightarrow> 64 word \<times> (64 word \<Rightarrow> 64 word) \<times> 64 word \<times> bool" where
  "clock k = (k_ticks k, k_time k, k_deadline k, k_stie k)"

lemma clock_update [simp]:
  "clock (set_proc i f k) = clock k" "clock (k\<lparr>k_procs := ps\<rparr>) = clock k" "clock (k\<lparr>k_current := c\<rparr>) = clock k"
  "clock (k\<lparr>k_next_pid := n\<rparr>) = clock k" "clock (k\<lparr>k_last_slot := l\<rparr>) = clock k" "clock (k\<lparr>k_vm := v\<rparr>) = clock k"
  "clock (k\<lparr>k_satp := s\<rparr>) = clock k" "clock (k\<lparr>k_stvec := x\<rparr>) = clock k" "clock (k\<lparr>k_uart := u\<rparr>) = clock k"
  by (simp_all add: clock_def set_proc_def)

text \<open>An interrupt is requested for a fixed time after the last tick, and enabled.\<close>

definition armed :: "kernel \<Rightarrow> bool" where
  "armed k \<longleftrightarrow> k_stie k \<and> k_deadline k = k_time k (k_ticks k) + TIMER_TICKS"

lemma armed_cong: "clock k' = clock k \<Longrightarrow> armed k' = armed k"
  by (simp add: clock_def armed_def)

lemma armed_tick: "armed k \<Longrightarrow> armed (timer_tick k)"
  by (simp add: armed_def tick_defs r_time_def)

lemma armed_init: "armed (timer_init k)"
  by (simp add: armed_def timer_init_def sbi_time_set_def r_time_def Let_def)

section \<open>Operations that leave the clock alone\<close>

lemma clock_schedule [simp]: "clock (snd (proc_schedule k)) = clock k"
  by (simp add: proc_schedule_def split: option.splits)

lemma clock_scheduled: "proc_schedule k = (p, k') \<Longrightarrow> clock k' = clock k"
  using clock_schedule [of k] by simp

lemma clock_reschedule [simp]: "clock (reschedule k) = clock k"
  using clock_schedule [of k] by (cases "proc_schedule k") (simp add: reschedule_def)

lemma clock_tables:
  "destroy_pagetable M i k = Done k' \<Longrightarrow> clock k' = clock k" "switch_to_kernel_pt M k = Done k' \<Longrightarrow> clock k' = clock k"
  "clock (free_slot i k) = clock k" "clock (claim_slot i par k) = clock k" "of_uart u k = Done k' \<Longrightarrow> clock k' = clock k"
  by (auto simp: destroy_pagetable_def switch_to_kernel_pt_def free_slot_def claim_slot_def of_uart_def run_bind_Done vm_switch_def Let_def
      split: if_splits option.splits)

lemma clock_procs:
  "proc_fork M tf k = Done (r, k') \<Longrightarrow> clock k' = clock k" "proc_exit M status k = Done k' \<Longrightarrow> clock k' = clock k"
  "proc_wait M k = Done (w, k') \<Longrightarrow> clock k' = clock k" "clock (proc_sleep n k) = clock k"
proof -
  show "proc_fork M tf k = Done (r, k') \<Longrightarrow> clock k' = clock k"
    by (auto simp: proc_fork_def run_bind_Done Let_def clock_tables(4) split: option.splits if_splits)
  show "proc_exit M status k = Done k' \<Longrightarrow> clock k' = clock k"
    by (auto simp: proc_exit_def run_bind_Done Let_def clock_tables(3) dest!: clock_tables(1,2) split: option.splits if_splits)
  show "proc_wait M k = Done (w, k') \<Longrightarrow> clock k' = clock k"
    by (auto simp: proc_wait_def run_bind_Done Let_def clock_tables(3) dest!: clock_tables(1) split: option.splits if_splits)
  show "clock (proc_sleep n k) = clock k" by (simp add: proc_sleep_def split: option.splits)
qed

lemma clock_read_loop: "read_loop M pt uva i n k = Done (r, k') \<Longrightarrow> clock k' = clock k"
proof (induction n arbitrary: i k)
  case (Suc n)
  obtain ch u where g: "uart_getc (k_uart k) = Some (ch, u)" using Suc.prems by (cases "uart_getc (k_uart k)") auto
  then obtain rc v where v: "copyout (m_layout M) pt (uva + of_nat i) [char_byte ch] (k_vm k) = Inr (rc, v)"
    using Suc.prems by (cases "copyout (m_layout M) pt (uva + of_nat i) [char_byte ch] (k_vm k)") auto
  show ?case using Suc.prems g v Suc.IH [of "Suc i" "k\<lparr>k_uart := u, k_vm := v\<rparr>"] by (auto simp: Let_def split: if_splits)
qed simp

lemma clock_console:
  "sys_read M tf k = Done (r, k') \<Longrightarrow> clock k' = clock k" "sys_write M tf k = Done (r, k') \<Longrightarrow> clock k' = clock k"
  "sys_ps k = Done (r, k') \<Longrightarrow> clock k' = clock k" "sys_ls k = Done (r, k') \<Longrightarrow> clock k' = clock k"
  "sys_cat M tf k = Done (r, k') \<Longrightarrow> clock k' = clock k"
proof -
  show "sys_read M tf k = Done (r, k') \<Longrightarrow> clock k' = clock k"
    by (auto simp: sys_read_def run_bind_Done Let_def dest: clock_read_loop split: if_splits)
  show "sys_write M tf k = Done (r, k') \<Longrightarrow> clock k' = clock k"
    by (auto simp: sys_write_def run_bind_Done Let_def dest: clock_tables(5) split: option.splits)
  show "sys_ps k = Done (r, k') \<Longrightarrow> clock k' = clock k" "sys_ls k = Done (r, k') \<Longrightarrow> clock k' = clock k"
    by (auto simp: sys_ps_def sys_ls_def run_bind_Done dest: clock_tables(5))
  show "sys_cat M tf k = Done (r, k') \<Longrightarrow> clock k' = clock k"
    by (auto simp: sys_cat_def run_bind_Done case_prod_beta dest: clock_tables(5) split: option.splits)
qed

lemma clock_syscall: "syscall_dispatch M c k = Done k' \<Longrightarrow> clock k' = clock k"
proof -
  have "do_syscall M tf k = Done (ret, k1) \<Longrightarrow> clock k1 = clock k" for tf ret k1
    unfolding do_syscall_def Let_def sys_fork_def sys_wait_def sys_sleep_def
    by (auto simp: run_bind_Done clock_procs(4) split: if_splits dest: clock_console clock_procs(1-3))
  then show "syscall_dispatch M c k = Done k' \<Longrightarrow> clock k' = clock k" by (auto simp: syscall_dispatch_def run_bind_Done)
qed

lemma clock_switch: "switch_to M p k = Done k' \<Longrightarrow> clock k' = clock k"
  by (cases p) (auto simp: switch_to_def run_bind_Done vm_switch_def Let_def dest: clock_tables(2) split: if_splits)

lemma clock_resume: "resume M k = Done (t, k') \<Longrightarrow> clock k' = clock k"
proof -
  have "clock (case proc_schedule k of (None, k1) \<Rightarrow> k1 | (Some i, k1) \<Rightarrow> k1\<lparr>k_current := Some i\<rparr>) = clock k"
    by (auto dest: clock_scheduled split: prod.splits option.splits)
  then show "resume M k = Done (t, k') \<Longrightarrow> clock k' = clock k"
    unfolding resume_def Let_def by (auto simp: run_bind_Done dest!: clock_switch split: option.splits if_splits)
qed

section \<open>Traps keep the timer armed\<close>

lemma armed_timer_trap: "armed k \<Longrightarrow> armed (timer_trap k)"
proof -
  assume "armed k"
  then have a: "armed (timer_tick k)" by (rule armed_tick)
  have "clock (timer_trap k) = clock (timer_tick k)"
    by (auto simp: timer_trap_def Let_def dest: clock_scheduled split: option.splits prod.splits)
  then show ?thesis using a armed_cong by blast
qed

lemma armed_idle_wait: "idle_wait n k = Done k' \<Longrightarrow> armed k \<Longrightarrow> armed k'"
proof (induction n arbitrary: k)
  case (Suc n)
  have "armed (reschedule (timer_tick k))" using armed_tick [OF Suc.prems(2)] armed_cong clock_reschedule by blast
  then show ?case using Suc by (auto split: if_splits)
qed (auto split: if_splits)

lemma armed_trap:
  assumes "trap_handler M rounds tf k = Done (t, k')" "armed k" "k_current k = Some c"
  shows "armed k'"
proof -
  have bad: "clock k2 = clock k1" if "bad_trap M tf k1 = Done k2" for k1 k2
    using that by (auto simp: bad_trap_def run_bind_Done dest!: clock_tables(5) clock_procs(2))
  let ?k1 = "set_proc c (\<lambda>p. p\<lparr>p_tf := tf\<rparr>) k"
  obtain k2 k3 where k2: "(if tf_scause tf = SCAUSE_ECALL_U
       then syscall_dispatch M c (set_proc c (\<lambda>p. p\<lparr>p_tf := (p_tf p)\<lparr>tf_sepc := tf_sepc (p_tf p) + 4\<rparr>\<rparr>) ?k1)
       else if tf_scause tf = SCAUSE_STIMER then Done (timer_trap ?k1) else bad_trap M tf ?k1) = Done k2"
    "idle_wait rounds k2 = Done k3" "resume M k3 = Done (t, k')"
    using assms(1,3) unfolding trap_handler_def Let_def by (auto simp: run_bind_Done)
  have a: "armed ?k1" using assms(2) armed_cong [of ?k1 k] by simp
  have "armed k2"
  proof (cases "tf_scause tf = SCAUSE_ECALL_U \<or> tf_scause tf \<noteq> SCAUSE_STIMER")
    case True
    then have "clock k2 = clock ?k1" using k2(1) bad clock_syscall by (auto split: if_splits)
    then show ?thesis using a armed_cong by blast
  next
    case False
    then show ?thesis using k2(1) armed_timer_trap [OF a] by auto
  qed
  then show ?thesis using armed_idle_wait [OF k2(2)] armed_cong [OF clock_resume [OF k2(3)]] by blast
qed

lemma clock_create: "proc_create_init M k = Done (i, k') \<Longrightarrow> clock k' = clock k"
  by (auto simp: proc_create_init_def run_bind_Done Let_def clock_tables(4) split: option.splits if_splits)

lemma armed_main:
  assumes "main M k0 = Done (c, satp, k)"
  shows "armed k"
proof -
  obtain u where u: "uart_puts print_banner (uart_init (k_uart k0)) = Some u"
    using assms by (cases "uart_puts print_banner (uart_init (k_uart k0))") (auto simp: main_def of_uart_def)
  let ?k3 = "timer_init ((proc_init M (k0\<lparr>k_uart := u, k_vm := vm_init (k_vm k0)\<rparr>))\<lparr>k_stvec := kernel_trap_entry\<rparr>)"
  obtain i k4 where k4: "proc_create_init M ?k3 = Done (Some i, k4)" "clock k = clock (reschedule k4)"
    using assms unfolding main_def panic_hangs u
    by (auto simp: of_uart_def [of "Some u"] run_bind_Done Let_def dest: clock_tables(5) split: option.splits)
  then have "clock k = clock ?k3" using clock_create [OF k4(1)] by simp
  then show ?thesis using armed_cong armed_init by blast
qed

lemma reachable_armed:
  assumes "layout_ok (m_layout M)" "kernel_reachable M st"
  shows "armed (snd st)"
  using assms(2)
proof induction
  case (boot k0 c satp k)
  then show ?case using armed_main armed_cong [of "enter_user satp k" k] by (simp add: enter_user_def)
next
  case (store c k va bs rc v)
  then show ?case using armed_cong [of "k\<lparr>k_vm := v\<rparr>" k] by simp
next
  case (trap c k tf rounds st)
  have "k_current k = Some c" using kernel_reachable_runs [OF assms(1) trap(1)] by (simp add: runs_def)
  then show ?case using trap(3,4) armed_trap by (cases st) auto
next
  case (idle_trap k scause st)
  then show ?case using kernel_reachable_runs [OF assms(1) idle_trap(1)] by simp
qed

text \<open>
  C10: No process can keep the hart. In every state the kernel can reach, that is whenever a user process runs, timer interrupts are
  enabled and the next one is requested for 100000 units of the time counter after the moment the last tick was counted; a
  timer interrupt counts one tick and requests the next one.
\<close>

theorem timer_always_armed:
  assumes "layout_ok (m_layout M)" "kernel_reachable M (User c, k)"
  shows "k_stie k \<and> k_deadline k = k_time k (k_ticks k) + 100000 \<and>
    (\<forall>tf rounds. length (tf_regs tf) = 32 \<longrightarrow> tf_scause tf = SCAUSE_STIMER \<longrightarrow> (\<exists>d k'. trap_handler M rounds tf k = Done (User d, k') \<and>
       k_ticks k' = k_ticks k + 1 \<and> k_stie k' \<and> k_deadline k' = k_time k' (k_ticks k + 1) + 100000))"
proof -
  have "runs M c k" using kernel_reachable_runs [OF assms] by simp
  then have g: "good M k" "k_current k = Some c" by (simp_all add: runs_def)
  have a: "armed k" using reachable_armed [OF assms] by simp
  have "\<exists>d k'. trap_handler M rounds tf k = Done (User d, k') \<and> k_ticks k' = k_ticks k + 1 \<and> armed k'"
    if "length (tf_regs tf) = 32" "tf_scause tf = SCAUSE_STIMER" for tf rounds
    by (rule timer_interrupt [OF assms(1) g that, of rounds]) (use armed_trap [OF _ a g(2)] in blast)
  then show ?thesis using a by (fastforce simp: armed_def TIMER_TICKS_def)
qed

theorem timer_always_armed_witness:
  "\<exists>k d k'. kernel_reachable sample_machine (User 0, k) \<and> k_stie k \<and> k_deadline k = k_time k 0 + 100000 \<and>
     trap_handler sample_machine 0 timer_tf k = Done (User d, k') \<and> k_ticks k' = 1 \<and> k_deadline k' = k_time k' 1 + 100000"
proof -
  obtain k where k: "kernel_reachable sample_machine (User 0, k)" "k_ticks k = 0" by (rule booted)
  show ?thesis using timer_always_armed [OF sample_machine_ok(1) k(1)] timer_tf_simps k by fastforce
qed

end
