(* ===== verification/Spec2Isabelle.thy ===== *)
theory Spec2Isabelle
  imports Shell_Main Nano_Session Nano_Hart Nano_Clock
begin

text \<open>
  A verification library of the two C programs of this repository: ShellForge, a shell for Linux (\<^verbatim>\<open>src/*.c\<close>,
  \<^verbatim>\<open>include/*.h\<close>), and NanoBoot, a small RISC-V kernel with a shell as its user program (\<^verbatim>\<open>NanoBoot/kernel\<close>,
  \<^verbatim>\<open>NanoBoot/include\<close>, \<^verbatim>\<open>NanoBoot/user\<close>).

  \<^bold>\<open>How ShellForge is modelled.\<close> Its \<^verbatim>\<open>main\<close> reads a line, splits it into tokens, parses them into a pipeline, replaces variables,
  and runs the pipeline as a built-in or as processes; a signal handler updates the job table.
  \<^item> \<^verbatim>\<open>Forge_Prelude\<close>: characters and C strings, the C library functions the programs use, faults, shared lemmas.
  \<^item> \<^verbatim>\<open>Tokens\<close>, \<^verbatim>\<open>Lexing\<close>: \<^verbatim>\<open>token.c\<close>, \<^verbatim>\<open>lexer.c\<close> and the token loop of \<^verbatim>\<open>main.c\<close>. The lexer is related to a
    declarative splitting of the line; printed tokens read back; the array of 256 tokens is never overrun (255 tokens, then
    the end).
  \<^item> \<^verbatim>\<open>Parsing\<close>: \<^verbatim>\<open>parser.c\<close>. The parser computes the declarative meaning of a token list and rejects
    exactly those without one; arguments are terminated by a null pointer and fit.
  \<^item> \<^verbatim>\<open>Expansion\<close>: \<^verbatim>\<open>expand.c\<close>. The growing buffer is never overrun, whatever the allocator refuses, and the result is
    the one-pass substitution of the variables.
  \<^item> \<^verbatim>\<open>Shell_IO\<close>, \<^verbatim>\<open>Jobs\<close>, \<^verbatim>\<open>Builtins\<close>: output events and the environment, \<^verbatim>\<open>jobs.c\<close>, \<^verbatim>\<open>builtin.c\<close>. The job table refines a
    map whose keys are never issued twice.
  \<^item> \<^verbatim>\<open>Executor\<close>: \<^verbatim>\<open>executor.c\<close> over an explicit table of file descriptors: pipes are wired to the right
    commands, nothing leaks, the text of a background job fits its block except in the one case that is proved
    to overrun it.
  \<^item> \<^verbatim>\<open>Shell_Main\<close>: \<^verbatim>\<open>main.c\<close>: the built-ins, one line, the loop, the signal handler. A line runs its meaning; the
    only memory fault is that overrun; strings are released; the job table keeps its invariant.

  \<^bold>\<open>How NanoBoot is modelled.\<close> The kernel boots, creates the first process and enters it; from then on it runs only in traps, which
  are system calls, timer interrupts or faults of user code.
  \<^item> \<^verbatim>\<open>Nano_Lib\<close>: \<^verbatim>\<open>string.c\<close>, \<^verbatim>\<open>uart.c\<close>, \<^verbatim>\<open>ramfs.c\<close>, \<^verbatim>\<open>spinlock.c\<close>: memory and strings, the console as a device with a list of
    status values, the file table, and the spin lock as a step relation of many harts.
  \<^item> \<^verbatim>\<open>Nano_VM\<close>: \<^verbatim>\<open>vm.c\<close>, \<^verbatim>\<open>vm.h\<close>: the pool of page-table pages, three-level tables with 64-bit entries, creating, cloning and
    destroying address spaces, copying to and from user memory. \<^verbatim>\<open>Nano_Tables\<close>, \<^verbatim>\<open>Nano_Spaces\<close>: what the tables map. \<^verbatim>\<open>Nano_Isolation\<close>:
    the address spaces as a state machine, its invariant, page-wise copies are byte-wise copies. \<^verbatim>\<open>Nano_Pool\<close>: the pool never runs
    out.
  \<^item> \<^verbatim>\<open>Nano_Proc\<close>, \<^verbatim>\<open>Nano_Kernel\<close>: \<^verbatim>\<open>proc.c\<close>, \<^verbatim>\<open>timer.c\<close>; \<^verbatim>\<open>syscall.c\<close>, \<^verbatim>\<open>trap.c\<close>, \<^verbatim>\<open>main.c\<close>. \<^verbatim>\<open>Nano_Sched\<close>: the scheduler. \<^verbatim>\<open>Nano_Safety\<close>,
    \<^verbatim>\<open>Nano_Traps\<close>: every operation and every handler keeps the invariant and does not fault. \<^verbatim>\<open>Nano_System\<close>: booting, and concrete machines for the
    witnesses. \<^verbatim>\<open>Nano_Guarantees\<close>, \<^verbatim>\<open>Nano_Calls\<close>: the properties of the running kernel. \<^verbatim>\<open>Nano_Clock\<close>: the next timer interrupt is always
    requested. \<^verbatim>\<open>Nano_Frames\<close>: what a trap leaves of the registers of all processes.
  \<^item> \<^verbatim>\<open>Nano_Asm\<close>: the assembly, \<^verbatim>\<open>entry.S\<close>, \<^verbatim>\<open>swtch.S\<close>, \<^verbatim>\<open>boot.S\<close> and \<^verbatim>\<open>user/syscall.S\<close>, instruction by instruction as steps on the registers, control registers
    and memory of a hart. \<^verbatim>\<open>Nano_Machine\<close>: the assembly around the C handlers as one machine, in which the trap frames lie in memory;
    every state it reaches is one of the kernel's. \<^verbatim>\<open>Nano_Hart\<close>: what a user program sees of this machine: preemption, system calls and fork.
  \<^item> \<^verbatim>\<open>Nano_Shell\<close>, \<^verbatim>\<open>Nano_Session\<close>: \<^verbatim>\<open>user/sh.c\<close>, the line editor, tokenizer, parser, commands and main loop, and their
    properties.

  \<^bold>\<open>Conventions.\<close> A C function that may run into undefined behaviour returns \<open>fault + 'a\<close> (\<open>res\<close>); a kernel function
  returns a \<open>run\<close>: it is done, faults, or never returns. Allocation failures are a list of answers (\<open>allocs\<close>), so
  that statements hold for every failure. System calls and the environment of ShellForge are the parameters \<open>sys\<close> and
  \<open>os\<close>; the addresses that the linker chooses and the user image are the parameters \<open>layout\<close> and \<open>machine\<close>, with
  \<open>layout_ok\<close> stating what the linker script gives (the pool and the user memory start at page boundaries and do not wrap around, the end of the kernel is below the address
  limit of a table). Signals of ShellForge arrive before a line and while \<^verbatim>\<open>fg\<close> pauses. Job ids and process ids are unbounded integers. In
  the kernel machine words keep their widths (64-bit registers, entries and ticks). A trap handler runs with interrupts off
  and is one step; user code is any sequence of stores to its own memory (through its page table), changes of its registers and
  traps. The C handlers are called by the assembly with the frame in memory; between their call and return every register and every
  word of memory outside the frames may change. The time counter is an input, read once for each tick. What system calls return to the user shell is its parameter \<open>u_reply\<close>.

  \<^bold>\<open>Bounds and fuel.\<close> The loop in which the kernel waits for a process takes the argument \<open>rounds\<close>, the number of timer ticks until the
  run is observed; \<open>sleep_returns\<close> shows how many are enough, and the safety theorems hold for every number. A table walk has
  three levels. An address space takes at most 39 pages of tables, eight processes and the kernel 351 of the 1024 of the pool.
  All other recursion is over data.

  \<^bold>\<open>Interfaces.\<close> \<open>char_sink\<close> (what the expansion needs of its buffer), \<open>keyed_store\<close> (what clients rely on of
  the job table), \<open>token_source\<close> (what the token loop needs of the lexer), \<open>flow_contract\<close> (what system calls keep, and so every
  part of the user shell) and \<open>trap_code\<close> (what the handlers need of the entry and return code) are locales, interpreted on the definitions of the code.

  \<^bold>\<open>Not modelled.\<close> What the firmware does with a request for an interrupt (an interrupt may come at any instruction of a user program),
  the time that the kernel's own waiting loop polls (a round of it is one tick), the \<^verbatim>\<open>_start\<close> of the user program (it calls \<^verbatim>\<open>main\<close>, which never
  returns), address translation of the kernel's own accesses (the kernel maps its memory to itself), readline of ShellForge (lines are given), tests, documents
  and build files.
\<close>

section \<open>Properties that span components\<close>

text \<open>The tokens of a list of commands print as a line that reads back.\<close>

definition command_printable :: "acommand \<Rightarrow> bool" where
  "command_printable c \<longleftrightarrow> (\<forall>s \<in> cmd_strings c. printable (TOKEN_WORD, s) \<and> CHR ''$'' \<notin> set s)"

lemma printable_operators [simp]:
  "printable (TOKEN_PIPE, ''|'')" "printable (TOKEN_AMPERSAND, ''&'')" "printable (TOKEN_REDIRECT_IN, ''<'')"
  "printable (TOKEN_REDIRECT_OUT, ''>'')" "printable (TOKEN_REDIRECT_APPEND, ''>>'')"
  by (simp_all add: printable_def)

lemma printable_unparse:
  "list_all command_printable cs \<Longrightarrow> list_all printable (unparse cs)"
proof (induction cs rule: unparse.induct)
  have one: "list_all printable (unparse_command c)" if "command_printable c" for c
    using that by (cases "infile c"; cases "outfile c")
      (auto simp: command_printable_def cmd_strings_def unparse_command_def list_all_iff)
  {
    case (2 c)
    then show ?case using one by simp
  next
    case (3 c c' cs)
    then show ?case using one by simp
  }
qed simp

lemma expand_acommand_plain:
  assumes "command_printable c"
  shows "expand_acommand env c = c"
proof -
  have plain: "s \<in> cmd_strings c \<Longrightarrow> expand_spec env s = s" for s
    using assms by (simp add: command_printable_def expand_spec_plain)
  then have "map (expand_spec env) (args c) = args c" by (intro map_idI) (simp add: cmd_strings_def)
  moreover have "map_option (expand_spec env) (infile c) = infile c"
    using plain by (cases "infile c") (auto simp: cmd_strings_def)
  moreover have "map_option (map_prod (expand_spec env) id) (outfile c) = outfile c"
    using plain by (cases "outfile c") (auto simp: cmd_strings_def)
  ultimately show ?thesis by (simp add: expand_acommand_def)
qed

lemma line_meaning_unparse:
  assumes "acommands_ok cs" "list_all command_printable cs" "length (unparse cs) < 255"
  shows "line_meaning env (print_line (unparse cs)) = Some cs"
proof -
  note p = printable_unparse [OF assms(2)]
  have "take 255 (lex_all (c_str (print_line (unparse cs)))) = unparse cs @ [(TOKEN_END, ''END'')]"
    using lex_all_print_line [OF p] c_str_id [OF print_line_no_NUL [OF p]] assms(3) by simp
  moreover have "map (expand_acommand env) cs = cs"
    using assms(2) by (auto simp: list_all_iff expand_acommand_plain intro: map_idI)
  ultimately show ?thesis using spec_parse_unparse [OF assms(1)] by (simp add: line_meaning_def)
qed

text \<open>
  C14: A list of commands, printed as a line (arguments quoted where needed, without variables) and
  given to the shell, runs as exactly these commands: lexing, parsing and expansion together lose and
  add nothing.
\<close>

theorem shell_line_round_trip:
  assumes "acommands_ok cs" "list_all command_printable cs" "length (unparse cs) < 255"
    and "plenty (ex_allocs (sh_exec sh))" "env_ok (os_getenv os)"
    and "char_at (print_line (unparse cs)) 0 \<noteq> CHR ''#''" "unparse cs \<noteq> []"
  shows "\<exists>tokens p sh'. Shell_Main.process_line os sys d p0 (print_line (unparse cs)) sh = run_pipeline os sys tokens p sh' \<and>
    pipeline_wf p \<and> abs_pipeline p = cs"
proof -
  note p = printable_unparse [OF assms(2)]
  have "print_line (unparse cs) \<noteq> []" using assms(7) by (cases "unparse cs") (simp_all add: print_line_def)
  then have line: "c_str (print_line (unparse cs)) \<noteq> []" using c_str_id [OF print_line_no_NUL [OF p]] by simp
  from assms(4,5) line assms(6) show ?thesis
  proof (cases rule: process_line_cases [where sys = sys and d = d and ?p0.0 = p0])
    case rejected
    with line_meaning_unparse [OF assms(1-3)] show ?thesis by simp
  next
    case accepted
    with line_meaning_unparse [OF assms(1-3)] show ?thesis by auto
  qed
qed

theorem shell_line_round_trip_witness:
  "\<exists>tokens p sh'. Shell_Main.process_line bare_os willing False init_pipeline ''ls | wc '' start_shell =
     run_pipeline bare_os willing tokens p sh' \<and> abs_pipeline p = [empty_cmd\<lparr>args := [''ls'']\<rparr>, empty_cmd\<lparr>args := [''wc'']\<rparr>]"
proof -
  let ?cs = "[empty_cmd\<lparr>args := [''ls'']\<rparr>, empty_cmd\<lparr>args := [''wc'']\<rparr>]"
  have "acommands_ok ?cs" "list_all command_printable ?cs" "length (unparse ?cs) < 255" "unparse ?cs \<noteq> []"
    by (simp_all add: acommands_ok_def command_printable_def cmd_strings_def empty_cmd_def printable_def unparse_command_def)
  moreover have "print_line (unparse ?cs) = ''ls | wc ''" by code_simp
  ultimately show ?thesis
    using shell_line_round_trip [of ?cs start_shell bare_os willing False init_pipeline] bare_os_ok by auto
qed

lemma kernel_address_rejected:
  assumes "layout_ok (m_layout M)" "kernel_reachable M (User c, k)" "tf_regs tf ! 10 = 0x80200000" "tf_regs tf ! 11 = 1"
  shows "sys_write M tf k = Done (-1, k)"
proof -
  have none: "user_bytes (m_layout M) c (vm_mem (k_vm k)) (tf_regs tf ! 10) 1 = None"
    using assms(3) by (simp add: user_bytes_def user_space_def layout_defs)
  have "runs M c k" using kernel_reachable_runs [OF assms(1,2)] by simp
  then have g: "good M k" "k_current k = Some c" by (simp_all add: runs_def)
  show ?thesis
    using good_copyin [OF assms(1) g, of "tf_regs tf ! 10" 1] current_pt_good [OF g(2)] none assms(4) by (simp add: sys_write_def Let_def)
qed



end
